(* ===== verification/Prelude.thy ===== *)
theory Prelude
  imports Main "HOL-Library.Word" "HOL-Library.Stream"
begin

text \<open>
  Shared vocabulary of the development: bytes, the ways a C run can stop, results and
  their sequencing, C integer conversions, byte objects in memory and little-endian
  integers.

  A C object is the list of its bytes. Reading bytes that the program never wrote
  (the contents of a fresh \<open>malloc\<close>, or bytes behind the end of an object) yields
  indeterminate bytes: they are drawn from the stream \<open>unk\<close>, about which nothing is
  assumed, so that every theorem holds whatever they are. Writing outside an object,
  indexing outside an array and dereferencing \<open>NULL\<close> stop the model with the cause.
\<close>

unbundle bit_operations_syntax

named_theorems result_simps \<open>sequencing and inversion of results\<close>
named_theorems mem_simps \<open>reading and overwriting byte objects\<close>

type_synonym byte = "8 word"

subsection \<open>Results\<close>

datatype stop =
    NullDeref        \<comment> \<open>a \<open>NULL\<close> pointer is used\<close>
  | OutOfBounds      \<comment> \<open>an access outside its object\<close>
  | Dangling         \<comment> \<open>a closed stream is used\<close>
  | Blocked          \<comment> \<open>the process waits for ever on a semaphore\<close>
  | Exited int       \<comment> \<open>the process called \<open>exit\<close>\<close>

type_synonym 'a result = "stop + 'a"

fun rbind :: "'e + 'a \<Rightarrow> ('a \<Rightarrow> 'e + 'b) \<Rightarrow> 'e + 'b" where
  "rbind (Inl e) f = Inl e"
| "rbind (Inr x) f = f x"

fun_cases rbind_InrE: "rbind m f = Inr y"
fun_cases rbind_InlE: "rbind m f = Inl e"

lemma rbind_Inr_iff [result_simps]: "rbind m f = Inr y \<longleftrightarrow> (\<exists>x. m = Inr x \<and> f x = Inr y)"
  by (cases m) auto

lemma rbind_Inl_iff: "rbind m f = Inl e \<longleftrightarrow> m = Inl e \<or> (\<exists>x. m = Inr x \<and> f x = Inl e)"
  by (cases m) auto

lemma rbind_assoc: "rbind (rbind m f) g = rbind m (\<lambda>x. rbind (f x) g)"
  by (cases m) auto

lemma rbind_cong [fundef_cong]:
  "m = m' \<Longrightarrow> (\<And>x. m' = Inr x \<Longrightarrow> f x = f' x) \<Longrightarrow> rbind m f = rbind m' f'"
  by (cases m') auto

subsection \<open>C integer conversions\<close>

text \<open>
  Signed values are \<open>int\<close>, unsigned ones \<open>nat\<close>; a conversion or an operation that
  may leave the range of its C type is reduced to the width of that type.
\<close>

definition u32 :: "int \<Rightarrow> nat" where
  "u32 x = nat (x mod 2 ^ 32)"

definition u64 :: "int \<Rightarrow> nat" where
  "u64 x = nat (x mod 2 ^ 64)"

definition s32 :: "int \<Rightarrow> int" where
  "s32 x = (x + 2 ^ 31) mod 2 ^ 32 - 2 ^ 31"

lemma u32_small [simp]: "0 \<le> x \<Longrightarrow> x < 4294967296 \<Longrightarrow> u32 x = nat x"
  by (simp add: u32_def)

lemma u64_small [simp]: "0 \<le> x \<Longrightarrow> x < 18446744073709551616 \<Longrightarrow> u64 x = nat x"
  by (simp add: u64_def)

lemma s32_small [simp]: "- 2147483648 \<le> x \<Longrightarrow> x < 2147483648 \<Longrightarrow> s32 x = x"
  by (simp add: s32_def)

lemma u32_bound: "u32 x < 4294967296"
  by (simp add: u32_def nat_less_iff)

lemma u64_bound: "u64 x < 18446744073709551616"
  by (simp add: u64_def nat_less_iff)

lemma s32_bounds: "- 2147483648 \<le> s32 x \<and> s32 x < 2147483648"
  by (simp add: s32_def)

subsection \<open>Byte objects\<close>

text \<open>\<open>overwrite xs off ys\<close> is the object \<open>xs\<close> after \<open>memcpy(xs + off, ys, length ys)\<close>.\<close>

definition overwrite :: "'a list \<Rightarrow> nat \<Rightarrow> 'a list \<Rightarrow> 'a list" where
  "overwrite xs off ys = take off xs @ ys @ drop (off + length ys) xs"

definition store_mem :: "'a list \<Rightarrow> nat \<Rightarrow> 'a list \<Rightarrow> 'a list result" where
  "store_mem dst off bs =
     (if off + length bs \<le> length dst then Inr (overwrite dst off bs) else Inl OutOfBounds)"

definition slice :: "'a list \<Rightarrow> nat \<Rightarrow> nat \<Rightarrow> 'a list" where
  "slice xs off n = take n (drop off xs)"

lemma length_overwrite [simp, mem_simps]:
  "off + length ys \<le> length xs \<Longrightarrow> length (overwrite xs off ys) = length xs"
  by (simp add: overwrite_def)

lemma nth_overwrite [mem_simps]:
  assumes "off + length ys \<le> length xs" and "i < length xs"
  shows "overwrite xs off ys ! i = (if off \<le> i \<and> i < off + length ys then ys ! (i - off) else xs ! i)"
proof -
  have "i - off - length ys = i - (off + length ys)" by simp
  then show ?thesis using assms by (auto simp: overwrite_def nth_append)
qed

lemma overwrite_Nil [simp]: "overwrite xs off [] = xs"
  by (simp add: overwrite_def)

lemma overwrite_all [simp]: "length ys = length xs \<Longrightarrow> overwrite xs 0 ys = ys"
  by (simp add: overwrite_def)

text \<open>A \<open>memcpy\<close> that is repeated leaves what the first one wrote.\<close>

lemma overwrite_idem [simp]:
  "off + length ys \<le> length xs \<Longrightarrow> overwrite (overwrite xs off ys) off ys = overwrite xs off ys"
  by (simp add: overwrite_def)

lemma overwrite_append:
  assumes "off + length ys + length zs \<le> length xs"
  shows "overwrite (overwrite xs off ys) (off + length ys) zs = overwrite xs off (ys @ zs)"
  using assms by (simp add: overwrite_def ac_simps)

lemma slice_overwrite [simp, mem_simps]:
  "off + length ys \<le> length xs \<Longrightarrow> slice (overwrite xs off ys) off (length ys) = ys"
  by (simp add: slice_def overwrite_def)

lemma slice_overwrite_other [mem_simps]:
  assumes "off + length ys \<le> length xs" and "k + n \<le> off \<or> off + length ys \<le> k"
  shows "slice (overwrite xs off ys) k n = slice xs k n"
proof (rule nth_equalityI)
  show "length (slice (overwrite xs off ys) k n) = length (slice xs k n)"
    using assms(1) by (simp add: slice_def)
next
  fix i assume "i < length (slice (overwrite xs off ys) k n)"
  then have "i < n" "k + i < length xs" using assms(1) by (auto simp: slice_def)
  then show "slice (overwrite xs off ys) k n ! i = slice xs k n ! i"
    using assms by (auto simp: slice_def nth_overwrite)
qed

lemma length_slice [simp]: "off + n \<le> length xs \<Longrightarrow> length (slice xs off n) = n"
  by (simp add: slice_def)

lemma slice_append1: "k + n \<le> length xs \<Longrightarrow> slice (xs @ ys) k n = slice xs k n"
  by (simp add: slice_def)

lemma slice_append2: "length xs \<le> k \<Longrightarrow> slice (xs @ ys) k n = slice ys (k - length xs) n"
  by (simp add: slice_def)

text \<open>An array of elements of \<open>w\<close> bytes: the bytes of element \<open>i\<close>.\<close>

lemma length_concat_chunks:
  "\<forall>x\<in>set xs. length (f x) = w \<Longrightarrow> length (concat (map f xs)) = w * length xs"
  by (induction xs) auto

lemma slice_concat_chunks:
  assumes "\<forall>x\<in>set xs. length (f x) = w" and "i < length xs"
  shows "slice (concat (map f xs)) (w * i) w = f (xs ! i)"
  using assms
proof (induction xs arbitrary: i)
  case Nil
  then show ?case by simp
next
  case (Cons x xs)
  show ?case
  proof (cases i)
    case 0
    then show ?thesis using Cons.prems by (simp add: slice_def)
  next
    case (Suc j)
    then have "slice (concat (map f (x # xs))) (w * i) w = slice (concat (map f xs)) (w * j) w"
      using Cons.prems by (simp add: slice_append2)
    also have "\<dots> = f (xs ! j)" using Cons.prems Suc by (intro Cons.IH) auto
    finally show ?thesis using Suc by simp
  qed
qed

subsection \<open>Indeterminate bytes\<close>

record mem =
  unk :: "byte stream"   \<comment> \<open>values of the bytes the program reads without having written them\<close>

definition indet :: "nat \<Rightarrow> 'a mem_scheme \<Rightarrow> byte list \<times> 'a mem_scheme" where
  "indet n s = (stake n (unk s), s\<lparr>unk := sdrop n (unk s)\<rparr>)"

text \<open>
  \<open>load_mem n src s\<close> reads \<open>n\<close> bytes from a pointer into an object of which the bytes
  \<open>src\<close> are left; what lies behind the object is indeterminate.
\<close>

definition load_mem :: "nat \<Rightarrow> byte list \<Rightarrow> 'a mem_scheme \<Rightarrow> byte list \<times> 'a mem_scheme" where
  "load_mem n src s =
     (if n \<le> length src then (take n src, s)
      else (let (x, s') = indet (n - length src) s in (src @ x, s')))"

lemma length_load_mem [simp]: "length (fst (load_mem n src s)) = n"
  by (simp add: load_mem_def indet_def)

lemma load_mem_full [simp]: "n \<le> length src \<Longrightarrow> load_mem n src s = (take n src, s)"
  by (simp add: load_mem_def)

lemma snd_load_mem: "snd (load_mem n src s) = s\<lparr>unk := sdrop (n - length src) (unk s)\<rparr>"
  by (simp add: load_mem_def indet_def)

lemma load_mem_eq:
  "load_mem n src s =
     (take n src @ stake (n - length src) (unk s), s\<lparr>unk := sdrop (n - length src) (unk s)\<rparr>)"
  by (simp add: load_mem_def indet_def)

text \<open>Reading \<open>m + n\<close> bytes is reading \<open>m\<close> bytes and then \<open>n\<close> behind them.\<close>

lemma load_mem_add:
  "load_mem (m + n) src s =
     (let (x, s1) = load_mem m src s; (y, s2) = load_mem n (drop m src) s1 in (x @ y, s2))"
proof (cases "m \<le> length src")
  case True
  then have "m + n - length src = n - (length src - m)" by simp
  with True show ?thesis by (simp add: load_mem_eq take_add)
next
  case False
  then obtain d where d: "m = length src + d" by (metis le_add_diff_inverse nat_le_linear)
  show ?thesis by (simp add: d load_mem_eq)
qed

subsection \<open>Little-endian integers in memory\<close>

fun le_bytes :: "nat \<Rightarrow> nat \<Rightarrow> byte list" where
  "le_bytes 0 x = []"
| "le_bytes (Suc n) x = word_of_nat (x mod 256) # le_bytes n (x div 256)"

fun le_nat :: "byte list \<Rightarrow> nat" where
  "le_nat [] = 0"
| "le_nat (b # bs) = unat b + 256 * le_nat bs"

lemma length_le_bytes [simp]: "length (le_bytes n x) = n"
  by (induction n arbitrary: x) auto

lemma unat_byte_mod [simp]: "unat (word_of_nat (x mod 256) :: byte) = x mod 256"
  by (simp add: unat_of_nat)

lemma le_nat_le_bytes: "le_nat (le_bytes n x) = x mod 256 ^ n"
proof (induction n arbitrary: x)
  case 0
  then show ?case by simp
next
  case (Suc n)
  have "x mod (256 * 256 ^ n) = 256 * (x div 256 mod 256 ^ n) + x mod 256"
    by (rule mod_mult2_eq)
  then show ?case using Suc by simp
qed

lemma le_nat_le_bytes_id [simp]: "x < 256 ^ n \<Longrightarrow> le_nat (le_bytes n x) = x"
  by (simp add: le_nat_le_bytes)

lemma le_nat_bound: "le_nat bs < 256 ^ length bs"
proof (induction bs)
  case Nil
  then show ?case by simp
next
  case (Cons b bs)
  have "unat b < 256" using unsigned_less [of b] by simp
  with Cons show ?case by simp
qed

subsection \<open>Association of an address range with bytes\<close>

text \<open>
  The contents of a disk file is a function from offsets to bytes; \<open>bytes_at\<close> reads a
  range of it and \<open>put_at\<close> replaces one.
\<close>

definition bytes_at :: "(nat \<Rightarrow> byte) \<Rightarrow> nat \<Rightarrow> nat \<Rightarrow> byte list" where
  "bytes_at c a n = map c [a..<a + n]"

definition put_at :: "(nat \<Rightarrow> byte) \<Rightarrow> nat \<Rightarrow> byte list \<Rightarrow> nat \<Rightarrow> byte" where
  "put_at c a bs = (\<lambda>x. if a \<le> x \<and> x < a + length bs then bs ! (x - a) else c x)"

lemma length_bytes_at [simp]: "length (bytes_at c a n) = n"
  by (simp add: bytes_at_def)

lemma nth_bytes_at [simp]: "i < n \<Longrightarrow> bytes_at c a n ! i = c (a + i)"
  by (simp add: bytes_at_def)

lemma put_at_Nil [simp]: "put_at c a [] = c"
  by (rule ext) (auto simp: put_at_def)

lemma put_at_append: "put_at (put_at c a xs) (a + length xs) ys = put_at c a (xs @ ys)"
  by (rule ext) (auto simp: put_at_def nth_append diff_diff_left)

lemma bytes_at_put_at [simp]: "n = length bs \<Longrightarrow> bytes_at (put_at c a bs) a n = bs"
  by (rule nth_equalityI) (auto simp: put_at_def)

lemma bytes_at_put_at_other:
  "k + n \<le> a \<or> a + length bs \<le> k \<Longrightarrow> bytes_at (put_at c a bs) k n = bytes_at c k n"
  by (rule nth_equalityI) (auto simp: put_at_def)

lemma bytes_at_put_at_inside:
  "a \<le> k \<Longrightarrow> k + n \<le> a + length bs \<Longrightarrow> bytes_at (put_at c a bs) k n = slice bs (k - a) n"
  by (rule nth_equalityI) (auto simp: put_at_def slice_def)

lemma bytes_at_append: "bytes_at c a m @ bytes_at c (a + m) n = bytes_at c a (m + n)"
proof -
  have "[a..<a + (m + n)] = [a..<a + m] @ [a + m..<a + m + n]"
    by (metis add.assoc le_add1 upt_add_eq_append)
  then show ?thesis by (simp add: bytes_at_def)
qed

lemma take_bytes_at: "take k (bytes_at c a n) = bytes_at c a (min k n)"
  by (rule nth_equalityI) auto

lemma drop_bytes_at: "drop k (bytes_at c a n) = bytes_at c (a + k) (n - k)"
  by (rule nth_equalityI) (auto simp: add.assoc)

text \<open>Replacing part of a range that was read and writing it back is a small \<open>put_at\<close>.\<close>

lemma put_at_overwrite_bytes_at:
  assumes "off + length bs \<le> n"
  shows "put_at c a (overwrite (bytes_at c a n) off bs) = put_at c (a + off) bs"
proof (rule ext)
  fix x
  show "put_at c a (overwrite (bytes_at c a n) off bs) x = put_at c (a + off) bs x"
    using assms by (auto simp: put_at_def nth_overwrite diff_diff_left)
qed

end
