(* ===== verification/Disk_Emu.thy ===== *)
theory Disk_Emu
  imports Prelude
begin

text \<open>
  The emulated disk, \<^verbatim>\<open>file_system/disk_emu.c\<close>: a host file of \<open>MAX_BLOCK\<close> blocks of
  \<open>BLOCK_SIZE\<close> bytes, read and written block by block through one \<^verbatim>\<open>FILE*\<close>.
  The record holds the globals of the C file and the host file behind \<open>fp\<close>:
  \<open>content\<close> and \<open>flen\<close> are its bytes, \<open>fpos\<close> the position of the stream.
  The lemmas show what a block read or write returns and changes, that neither ever
  reports a failure other than the bound error, and that block transfers satisfy the laws
  of a block device (locale \<open>block_device\<close>).
\<close>

named_theorems disk_simps \<open>the fields of a disk that is ready\<close>

subsection \<open>State\<close>

datatype file_ptr = FNull | FOpen | FClosed

record disk = mem +
  file_exists :: bool              \<comment> \<open>the host has a file of this name\<close>
  can_create :: bool               \<comment> \<open>the host lets the program create it\<close>
  content :: "nat \<Rightarrow> byte"
  flen :: nat
  fp :: file_ptr
  fpos :: nat
  BLOCK_SIZE :: int
  MAX_BLOCK :: int
  MAX_RETRY :: int
  disk_L :: int                    \<comment> \<open>the latency \<open>L\<close>\<close>
  disk_p :: int                    \<comment> \<open>the failure probability \<open>p\<close>\<close>

subsection \<open>Opening and closing\<close>

definition close_disk :: "'a disk_scheme \<Rightarrow> (int \<times> 'a disk_scheme) result" where
  "close_disk s =
     (case fp s of
        FNull \<Rightarrow> Inr (0, s)
      | FOpen \<Rightarrow> Inr (0, s\<lparr>fp := FClosed\<rparr>)
      | FClosed \<Rightarrow> Inl Dangling)"

text \<open>
  \<^verbatim>\<open>fopen(filename, "w+b")\<close> creates or truncates the file; the two loops then write
  \<open>MAX_BLOCK * BLOCK_SIZE\<close> zero bytes.
\<close>

definition init_fresh_disk :: "int \<Rightarrow> int \<Rightarrow> 'a disk_scheme \<Rightarrow> int \<times> 'a disk_scheme" where
  "init_fresh_disk block_size num_blocks s =
     (let s1 = s\<lparr>disk_L := 0, disk_p := -1, MAX_RETRY := 3,
                 BLOCK_SIZE := block_size, MAX_BLOCK := num_blocks\<rparr>
      in if \<not> can_create s1 then (-1, s1\<lparr>fp := FNull\<rparr>)
         else (0, s1\<lparr>fp := FOpen, file_exists := True, content := (\<lambda>_. 0),
                     flen := nat num_blocks * nat block_size,
                     fpos := nat num_blocks * nat block_size\<rparr>))"

definition init_disk :: "int \<Rightarrow> int \<Rightarrow> 'a disk_scheme \<Rightarrow> int \<times> 'a disk_scheme" where
  "init_disk block_size num_blocks s =
     (let s1 = s\<lparr>disk_L := 0, disk_p := -1, MAX_RETRY := 3,
                 BLOCK_SIZE := block_size, MAX_BLOCK := num_blocks\<rparr>
      in if \<not> file_exists s1 then (-1, s1\<lparr>fp := FNull\<rparr>)
         else (0, s1\<lparr>fp := FOpen, fpos := 0\<rparr>))"

subsection \<open>The standard input/output calls used\<close>

text \<open>\<open>fseek(fp, off, SEEK_SET)\<close> fails for a negative offset and leaves the position.\<close>

definition fseek :: "int \<Rightarrow> 'a disk_scheme \<Rightarrow> 'a disk_scheme result" where
  "fseek off s =
     (case fp s of
        FNull \<Rightarrow> Inl NullDeref
      | FClosed \<Rightarrow> Inl Dangling
      | FOpen \<Rightarrow> Inr (if 0 \<le> off then s\<lparr>fpos := nat off\<rparr> else s))"

text \<open>
  \<open>fread(buf, length buf, 1, fp)\<close>: at the end of the file only the bytes that are there
  arrive, the rest of the buffer keeps its contents.
\<close>

definition fread_item :: "byte list \<Rightarrow> 'a disk_scheme \<Rightarrow> byte list \<times> 'a disk_scheme" where
  "fread_item buf s =
     (let n = min (length buf) (flen s - fpos s)
      in (bytes_at (content s) (fpos s) n @ drop n buf, s\<lparr>fpos := fpos s + n\<rparr>))"

text \<open>\<open>fwrite\<close> behind the end of the file fills the gap with zeros.\<close>

definition fwrite_item :: "byte list \<Rightarrow> 'a disk_scheme \<Rightarrow> 'a disk_scheme" where
  "fwrite_item buf s =
     (let c = (if flen s < fpos s then put_at (content s) (flen s) (replicate (fpos s - flen s) 0)
               else content s)
      in s\<lparr>content := put_at c (fpos s) buf, flen := max (flen s) (fpos s + length buf),
           fpos := fpos s + length buf\<rparr>)"

subsection \<open>Reading and writing blocks\<close>

text \<open>
  The loop over \<open>i\<close>. The inner loop over \<open>j\<close> repeats the same \<open>memcpy\<close>
  \<open>BLOCK_SIZE\<close> times, which by \<open>overwrite_idem\<close> is the same as doing it once.
\<close>

fun read_loop :: "nat \<Rightarrow> nat \<Rightarrow> byte list \<Rightarrow> byte list \<Rightarrow> nat \<Rightarrow> 'a disk_scheme
    \<Rightarrow> (byte list \<times> 'a disk_scheme) result" where
  "read_loop i 0 blockRead dst off s = Inr (dst, s)"
| "read_loop i (Suc k) blockRead dst off s =
     (let (blk, s1) = fread_item blockRead s
      in rbind (store_mem dst (off + i * nat (BLOCK_SIZE s)) blk)
           (\<lambda>dst'. read_loop (Suc i) k blk dst' off s1))"

text \<open>
  \<open>read_blocks start nblocks dst off\<close> reads into the object \<open>dst\<close> from offset \<open>off\<close>;
  the result is the return value, the object afterwards and the state. The failure count
  \<open>e\<close> of the C function stays 0.
\<close>

definition read_blocks :: "int \<Rightarrow> int \<Rightarrow> byte list \<Rightarrow> nat \<Rightarrow> 'a disk_scheme
    \<Rightarrow> (int \<times> byte list \<times> 'a disk_scheme) result" where
  "read_blocks start nblocks dst off s =
     (let (blockRead, s1) = indet (nat (BLOCK_SIZE s)) s
      in if s32 (start + nblocks) > MAX_BLOCK s1 then Inr (-1, dst, s1)
         else rbind (fseek (s32 (start * BLOCK_SIZE s1)) s1) (\<lambda>s2.
              rbind (read_loop 0 (nat nblocks) blockRead dst off s2) (\<lambda>(dst', s3).
              Inr (int (nat nblocks), dst', s3))))"

fun write_loop :: "nat \<Rightarrow> nat \<Rightarrow> byte list \<Rightarrow> 'a disk_scheme \<Rightarrow> 'a disk_scheme" where
  "write_loop i 0 src s = s"
| "write_loop i (Suc k) src s =
     (let (blk, s1) = load_mem (nat (BLOCK_SIZE s)) (drop (i * nat (BLOCK_SIZE s)) src) s
      in write_loop (Suc i) k src (fwrite_item blk s1))"

text \<open>\<open>src\<close> is the object from the buffer pointer to its end.\<close>

definition write_blocks :: "int \<Rightarrow> int \<Rightarrow> byte list \<Rightarrow> 'a disk_scheme
    \<Rightarrow> (int \<times> 'a disk_scheme) result" where
  "write_blocks start nblocks src s =
     (if s32 (start + nblocks) > MAX_BLOCK s then Inr (-1, s)
      else rbind (fseek (s32 (start * BLOCK_SIZE s)) s) (\<lambda>s1.
           Inr (int (nat nblocks), write_loop 0 (nat nblocks) src s1)))"

subsection \<open>What the transfers do on the disk the file system uses\<close>

text \<open>
  \<^verbatim>\<open>sfs_api.c\<close> always opens a disk of 1024 blocks of 1024 bytes; \<open>disk_ready\<close> is
  the state of such a disk that was opened and holds its full size.
\<close>

definition disk_ready :: "'a disk_scheme \<Rightarrow> bool" where
  "disk_ready s \<longleftrightarrow> fp s = FOpen \<and> BLOCK_SIZE s = 1024 \<and> MAX_BLOCK s = 1024 \<and> flen s = 1048576"

definition block_bytes :: "'a disk_scheme \<Rightarrow> nat \<Rightarrow> byte list" where
  "block_bytes s b = bytes_at (content s) (b * 1024) 1024"

lemma disk_ready_fields [disk_simps]:
  assumes "disk_ready s"
  shows "fp s = FOpen" and "BLOCK_SIZE s = 1024" and "MAX_BLOCK s = 1024" and "flen s = 1048576"
  using assms by (simp_all add: disk_ready_def)

lemma disk_ready_upd [simp]:
  "disk_ready (s\<lparr>fpos := p\<rparr>) = disk_ready s"
  "disk_ready (s\<lparr>content := c\<rparr>) = disk_ready s"
  "disk_ready (s\<lparr>unk := u\<rparr>) = disk_ready s"
  by (simp_all add: disk_ready_def)

lemma length_block_bytes [simp]: "length (block_bytes s b) = 1024"
  by (simp add: block_bytes_def)

lemma init_fresh_disk_ready:
  "can_create s \<Longrightarrow> init_fresh_disk 1024 1024 s = (r, s') \<Longrightarrow> r = 0 \<and> disk_ready s'"
  by (auto simp: init_fresh_disk_def disk_ready_def Let_def)

lemma read_loop_ok:
  assumes "BLOCK_SIZE s = 1024" and "fpos s + k * 1024 \<le> flen s" and "length blk = 1024"
    and "off + (i + k) * 1024 \<le> length dst"
  shows "read_loop i k blk dst off s =
    Inr (overwrite dst (off + i * 1024) (bytes_at (content s) (fpos s) (k * 1024)),
         s\<lparr>fpos := fpos s + k * 1024\<rparr>)"
  using assms
proof (induction k arbitrary: i blk dst s)
  case 0
  then show ?case by (simp add: bytes_at_def)
next
  case (Suc k)
  let ?b = "bytes_at (content s) (fpos s) 1024"
  let ?s1 = "s\<lparr>fpos := fpos s + 1024\<rparr>"
  have item: "fread_item blk s = (?b, ?s1)"
    using Suc.prems by (simp add: fread_item_def)
  have "read_loop (Suc i) k ?b (overwrite dst (off + i * 1024) ?b) off ?s1 =
      Inr (overwrite (overwrite dst (off + i * 1024) ?b) (off + Suc i * 1024)
             (bytes_at (content ?s1) (fpos ?s1) (k * 1024)),
           ?s1\<lparr>fpos := fpos ?s1 + k * 1024\<rparr>)"
    using Suc.prems by (intro Suc.IH) simp_all
  moreover have "overwrite (overwrite dst (off + i * 1024) ?b) (off + Suc i * 1024)
      (bytes_at (content s) (fpos s + 1024) (k * 1024)) =
      overwrite dst (off + i * 1024) (bytes_at (content s) (fpos s) (Suc k * 1024))"
    using overwrite_append [of "off + i * 1024" ?b "bytes_at (content s) (fpos s + 1024) (k * 1024)" dst]
      Suc.prems(4) by (simp add: bytes_at_append algebra_simps)
  ultimately show ?case
    using Suc.prems by (simp add: item store_mem_def algebra_simps)
qed

text \<open>A read inside the disk returns the number of blocks and exactly their bytes.\<close>

lemma read_blocks_ok:
  assumes "disk_ready s" and "a + n \<le> 1024" and "off + n * 1024 \<le> length dst"
  shows "read_blocks (int a) (int n) dst off s =
    Inr (int n, overwrite dst off (bytes_at (content s) (a * 1024) (n * 1024)),
         s\<lparr>unk := sdrop 1024 (unk s), fpos := a * 1024 + n * 1024\<rparr>)"
proof -
  let ?s2 = "s\<lparr>unk := sdrop 1024 (unk s), fpos := a * 1024\<rparr>"
  have s32: "s32 (int a + int n) = int a + int n" "s32 (int a * 1024) = int a * 1024"
    using assms(2) by (auto intro!: s32_small)
  have nat_a: "nat (int a * 1024) = a * 1024" by linarith
  have loop: "read_loop 0 n (stake 1024 (unk s)) dst off ?s2 =
      Inr (overwrite dst (off + 0 * 1024) (bytes_at (content ?s2) (fpos ?s2) (n * 1024)),
           ?s2\<lparr>fpos := fpos ?s2 + n * 1024\<rparr>)"
    using assms by (intro read_loop_ok) (simp_all add: disk_simps)
  have le: "\<not> int a + int n > 1024" using assms(2) by simp
  show ?thesis
    using assms(1) le
    by (simp add: read_blocks_def indet_def fseek_def s32 nat_a loop disk_simps del: of_nat_add)
qed

corollary read_block_ok:
  assumes "disk_ready s" and "b < 1024" and "off + 1024 \<le> length dst"
  shows "read_blocks (int b) 1 dst off s =
    Inr (1, overwrite dst off (block_bytes s b),
         s\<lparr>unk := sdrop 1024 (unk s), fpos := b * 1024 + 1024\<rparr>)"
  using read_blocks_ok [of s b 1 off dst] assms by (simp add: block_bytes_def)

lemma write_loop_ok:
  assumes "BLOCK_SIZE s = 1024" and "fpos s + k * 1024 \<le> flen s"
  shows "write_loop i k src s =
    (let (data, s') = load_mem (k * 1024) (drop (i * 1024) src) s
     in s'\<lparr>content := put_at (content s) (fpos s) data, fpos := fpos s + k * 1024\<rparr>)"
  using assms
proof (induction k arbitrary: i s)
  case 0
  then show ?case by simp
next
  case (Suc k)
  let ?src = "drop (i * 1024) src"
  obtain x u where load: "load_mem 1024 ?src s = (x, s\<lparr>unk := u\<rparr>)" and x: "length x = 1024"
    by (simp add: load_mem_eq)
  obtain y v where rest: "load_mem (k * 1024) (drop (1024 + i * 1024) src) t = (y, t\<lparr>unk := v\<rparr>)"
    if "unk t = u" for t :: "'a disk_scheme"
    by (simp add: load_mem_eq)
  let ?s2 = "s\<lparr>unk := u, content := put_at (content s) (fpos s) x, fpos := fpos s + 1024\<rparr>"
  have drop1: "drop (Suc i * 1024) src = drop (1024 + i * 1024) src" by simp
  have item: "fwrite_item x (s\<lparr>unk := u\<rparr>) = ?s2"
    using Suc.prems x by (simp add: fwrite_item_def max_def)
  have IH: "write_loop (Suc i) k src ?s2 =
    (let (data, s') = load_mem (k * 1024) (drop (Suc i * 1024) src) ?s2
     in s'\<lparr>content := put_at (content ?s2) (fpos ?s2) data, fpos := fpos ?s2 + k * 1024\<rparr>)"
    using Suc.prems by (intro Suc.IH) simp_all
  have whole: "load_mem (Suc k * 1024) ?src s = (x @ y, s\<lparr>unk := v\<rparr>)"
    by (simp add: load_mem_add [of 1024 "k * 1024"] load rest del: load_mem_full)
  have put: "put_at (put_at (content s) (fpos s) x) (fpos s + 1024) y = put_at (content s) (fpos s) (x @ y)"
    using put_at_append [of "content s" "fpos s" x y] x by simp
  have "write_loop i (Suc k) src s = write_loop (Suc i) k src ?s2"
    using Suc.prems by (simp add: load item)
  also have "\<dots> = ?s2\<lparr>unk := v, content := put_at (content s) (fpos s) (x @ y), fpos := fpos s + Suc k * 1024\<rparr>"
    unfolding IH drop1 using put by (simp add: rest algebra_simps)
  finally show ?case unfolding whole by simp
qed

text \<open>
  A write inside the disk returns the number of blocks and replaces exactly their bytes.
  The source object may be shorter than the blocks: the rest is what follows it in memory.
\<close>

lemma write_blocks_load:
  assumes "disk_ready s" and "a + n \<le> 1024"
  shows "write_blocks (int a) (int n) src s =
    (let (data, s') = load_mem (n * 1024) src s
     in Inr (int n, s'\<lparr>content := put_at (content s) (a * 1024) data,
                        fpos := a * 1024 + n * 1024\<rparr>))"
proof -
  let ?s1 = "s\<lparr>fpos := a * 1024\<rparr>"
  have s32: "s32 (int a + int n) = int a + int n" "s32 (int a * 1024) = int a * 1024"
    using assms(2) by (auto intro!: s32_small)
  have nat_a: "nat (int a * 1024) = a * 1024" by linarith
  have loop: "write_loop 0 n src ?s1 =
    (let (data, s') = load_mem (n * 1024) (drop (0 * 1024) src) ?s1
     in s'\<lparr>content := put_at (content ?s1) (fpos ?s1) data, fpos := fpos ?s1 + n * 1024\<rparr>)"
    using assms by (intro write_loop_ok) (simp_all add: disk_simps)
  have le: "\<not> int a + int n > 1024" using assms(2) by simp
  show ?thesis
    using assms(1) le
    by (auto simp: write_blocks_def fseek_def s32 nat_a loop disk_simps load_mem_def indet_def
        Let_def simp del: of_nat_add)
qed

lemma write_blocks_ok:
  assumes "disk_ready s" and "a + n \<le> 1024" and "n * 1024 \<le> length src"
  shows "write_blocks (int a) (int n) src s =
    Inr (int n, s\<lparr>content := put_at (content s) (a * 1024) (take (n * 1024) src),
                  fpos := a * 1024 + n * 1024\<rparr>)"
  using assms by (simp add: write_blocks_load)

corollary write_block_ok:
  assumes "disk_ready s" and "b < 1024" and "length src = 1024"
  shows "write_blocks (int b) 1 src s =
    Inr (1, s\<lparr>content := put_at (content s) (b * 1024) src, fpos := b * 1024 + 1024\<rparr>)"
  using write_blocks_ok [of s b 1 src] assms by simp

text \<open>The bound check: a transfer that ends behind the last block changes nothing on the disk.\<close>

lemma read_blocks_beyond:
  assumes "disk_ready s" and "int a + int n > 1024" and "int a + int n < 2147483648"
  shows "read_blocks (int a) (int n) dst off s = Inr (-1, dst, s\<lparr>unk := sdrop 1024 (unk s)\<rparr>)"
proof -
  have "s32 (int a + int n) = int a + int n" using assms(3) by (intro s32_small) simp_all
  then show ?thesis using assms by (simp add: read_blocks_def indet_def disk_simps del: of_nat_add)
qed

lemma write_blocks_beyond:
  assumes "disk_ready s" and "int a + int n > 1024" and "int a + int n < 2147483648"
  shows "write_blocks (int a) (int n) src s = Inr (-1, s)"
proof -
  have "s32 (int a + int n) = int a + int n" using assms(3) by (intro s32_small) simp_all
  then show ?thesis using assms by (simp add: write_blocks_def disk_simps del: of_nat_add)
qed

subsection \<open>The disk as a block device\<close>

text \<open>
  What the file system relies on: a block that was written reads back, and a write to
  one block leaves every other block as it was.
\<close>

locale block_device =
  fixes ready :: "'s \<Rightarrow> bool"
    and rd :: "nat \<Rightarrow> 's \<Rightarrow> byte list"
    and wr :: "nat \<Rightarrow> byte list \<Rightarrow> 's \<Rightarrow> 's"
    and nblk :: nat
  assumes ready_wr: "ready s \<Longrightarrow> b < nblk \<Longrightarrow> length x = 1024 \<Longrightarrow> ready (wr b x s)"
    and rd_wr: "ready s \<Longrightarrow> b < nblk \<Longrightarrow> length x = 1024 \<Longrightarrow> rd b (wr b x s) = x"
    and rd_wr_other: "ready s \<Longrightarrow> b < nblk \<Longrightarrow> length x = 1024 \<Longrightarrow> c < nblk \<Longrightarrow> c \<noteq> b
      \<Longrightarrow> rd c (wr b x s) = rd c s"
begin

definition writes_ok :: "(nat \<times> byte list) list \<Rightarrow> bool" where
  "writes_ok ws \<longleftrightarrow> (\<forall>(b, x) \<in> set ws. b < nblk \<and> length x = 1024)"

definition wr_all :: "(nat \<times> byte list) list \<Rightarrow> 's \<Rightarrow> 's" where
  "wr_all ws s = fold (\<lambda>(b, x). wr b x) ws s"

lemma ready_wr_all: "ready s \<Longrightarrow> writes_ok ws \<Longrightarrow> ready (wr_all ws s)"
  by (induction ws arbitrary: s) (auto simp: writes_ok_def wr_all_def ready_wr)

lemma rd_wr_all_other:
  "ready s \<Longrightarrow> writes_ok ws \<Longrightarrow> c < nblk \<Longrightarrow> c \<notin> fst ` set ws \<Longrightarrow> rd c (wr_all ws s) = rd c s"
proof (induction ws arbitrary: s)
  case Nil
  then show ?case by (simp add: wr_all_def)
next
  case (Cons w ws)
  obtain b x where w: "w = (b, x)" by fastforce
  have "rd c (wr_all ws (wr b x s)) = rd c (wr b x s)"
    using Cons.prems by (intro Cons.IH) (auto simp: w writes_ok_def ready_wr)
  then show ?case using Cons.prems by (auto simp: w wr_all_def writes_ok_def rd_wr_other)
qed

text \<open>After writes to distinct blocks every one of them reads back.\<close>

lemma rd_wr_all:
  "ready s \<Longrightarrow> writes_ok ws \<Longrightarrow> distinct (map fst ws) \<Longrightarrow> (b, x) \<in> set ws \<Longrightarrow> rd b (wr_all ws s) = x"
proof (induction ws arbitrary: s)
  case Nil
  then show ?case by simp
next
  case (Cons w ws)
  obtain c y where w: "w = (c, y)" by fastforce
  have ok: "ready (wr c y s)" "writes_ok ws" "c < nblk" "length y = 1024"
    using Cons.prems by (auto simp: w writes_ok_def ready_wr)
  have step: "wr_all (w # ws) s = wr_all ws (wr c y s)" by (simp add: w wr_all_def)
  show ?case
  proof (cases "(b, x) \<in> set ws")
    case True
    then show ?thesis using Cons.IH [OF ok(1,2)] Cons.prems by (simp add: step)
  next
    case False
    then have "b = c" "x = y" "b \<notin> fst ` set ws" using Cons.prems by (auto simp: w)
    then show ?thesis using ok Cons.prems by (simp add: step rd_wr_all_other rd_wr)
  qed
qed

end

text \<open>The interface on the code's operations: one-block transfers through the C functions.\<close>

definition disk_read1 :: "nat \<Rightarrow> 'a disk_scheme \<Rightarrow> byte list" where
  "disk_read1 b s =
     (case read_blocks (int b) 1 (replicate 1024 0) 0 s of Inr (_, x, _) \<Rightarrow> x | Inl _ \<Rightarrow> [])"

definition disk_write1 :: "nat \<Rightarrow> byte list \<Rightarrow> 'a disk_scheme \<Rightarrow> 'a disk_scheme" where
  "disk_write1 b x s = (case write_blocks (int b) 1 x s of Inr (_, s') \<Rightarrow> s' | Inl _ \<Rightarrow> s)"

lemma disk_read1_eq: "disk_ready s \<Longrightarrow> b < 1024 \<Longrightarrow> disk_read1 b s = block_bytes s b"
  by (simp add: disk_read1_def read_block_ok)

lemma disk_write1_eq:
  "disk_ready s \<Longrightarrow> b < 1024 \<Longrightarrow> length x = 1024 \<Longrightarrow>
   disk_write1 b x s = s\<lparr>content := put_at (content s) (b * 1024) x, fpos := b * 1024 + 1024\<rparr>"
  by (simp add: disk_write1_def write_block_ok)

lemma block_bytes_put_same [simp]:
  "length x = 1024 \<Longrightarrow> block_bytes (s\<lparr>content := put_at c (b * 1024) x\<rparr>) b = x"
  by (simp add: block_bytes_def)

lemma block_bytes_put_other:
  assumes "length x = 1024" and "c \<noteq> b"
  shows "block_bytes (s\<lparr>content := put_at (content s) (b * 1024) x\<rparr>) c = block_bytes s c"
proof -
  have "c * 1024 + 1024 \<le> b * 1024 \<or> b * 1024 + length x \<le> c * 1024" using assms by linarith
  then show ?thesis by (simp add: block_bytes_def bytes_at_put_at_other)
qed

lemma block_bytes_fpos [simp]:
  "block_bytes (s\<lparr>fpos := p\<rparr>) b = block_bytes s b"
  "block_bytes (s\<lparr>unk := u\<rparr>) b = block_bytes s b"
  by (simp_all add: block_bytes_def)

interpretation emu: block_device disk_ready disk_read1 disk_write1 1024
proof unfold_locales
  fix s :: "'a disk_scheme" and b c :: nat and x :: "byte list"
  assume s: "disk_ready s" "b < 1024" "length x = 1024"
  show "disk_ready (disk_write1 b x s)" using s by (simp add: disk_write1_eq)
  then show "disk_read1 b (disk_write1 b x s) = x"
    using s by (simp add: disk_read1_eq) (simp add: disk_write1_eq block_bytes_def)
  assume c: "c < 1024" "c \<noteq> b"
  have "disk_ready (disk_write1 b x s)" using s by (simp add: disk_write1_eq)
  then show "disk_read1 c (disk_write1 b x s) = disk_read1 c s"
    using s c block_bytes_put_other [of x c b s]
    by (simp add: disk_read1_eq) (simp add: disk_write1_eq)
qed

subsection \<open>Properties\<close>

text \<open>C13: Blocks that were written are read back, any number of them at once, and every other block is
  what it was; a transfer that would leave the disk, in either direction, returns -1, and changes neither the
  disk nor, for a read, the caller's buffer; the local array of a read takes its bytes from \<open>unk\<close> either way.\<close>

theorem write_read_blocks:
  assumes "disk_ready s" and "a + n \<le> 1024" and "n * 1024 \<le> length src" and "length dst = n * 1024"
    and "1024 < b + n" and "b + n < 2147483648"
  shows "\<exists>s1 s2. write_blocks (int a) (int n) src s = Inr (int n, s1) \<and>
    read_blocks (int a) (int n) dst 0 s1 = Inr (int n, take (n * 1024) src, s2) \<and>
    (\<forall>c<1024. c < a \<or> a + n \<le> c \<longrightarrow> block_bytes s2 c = block_bytes s c) \<and>
    write_blocks (int b) (int n) src s = Inr (-1, s) \<and>
    read_blocks (int b) (int n) dst 0 s = Inr (-1, dst, s\<lparr>unk := sdrop 1024 (unk s)\<rparr>)"
proof -
  let ?s1 = "s\<lparr>content := put_at (content s) (a * 1024) (take (n * 1024) src), fpos := a * 1024 + n * 1024\<rparr>"
  let ?s2 = "?s1\<lparr>unk := sdrop 1024 (unk s), fpos := a * 1024 + n * 1024\<rparr>"
  have w: "write_blocks (int a) (int n) src s = Inr (int n, ?s1)"
    using write_blocks_ok [OF assms(1-3)] .
  have "disk_ready ?s1" using assms(1) by simp
  from read_blocks_ok [OF this assms(2), of 0 dst]
  have r: "read_blocks (int a) (int n) dst 0 ?s1 = Inr (int n, take (n * 1024) src, ?s2)"
    using assms(3,4) by simp
  have "block_bytes ?s2 c = block_bytes s c" if "c < a \<or> a + n \<le> c" for c
  proof -
    have "c * 1024 + 1024 \<le> a * 1024 \<or> a * 1024 + n * 1024 \<le> c * 1024" using that by auto
    then show ?thesis using assms(3) by (simp add: block_bytes_def bytes_at_put_at_other)
  qed
  moreover have "write_blocks (int b) (int n) src s = Inr (-1, s)"
    using write_blocks_beyond [OF assms(1), of b n src] assms(5,6) by simp
  moreover have "read_blocks (int b) (int n) dst 0 s = Inr (-1, dst, s\<lparr>unk := sdrop 1024 (unk s)\<rparr>)"
    using read_blocks_beyond [OF assms(1), of b n dst 0] assms(5,6) by simp
  ultimately show ?thesis using w r by blast
qed

theorem write_read_blocks_witness:
  "let s = \<lparr>unk = sconst 0, file_exists = True, can_create = True, content = (\<lambda>_. 0), flen = 1048576, fp = FOpen, fpos = 0,
        BLOCK_SIZE = 1024, MAX_BLOCK = 1024, MAX_RETRY = 3, disk_L = 0, disk_p = -1\<rparr> in
   \<exists>s1 s2. write_blocks (int 7) (int 2) (replicate 2048 5) s = Inr (int 2, s1) \<and>
    read_blocks (int 7) (int 2) (replicate 2048 0) 0 s1 = Inr (int 2, replicate 2048 5, s2) \<and>
    write_blocks (int 1023) (int 2) (replicate 2048 5) s = Inr (-1, s) \<and>
    read_blocks (int 1023) (int 2) (replicate 2048 0) 0 s = Inr (-1, replicate 2048 0, s\<lparr>unk := sdrop 1024 (unk s)\<rparr>)"
proof -
  let ?s = "\<lparr>unk = sconst 0, file_exists = True, can_create = True, content = (\<lambda>_. 0), flen = 1048576, fp = FOpen, fpos = 0,
        BLOCK_SIZE = 1024, MAX_BLOCK = 1024, MAX_RETRY = 3, disk_L = 0, disk_p = -1\<rparr>"
  have h: "disk_ready ?s" "7 + 2 \<le> (1024 :: nat)" "2 * 1024 \<le> length (replicate 2048 (5 :: byte))"
    "length (replicate 2048 (0 :: byte)) = 2 * 1024" "1024 < 1023 + (2 :: nat)" "1023 + 2 < (2147483648 :: nat)"
    by (simp_all add: disk_ready_def)
  have t: "take (2 * 1024) (replicate 2048 (5 :: byte)) = replicate 2048 5" by (simp)
  show ?thesis using write_read_blocks [OF h] unfolding t Let_def by blast
qed

end
