(* ===== verification/Bitmap.thy ===== *)
theory Bitmap
  imports Prelude
begin

text \<open>
  The free-block bitmap: the functions \<open>force_set_index\<close>, \<open>get_index\<close> and
  \<open>rm_index\<close> of \<^verbatim>\<open>file_system/sfs_api.c\<close>, and the earlier version of \<open>get_index\<close> in
  \<^verbatim>\<open>file_system/bitmap.c\<close>, which has no bound in its search loop.

  A set bit means that the block is free. The state is the list of the rows
  \<open>free_bit_map[0], \<dots>, free_bit_map[127]\<close> followed by the byte that the linker placed
  behind the array: the loop of \<open>get_index\<close> can reach it, because it stops only when
  \<open>i > 128\<close>. Accesses further out stop the model.

  The lemmas show that the operations implement an allocator on the set of free
  blocks (locale \<open>allocator\<close>), and what happens at the boundary.
\<close>

subsection \<open>The operations\<close>

definition use_bit :: "byte \<Rightarrow> nat \<Rightarrow> byte" where
  "use_bit data which = data AND NOT (push_bit which 1)"

definition free_bit :: "byte \<Rightarrow> nat \<Rightarrow> byte" where
  "free_bit data which = data OR push_bit which 1"

text \<open>\<open>ffs\<close>: the position of the least significant set bit, counted from 1; 0 if none is set.\<close>

definition ffs :: "byte \<Rightarrow> nat" where
  "ffs b = (case List.find (bit b) [0..<8] of None \<Rightarrow> 0 | Some k \<Rightarrow> Suc k)"

type_synonym bitmap = "byte list"

definition force_set_index :: "nat \<Rightarrow> bitmap \<Rightarrow> bitmap result" where
  "force_set_index index m =
     (let i = index div 8; b = index mod 8
      in if i < length m then Inr (m[i := use_bit (m ! i) b]) else Inl OutOfBounds)"

definition rm_index :: "nat \<Rightarrow> bitmap \<Rightarrow> bitmap result" where
  "rm_index index m =
     (let i = index div 8; b = index mod 8
      in if i < length m then Inr (m[i := free_bit (m ! i) b]) else Inl OutOfBounds)"

text \<open>
  The search loop of \<^verbatim>\<open>sfs_api.c\<close>; \<open>None\<close> is its \<open>return 0\<close>, taken once
  \<open>i > 128\<close>.
\<close>

function find_row :: "bitmap \<Rightarrow> nat \<Rightarrow> nat option result" where
  "find_row m i =
     (if length m \<le> i then Inl OutOfBounds
      else if m ! i = 0 then (if Suc i > 128 then Inr None else find_row m (Suc i))
      else Inr (Some i))"
  by pat_completeness auto
termination
  by (relation "measure (\<lambda>(m, i). length m - i)") auto

declare find_row.simps [simp del]

definition get_index :: "bitmap \<Rightarrow> (nat \<times> bitmap) result" where
  "get_index m =
     rbind (find_row m 0) (\<lambda>r. case r of
       None \<Rightarrow> Inr (0, m)
     | Some i \<Rightarrow>
         (let b = ffs (m ! i) - 1
          in Inr (i * 8 + b, m[i := use_bit (m ! i) b])))"

text \<open>The version of \<^verbatim>\<open>bitmap.c\<close>: the loop only ends at a row with a free bit.\<close>

function find_row_unbounded :: "bitmap \<Rightarrow> nat \<Rightarrow> nat result" where
  "find_row_unbounded m i =
     (if length m \<le> i then Inl OutOfBounds
      else if m ! i = 0 then find_row_unbounded m (Suc i) else Inr i)"
  by pat_completeness auto
termination
  by (relation "measure (\<lambda>(m, i). length m - i)") auto

declare find_row_unbounded.simps [simp del]

definition get_index_unbounded :: "bitmap \<Rightarrow> (nat \<times> bitmap) result" where
  "get_index_unbounded m =
     rbind (find_row_unbounded m 0) (\<lambda>i.
       (let b = ffs (m ! i) - 1 in Inr (i * 8 + b, m[i := use_bit (m ! i) b])))"

subsection \<open>The set of free blocks\<close>

definition free_set :: "bitmap \<Rightarrow> nat set" where
  "free_set m = {n. n < 8 * length m \<and> bit (m ! (n div 8)) (n mod 8)}"

lemma finite_free_set [simp]: "finite (free_set m)"
  by (rule finite_subset [of _ "{..<8 * length m}"]) (auto simp: free_set_def)

lemma bit_use_bit: "k < 8 \<Longrightarrow> bit (use_bit b j) k \<longleftrightarrow> bit b k \<and> k \<noteq> j"
  by (auto simp: use_bit_def bit_simps)

lemma bit_free_bit: "k < 8 \<Longrightarrow> bit (free_bit b j) k \<longleftrightarrow> bit b k \<or> k = j"
  by (auto simp: free_bit_def bit_simps)

lemma byte_eq_0_iff: "(b :: byte) = 0 \<longleftrightarrow> (\<forall>k<8. \<not> bit b k)"
  by (auto simp: bit_eq_iff bit_simps dest: bit_imp_le_length)

lemma find_upt_Some_iff:
  "List.find P [0..<n] = Some k \<longleftrightarrow> k < n \<and> P k \<and> (\<forall>j<k. \<not> P j)"
  by (auto simp: find_Some_iff)

lemma ffs_lowest:
  assumes "b \<noteq> 0"
  shows "bit b (ffs b - 1)" and "ffs b - 1 < 8" and "\<And>j. j < ffs b - 1 \<Longrightarrow> \<not> bit b j"
proof -
  have "List.find (bit b) [0..<8] \<noteq> None"
    using assms by (auto simp: find_None_iff byte_eq_0_iff)
  then obtain k where k: "List.find (bit b) [0..<8] = Some k" by blast
  then have "ffs b - 1 = k" by (simp add: ffs_def)
  with k show "bit b (ffs b - 1)" "ffs b - 1 < 8" "\<And>j. j < ffs b - 1 \<Longrightarrow> \<not> bit b j"
    by (auto simp: find_upt_Some_iff)
qed

lemma free_set_use_row:
  assumes "i < length m" and "b < 8"
  shows "free_set (m[i := use_bit (m ! i) b]) = free_set m - {i * 8 + b}"
proof (rule set_eqI)
  fix n :: nat
  have n: "n = i * 8 + b \<longleftrightarrow> n div 8 = i \<and> n mod 8 = b"
    using assms(2) by (metis div_mult_mod_eq mult.commute div_mult_self3 mod_mult_self3
        mod_less div_less add.right_neutral zero_neq_numeral)
  show "n \<in> free_set (m[i := use_bit (m ! i) b]) \<longleftrightarrow> n \<in> free_set m - {i * 8 + b}"
    using assms n by (auto simp: free_set_def bit_use_bit nth_list_update)
qed

lemma free_set_free_row:
  assumes "i < length m" and "b < 8"
  shows "free_set (m[i := free_bit (m ! i) b]) = insert (i * 8 + b) (free_set m)"
proof (rule set_eqI)
  fix n :: nat
  have n: "n = i * 8 + b \<longleftrightarrow> n div 8 = i \<and> n mod 8 = b"
    using assms(2) by (metis div_mult_mod_eq mult.commute div_mult_self3 mod_mult_self3
        mod_less div_less add.right_neutral zero_neq_numeral)
  have "i * 8 + b < 8 * length m" using assms by linarith
  then show "n \<in> free_set (m[i := free_bit (m ! i) b]) \<longleftrightarrow> n \<in> insert (i * 8 + b) (free_set m)"
    using assms n by (auto simp: free_set_def bit_free_bit nth_list_update)
qed

lemma force_set_index_ok:
  assumes "n < 8 * length m"
  shows "\<exists>m'. force_set_index n m = Inr m' \<and> free_set m' = free_set m - {n} \<and> length m' = length m"
proof -
  have "n div 8 < length m" using assms by linarith
  then show ?thesis
    using free_set_use_row [of "n div 8" m "n mod 8"] by (simp add: force_set_index_def Let_def)
qed

lemma rm_index_ok:
  assumes "n < 8 * length m"
  shows "\<exists>m'. rm_index n m = Inr m' \<and> free_set m' = insert n (free_set m) \<and> length m' = length m"
proof -
  have "n div 8 < length m" using assms by linarith
  then show ?thesis
    using free_set_free_row [of "n div 8" m "n mod 8"] by (simp add: rm_index_def Let_def)
qed

subsection \<open>The search\<close>

lemma row_zero_iff: "i < length m \<Longrightarrow> m ! i = 0 \<longleftrightarrow> (\<forall>n\<in>free_set m. n div 8 \<noteq> i)"
proof -
  assume i: "i < length m"
  have "bit (m ! i) k \<longleftrightarrow> i * 8 + k \<in> free_set m" if "k < 8" for k
  proof -
    have "(i * 8 + k) div 8 = i" "(i * 8 + k) mod 8 = k" using that by simp_all
    moreover have "i * 8 + k < 8 * length m" using that i by linarith
    ultimately show ?thesis by (simp add: free_set_def)
  qed
  then have "m ! i = 0 \<longleftrightarrow> (\<forall>k<8. i * 8 + k \<notin> free_set m)"
    by (simp add: byte_eq_0_iff)
  also have "\<dots> \<longleftrightarrow> (\<forall>n\<in>free_set m. n div 8 \<noteq> i)"
  proof
    assume a: "\<forall>k<8. i * 8 + k \<notin> free_set m"
    show "\<forall>n\<in>free_set m. n div 8 \<noteq> i"
    proof (intro ballI notI)
      fix n assume n: "n \<in> free_set m" "n div 8 = i"
      have "i * 8 + n mod 8 = n" using n(2) by (metis div_mult_mod_eq)
      with a n(1) show False by (metis mod_less_divisor zero_less_numeral)
    qed
  next
    assume a: "\<forall>n\<in>free_set m. n div 8 \<noteq> i"
    show "\<forall>k<8. i * 8 + k \<notin> free_set m"
    proof (intro allI impI notI)
      fix k :: nat assume "k < 8" and k: "i * 8 + k \<in> free_set m"
      then have "(i * 8 + k) div 8 = i" by simp
      with a k show False by blast
    qed
  qed
  finally show "m ! i = 0 \<longleftrightarrow> (\<forall>n\<in>free_set m. n div 8 \<noteq> i)" .
qed

lemma find_row_none:
  assumes "length m = 129" and "\<forall>j<129. m ! j = 0" and "i < 129"
  shows "find_row m i = Inr None"
  using assms
proof (induction m i rule: find_row.induct)
  case (1 m i)
  then show ?case by (subst find_row.simps) auto
qed

lemma find_row_some:
  assumes "length m = 129" and "i \<le> r" and "r < 129" and "m ! r \<noteq> 0" and "\<forall>j. i \<le> j \<longrightarrow> j < r \<longrightarrow> m ! j = 0"
  shows "find_row m i = Inr (Some r)"
  using assms
proof (induction m i rule: find_row.induct)
  case (1 m i)
  show ?case
  proof (cases "i = r")
    case True
    then show ?thesis using 1 by (subst find_row.simps) auto
  next
    case False
    then have "m ! i = 0" "Suc i \<le> r" using 1 by auto
    then have "find_row m (Suc i) = Inr (Some r)" using 1 by auto
    with \<open>m ! i = 0\<close> \<open>Suc i \<le> r\<close> 1 show ?thesis by (subst find_row.simps) auto
  qed
qed

lemma find_row_unbounded_some:
  assumes "i \<le> r" and "r < length m" and "m ! r \<noteq> 0" and "\<forall>j. i \<le> j \<longrightarrow> j < r \<longrightarrow> m ! j = 0"
  shows "find_row_unbounded m i = Inr r"
  using assms
proof (induction m i rule: find_row_unbounded.induct)
  case (1 m i)
  show ?case
  proof (cases "i = r")
    case True
    then show ?thesis using 1 by (subst find_row_unbounded.simps) auto
  next
    case False
    then have "m ! i = 0" "Suc i \<le> r" using 1 by auto
    then have "find_row_unbounded m (Suc i) = Inr r" using 1 by auto
    with \<open>m ! i = 0\<close> \<open>Suc i \<le> r\<close> 1 show ?thesis by (subst find_row_unbounded.simps) auto
  qed
qed

text \<open>The row of the smallest free block is the first non-zero one, its bit the lowest.\<close>

lemma Min_free_row:
  assumes "free_set m \<noteq> {}"
  defines "r \<equiv> Min (free_set m) div 8"
  shows "r < length m" and "m ! r \<noteq> 0" and "\<And>j. j < r \<Longrightarrow> m ! j = 0"
    and "Min (free_set m) = r * 8 + (ffs (m ! r) - 1)"
proof -
  let ?n = "Min (free_set m)"
  have mem: "?n \<in> free_set m" using assms by (intro Min_in) auto
  have le: "k \<in> free_set m \<Longrightarrow> ?n \<le> k" for k by (intro Min_le) auto
  have rl: "r < length m" using mem unfolding r_def free_set_def by auto
  show nz: "m ! r \<noteq> 0" using mem row_zero_iff [OF rl] by (auto simp: r_def)
  show "m ! j = 0" if "j < r" for j
  proof -
    have "k div 8 \<noteq> j" if k: "k \<in> free_set m" for k
      using div_le_mono [OF le [OF k], of 8] \<open>j < r\<close> unfolding r_def by linarith
    then show ?thesis using row_zero_iff [of j m] rl that by auto
  qed
  let ?b = "ffs (m ! r) - 1"
  note low = ffs_lowest [OF nz]
  have div: "(r * 8 + ?b) div 8 = r" "(r * 8 + ?b) mod 8 = ?b" using low(2) by simp_all
  have "r * 8 + ?b < 8 * length m" using rl low(2) by linarith
  then have "r * 8 + ?b \<in> free_set m" using low(1) div by (simp add: free_set_def)
  then have up: "?n \<le> r * 8 + ?b" by (rule le)
  have "bit (m ! r) (?n mod 8)" using mem unfolding r_def free_set_def by auto
  then have "?b \<le> ?n mod 8" using low(3) by (meson not_le)
  moreover have "?n = r * 8 + ?n mod 8" unfolding r_def by (metis div_mult_mod_eq)
  ultimately show "?n = r * 8 + ?b" using up by linarith
  show "r < length m" by (rule rl)
qed

lemma get_index_some:
  assumes "length m = 129" and "free_set m \<noteq> {}"
  shows "\<exists>m'. get_index m = Inr (Min (free_set m), m') \<and> length m' = 129 \<and>
    free_set m' = free_set m - {Min (free_set m)}"
proof -
  define r where "r = Min (free_set m) div 8"
  note row = Min_free_row [OF assms(2), folded r_def]
  have "find_row m 0 = Inr (Some r)"
    using assms(1) row by (intro find_row_some) auto
  moreover have "ffs (m ! r) - 1 < 8" by (rule ffs_lowest(2) [OF row(2)])
  ultimately show ?thesis
    using free_set_use_row [OF row(1), of "ffs (m ! r) - 1"] assms(1) row(4)
    by (simp add: get_index_def Let_def)
qed

lemma get_index_none:
  assumes "length m = 129" and "free_set m = {}"
  shows "get_index m = Inr (0, m)"
proof -
  have "\<forall>j<129. m ! j = 0" using row_zero_iff [of _ m] assms by auto
  then show ?thesis using find_row_none [of m 0] assms(1) by (simp add: get_index_def)
qed

lemma get_index_unbounded_some:
  assumes "free_set m \<noteq> {}"
  shows "\<exists>m'. get_index_unbounded m = Inr (Min (free_set m), m') \<and>
    free_set m' = free_set m - {Min (free_set m)}"
proof -
  define r where "r = Min (free_set m) div 8"
  note row = Min_free_row [OF assms, folded r_def]
  have "find_row_unbounded m 0 = Inr r"
    using row by (intro find_row_unbounded_some) auto
  moreover have "ffs (m ! r) - 1 < 8" by (rule ffs_lowest(2) [OF row(2)])
  ultimately show ?thesis
    using free_set_use_row [OF row(1), of "ffs (m ! r) - 1"] row(4)
    by (simp add: get_index_unbounded_def Let_def)
qed

subsection \<open>The allocator interface\<close>

text \<open>
  What \<open>sfs_fwrite\<close> relies on: \<open>alloc\<close> takes the smallest free block, or returns 0
  and changes nothing when there is none.
\<close>

locale allocator =
  fixes inv :: "'m \<Rightarrow> bool"
    and free :: "'m \<Rightarrow> nat set"
    and alloc :: "'m \<Rightarrow> (nat \<times> 'm) result"
  assumes finite_free: "inv m \<Longrightarrow> finite (free m)"
    and alloc_some: "inv m \<Longrightarrow> free m \<noteq> {} \<Longrightarrow>
      \<exists>m'. alloc m = Inr (Min (free m), m') \<and> inv m' \<and> free m' = free m - {Min (free m)}"
    and alloc_none: "inv m \<Longrightarrow> free m = {} \<Longrightarrow> alloc m = Inr (0, m)"

text \<open>Taking blocks one after the other until one call returns 0.\<close>

fun alloc_many :: "('m \<Rightarrow> (nat \<times> 'm) result) \<Rightarrow> nat \<Rightarrow> 'm \<Rightarrow> (nat list \<times> bool \<times> 'm) result" where
  "alloc_many al 0 m = Inr ([], True, m)"
| "alloc_many al (Suc k) m =
     rbind (al m) (\<lambda>(n, m1).
       if n = 0 then Inr ([], False, m1)
       else rbind (alloc_many al k m1) (\<lambda>(ns, ok, m2). Inr (n # ns, ok, m2)))"

context allocator
begin

lemma alloc_many_ok:
  assumes "inv m" and "0 \<notin> free m" and "k \<le> card (free m \<inter> {..<N})"
  shows "\<exists>ns m'. alloc_many alloc k m = Inr (ns, True, m') \<and> inv m' \<and> length ns = k \<and> distinct ns \<and>
    set ns \<subseteq> free m \<inter> {..<N} \<and> free m' = free m - set ns"
  using assms
proof (induction k arbitrary: m)
  case 0
  then show ?case by simp
next
  case (Suc k)
  let ?n = "Min (free m)"
  have fin: "finite (free m)" using Suc.prems(1) by (rule finite_free)
  have "free m \<inter> {..<N} \<noteq> {}" using Suc.prems(3) by auto
  then obtain x where x: "x \<in> free m" "x < N" by blast
  then have ne: "free m \<noteq> {}" by blast
  have n: "?n \<in> free m" "?n < N"
    using Min_in [OF fin ne] Min_le [OF fin x(1)] x(2) by auto
  obtain m1 where m1: "alloc m = Inr (?n, m1)" "inv m1" "free m1 = free m - {?n}"
    using alloc_some [OF Suc.prems(1) ne] by blast
  have "free m \<inter> {..<N} = insert ?n (free m1 \<inter> {..<N})" using n m1(3) by auto
  moreover have "?n \<notin> free m1 \<inter> {..<N}" using m1(3) by simp
  ultimately have "card (free m \<inter> {..<N}) = Suc (card (free m1 \<inter> {..<N}))" by simp
  then have "k \<le> card (free m1 \<inter> {..<N})" using Suc.prems(3) by simp
  moreover have "0 \<notin> free m1" using Suc.prems(2) m1(3) by simp
  ultimately obtain ns m2 where IH: "alloc_many alloc k m1 = Inr (ns, True, m2)" "inv m2"
      "length ns = k" "distinct ns" "set ns \<subseteq> free m1 \<inter> {..<N}" "free m2 = free m1 - set ns"
    using Suc.IH [of m1] m1(2) by auto
  have "?n \<noteq> 0" using n(1) Suc.prems(2) by metis
  then have "alloc_many alloc (Suc k) m = Inr (?n # ns, True, m2)" using m1(1) IH(1) by simp
  moreover have "free m2 = free m - set (?n # ns)" using IH(6) m1(3) by auto
  moreover have "distinct (?n # ns)" "set (?n # ns) \<subseteq> free m \<inter> {..<N}"
    using IH(4,5) m1(3) n by auto
  ultimately show ?case using IH(2,3) by (metis length_Cons)
qed

text \<open>When the free blocks run out, the call fails and every free block has been taken.\<close>

lemma alloc_many_exhausted:
  assumes "inv m" and "0 \<notin> free m" and "card (free m) < k"
  shows "\<exists>ns m'. alloc_many alloc k m = Inr (ns, False, m') \<and> inv m' \<and> length ns = card (free m) \<and>
    distinct ns \<and> set ns = free m \<and> free m' = {}"
  using assms
proof (induction k arbitrary: m)
  case 0
  then show ?case by simp
next
  case (Suc k)
  have fin: "finite (free m)" using Suc.prems(1) by (rule finite_free)
  show ?case
  proof (cases "free m = {}")
    case True
    then show ?thesis using alloc_none Suc.prems(1) by simp
  next
    case False
    let ?n = "Min (free m)"
    have n: "?n \<in> free m" using Min_in [OF fin False] .
    obtain m1 where m1: "alloc m = Inr (?n, m1)" "inv m1" "free m1 = free m - {?n}"
      using alloc_some [OF Suc.prems(1) False] by blast
    have card: "card (free m) = Suc (card (free m1))"
      using n m1(3) fin by (metis card_Suc_Diff1)
    then have "card (free m1) < k" "0 \<notin> free m1" using Suc.prems(2,3) m1(3) by simp_all
    then obtain ns m2 where IH: "alloc_many alloc k m1 = Inr (ns, False, m2)" "inv m2"
        "length ns = card (free m1)" "distinct ns" "set ns = free m1" "free m2 = {}"
      using Suc.IH [of m1] m1(2) by auto
    have "?n \<noteq> 0" using n Suc.prems(2) by metis
    then have "alloc_many alloc (Suc k) m = Inr (?n # ns, False, m2)" using m1(1) IH(1) by simp
    moreover have "distinct (?n # ns)" "set (?n # ns) = free m"
      using IH(4,5) m1(3) n by auto
    ultimately show ?thesis using IH(2,3,6) card by (metis length_Cons)
  qed
qed

end

interpretation bm: allocator "\<lambda>m. length m = 129" free_set get_index
proof unfold_locales
  fix m :: bitmap
  assume len: "length m = 129"
  show "finite (free_set m)" by simp
  show "\<exists>m'. get_index m = Inr (Min (free_set m), m') \<and> length m' = 129 \<and>
      free_set m' = free_set m - {Min (free_set m)}" if "free_set m \<noteq> {}"
    using get_index_some [OF len that] .
  show "get_index m = Inr (0, m)" if "free_set m = {}"
    using get_index_none [OF len that] .
qed

subsection \<open>Properties\<close>

lemma free_set_single: "i < length m \<Longrightarrow> m ! i = 1 \<Longrightarrow> \<forall>j<length m. j \<noteq> i \<longrightarrow> m ! j = 0 \<Longrightarrow> free_set m = {i * 8}"
proof (rule set_eqI)
  fix n assume m: "i < length m" "m ! i = 1" "\<forall>j<length m. j \<noteq> i \<longrightarrow> m ! j = 0"
  have one: "bit (1 :: byte) k \<longleftrightarrow> k = 0" for k by (simp add: bit_1_iff)
  show "n \<in> free_set m \<longleftrightarrow> n \<in> {i * 8}"
  proof (cases "n div 8 = i")
    case True
    have "n < 8 * length m" using m(1) div_less_iff_less_mult [of 8 n "length m"] unfolding True by linarith
    then have "n \<in> free_set m \<longleftrightarrow> n mod 8 = 0" unfolding free_set_def mem_Collect_eq True m(2) one by blast
    also have "\<dots> \<longleftrightarrow> n = i * 8" using True by presburger
    finally show ?thesis by simp
  next
    case False
    then show ?thesis using m(3) by (auto simp: free_set_def)
  qed
qed

lemma free_set_row: "i < 129 \<Longrightarrow> free_set ((replicate 129 0)[i := 1]) = {i * 8}"
  by (rule free_set_single) (auto simp: nth_list_update)

text \<open>C14: \<open>get_index\<close> always returns: the smallest free block, which is then in use and no other block
  is, or 0 with the bitmap unchanged when no block is free.\<close>

theorem get_index_correct:
  assumes "length m = 129"
  shows "\<exists>n m'. get_index m = Inr (n, m') \<and> length m' = 129 \<and>
    (if free_set m = {} then n = 0 \<and> m' = m else n = Min (free_set m) \<and> free_set m' = free_set m - {n})"
proof (cases "free_set m = {}")
  case True
  then show ?thesis using bm.alloc_none [OF assms True] assms by simp
next
  case False
  then show ?thesis using bm.alloc_some [OF assms False] by auto
qed

theorem get_index_correct_witness:
  "\<exists>m'. get_index ((replicate 129 0)[100 := 1]) = Inr (800, m') \<and> free_set m' = {}"
proof -
  have "length ((replicate 129 0)[100 := 1 :: byte]) = 129" by simp
  from get_index_correct [OF this] show ?thesis by (auto simp: free_set_row)
qed

text \<open>The two versions of \<open>get_index\<close> agree as long as a block is free; when none is, the one of
  \<^verbatim>\<open>bitmap.c\<close> runs over the end of the bitmap where the one of \<^verbatim>\<open>sfs_api.c\<close> returns 0.\<close>

theorem get_index_versions:
  assumes "length m = 129"
  shows "if free_set m = {} then get_index m = Inr (0, m) \<and> get_index_unbounded m = Inl OutOfBounds
    else get_index_unbounded m = get_index m"
proof (cases "free_set m = {}")
  case True
  then have z: "\<forall>j<length m. m ! j = 0" using row_zero_iff by blast
  have "find_row_unbounded m i = Inl OutOfBounds" for i
  proof (induction "length m - i" arbitrary: i)
    case 0
    then show ?case by (subst find_row_unbounded.simps) simp
  next
    case (Suc k)
    then show ?case using z by (subst find_row_unbounded.simps) simp
  qed
  then show ?thesis using get_index_none [OF assms True] True by (simp add: get_index_unbounded_def)
next
  case False
  define r where "r = Min (free_set m) div 8"
  note M = Min_free_row [OF False, folded r_def]
  have "find_row m 0 = Inr (Some r)" using find_row_some [OF assms, of 0 r] M assms by simp
  moreover have "find_row_unbounded m 0 = Inr r" using find_row_unbounded_some [of 0 r m] M by simp
  ultimately show ?thesis using False by (simp add: get_index_def get_index_unbounded_def)
qed

theorem get_index_versions_witness:
  "get_index_unbounded ((replicate 129 0)[100 := 1]) = get_index ((replicate 129 0)[100 := 1]) \<and>
    get_index_unbounded (replicate 129 0) = Inl OutOfBounds"
proof -
  have len: "length ((replicate 129 0)[100 := 1 :: byte]) = 129" "length (replicate 129 (0 :: byte)) = 129" by simp_all
  have "free_set (replicate 129 0) = {}" by (auto simp: free_set_def)
  then show ?thesis
    using get_index_versions [OF len(1)] get_index_versions [OF len(2)] by (simp add: free_set_row)
qed

text \<open>C30: The bound of the search is one too large: when the 128 bytes of the bitmap are used up and the
  byte behind them is not zero, \<open>get_index\<close> returns a block that the disk does not have.\<close>

theorem get_index_past_disk:
  assumes "length m = 129" and "\<forall>j<128. m ! j = 0" and "m ! 128 \<noteq> 0"
  shows "\<exists>n m'. get_index m = Inr (n, m') \<and> 1024 \<le> n \<and> n < 1032"
proof -
  have "free_set m \<noteq> {}"
    using assms row_zero_iff [of 128 m] by auto
  moreover have "n div 8 = 128" if "n \<in> free_set m" for n
  proof -
    have "n div 8 < 129" using that assms(1) by (auto simp: free_set_def less_mult_imp_div_less)
    moreover have "\<not> n div 8 < 128" using that assms(2) by (auto simp: free_set_def)
    ultimately show ?thesis by simp
  qed
  ultimately have "Min (free_set m) div 8 = 128" using Min_in [OF finite_free_set] by blast
  then show ?thesis using get_index_some [OF assms(1) \<open>free_set m \<noteq> {}\<close>] by auto
qed

theorem get_index_past_disk_witness:
  "\<exists>n m'. get_index (replicate 128 0 @ [4]) = Inr (n, m') \<and> 1024 \<le> n \<and> n < 1032"
  using get_index_past_disk [of "replicate 128 0 @ [4]"] by (simp add: nth_append)

end
