(* ===== verification/Sfs_Types.thy ===== *)
theory Sfs_Types
  imports Disk_Emu Bitmap
begin

text \<open>
  The data of the simple file system: the structures of \<^verbatim>\<open>file_system/sfs_api.h\<close>, the
  global variables of \<^verbatim>\<open>sfs_api.c\<close>, and the memory images of the structures, which is
  what \<open>mksfs\<close> writes to the disk and reads back (x86-64: little endian, an \<open>inode_t\<close>
  is 72 bytes, a \<open>directory_entry\<close> 28 with three bytes of padding, a \<open>superblock_t\<close> 40).
  The lemmas are the round trips between the structures and their images.
\<close>

subsection \<open>Structures\<close>

record superblock =
  magic :: nat
  block_size :: nat
  fs_size :: nat
  inode_table_len :: nat
  root_dir_inode :: nat

record inode =
  mode :: nat               \<comment> \<open>1: closed or unused, 0: open\<close>
  link_cnt :: nat
  uid :: nat
  gid :: nat
  isize :: nat              \<comment> \<open>the field \<open>size\<close>\<close>
  data_ptrs :: "nat list"
  indirectPointer :: nat

record file_descriptor =
  inodeIndex :: nat
  fd_inode :: "nat option"  \<comment> \<open>the pointer \<open>inode\<close>, which the code never sets\<close>
  rwptr :: nat

record directory_entry =
  num :: int
  name :: "byte list"       \<comment> \<open>\<open>char name[21]\<close>\<close>
  pad :: "byte list"        \<comment> \<open>the three bytes of padding\<close>

subsection \<open>The global variables\<close>

record sfs = disk +
  free_bit_map :: bitmap
  sfs_mkerror :: int
  rootDir_ptr :: int
  disk_access :: bool        \<comment> \<open>the pointer \<open>disk_access\<close> is not \<open>NULL\<close>\<close>
  sem :: "nat option"        \<comment> \<open>the value of the named semaphore, if the system has it\<close>
  inode_table :: "inode list"
  fd_table :: "file_descriptor list"
  rootDir :: "directory_entry list"

definition NUM_BLOCKS :: int where
  "NUM_BLOCKS = 1024"

subsection \<open>Memory images\<close>

definition encode_superblock :: "superblock \<Rightarrow> byte list" where
  "encode_superblock s = le_bytes 8 (magic s) @ le_bytes 8 (block_size s) @ le_bytes 8 (fs_size s) @
     le_bytes 8 (inode_table_len s) @ le_bytes 8 (root_dir_inode s)"

definition decode_superblock :: "byte list \<Rightarrow> superblock" where
  "decode_superblock bs = \<lparr>magic = le_nat (slice bs 0 8), block_size = le_nat (slice bs 8 8),
     fs_size = le_nat (slice bs 16 8), inode_table_len = le_nat (slice bs 24 8),
     root_dir_inode = le_nat (slice bs 32 8)\<rparr>"

definition encode_inode :: "inode \<Rightarrow> byte list" where
  "encode_inode i = le_bytes 4 (mode i) @ le_bytes 4 (link_cnt i) @ le_bytes 4 (uid i) @
     le_bytes 4 (gid i) @ le_bytes 4 (isize i) @ concat (map (le_bytes 4) (data_ptrs i)) @
     le_bytes 4 (indirectPointer i)"

definition decode_inode :: "byte list \<Rightarrow> inode" where
  "decode_inode bs = \<lparr>mode = le_nat (slice bs 0 4), link_cnt = le_nat (slice bs 4 4),
     uid = le_nat (slice bs 8 4), gid = le_nat (slice bs 12 4), isize = le_nat (slice bs 16 4),
     data_ptrs = map (\<lambda>j. le_nat (slice (slice bs 20 48) (4 * j) 4)) [0..<12],
     indirectPointer = le_nat (slice bs 68 4)\<rparr>"

definition encode_inodes :: "inode list \<Rightarrow> byte list" where
  "encode_inodes is = concat (map encode_inode is)"

definition decode_inodes :: "byte list \<Rightarrow> inode list" where
  "decode_inodes bs = map (\<lambda>i. decode_inode (slice bs (72 * i) 72)) [0..<100]"

definition encode_dirent :: "directory_entry \<Rightarrow> byte list" where
  "encode_dirent d = le_bytes 4 (u32 (num d)) @ name d @ pad d"

definition decode_dirent :: "byte list \<Rightarrow> directory_entry" where
  "decode_dirent bs = \<lparr>num = s32 (int (le_nat (slice bs 0 4))), name = slice bs 4 21, pad = slice bs 25 3\<rparr>"

definition encode_dir :: "directory_entry list \<Rightarrow> byte list" where
  "encode_dir ds = concat (map encode_dirent ds)"

definition decode_dir :: "byte list \<Rightarrow> directory_entry list" where
  "decode_dir bs = map (\<lambda>i. decode_dirent (slice bs (28 * i) 28)) [0..<100]"

subsection \<open>Values that fit their C types\<close>

definition superblock_fits :: "superblock \<Rightarrow> bool" where
  "superblock_fits s \<longleftrightarrow> magic s < 2 ^ 64 \<and> block_size s < 2 ^ 64 \<and> fs_size s < 2 ^ 64 \<and>
     inode_table_len s < 2 ^ 64 \<and> root_dir_inode s < 2 ^ 64"

definition inode_fits :: "inode \<Rightarrow> bool" where
  "inode_fits i \<longleftrightarrow> mode i < 2 ^ 32 \<and> link_cnt i < 2 ^ 32 \<and> uid i < 2 ^ 32 \<and> gid i < 2 ^ 32 \<and>
     isize i < 2 ^ 32 \<and> indirectPointer i < 2 ^ 32 \<and> length (data_ptrs i) = 12 \<and>
     (\<forall>p\<in>set (data_ptrs i). p < 2 ^ 32)"

definition dirent_fits :: "directory_entry \<Rightarrow> bool" where
  "dirent_fits d \<longleftrightarrow> - (2 ^ 31) \<le> num d \<and> num d < 2 ^ 31 \<and> length (name d) = 21 \<and> length (pad d) = 3"

lemma s32_u32: "- (2 ^ 31) \<le> x \<Longrightarrow> x < 2 ^ 31 \<Longrightarrow> s32 (int (u32 x)) = x"
  by (simp add: s32_def u32_def mod_add_left_eq)

lemma length_encode_superblock [simp]: "length (encode_superblock s) = 40"
  by (simp add: encode_superblock_def)

lemma length_encode_inode [simp]: "length (data_ptrs i) = 12 \<Longrightarrow> length (encode_inode i) = 72"
  by (simp add: encode_inode_def length_concat_chunks [where w = 4])

lemma length_encode_dirent [simp]: "dirent_fits d \<Longrightarrow> length (encode_dirent d) = 28"
  by (simp add: encode_dirent_def dirent_fits_def)

lemma decode_encode_superblock:
  "superblock_fits s \<Longrightarrow> decode_superblock (encode_superblock s @ rest) = s"
  by (simp add: superblock_fits_def decode_superblock_def encode_superblock_def slice_def)

lemma decode_encode_inode: "inode_fits i \<Longrightarrow> decode_inode (encode_inode i) = i"
proof -
  assume fit: "inode_fits i"
  let ?p = "concat (map (le_bytes 4) (data_ptrs i))"
  have lp: "length ?p = 48" using fit by (simp add: inode_fits_def length_concat_chunks [where w = 4])
  have ptrs: "map (\<lambda>j. le_nat (slice ?p (4 * j) 4)) [0..<12] = data_ptrs i"
  proof (rule nth_equalityI)
    show "length (map (\<lambda>j. le_nat (slice ?p (4 * j) 4)) [0..<12]) = length (data_ptrs i)"
      using fit by (simp add: inode_fits_def)
  next
    fix j assume "j < length (map (\<lambda>j. le_nat (slice ?p (4 * j) 4)) [0..<12])"
    then have j: "j < 12" "j < length (data_ptrs i)" using fit by (simp_all add: inode_fits_def)
    moreover have "data_ptrs i ! j < 256 ^ 4" using fit j by (simp add: inode_fits_def)
    ultimately show "map (\<lambda>j. le_nat (slice ?p (4 * j) 4)) [0..<12] ! j = data_ptrs i ! j"
      by (simp add: slice_concat_chunks del: power_numeral)
  qed
  have mid: "slice (encode_inode i) 20 48 = ?p"
    using lp by (simp add: encode_inode_def slice_def)
  have "slice (encode_inode i) 68 4 = le_bytes 4 (indirectPointer i)"
    using lp by (simp add: encode_inode_def slice_def)
  moreover have "slice (encode_inode i) 0 4 = le_bytes 4 (mode i)"
    "slice (encode_inode i) 4 4 = le_bytes 4 (link_cnt i)"
    "slice (encode_inode i) 8 4 = le_bytes 4 (uid i)"
    "slice (encode_inode i) 12 4 = le_bytes 4 (gid i)"
    "slice (encode_inode i) 16 4 = le_bytes 4 (isize i)"
    by (simp_all add: encode_inode_def slice_def)
  ultimately show ?thesis
    using fit ptrs by (simp add: decode_inode_def mid inode_fits_def)
qed

lemma decode_encode_dirent: "dirent_fits d \<Longrightarrow> decode_dirent (encode_dirent d) = d"
proof -
  assume fit: "dirent_fits d"
  have "u32 (num d) < 256 ^ 4" using u32_bound [of "num d"] by simp
  then have "le_nat (le_bytes 4 (u32 (num d))) = u32 (num d)" by (rule le_nat_le_bytes_id)
  then show ?thesis
    using fit s32_u32 [of "num d"]
    by (simp add: dirent_fits_def decode_dirent_def encode_dirent_def slice_def)
qed

lemma length_encode_inodes: "\<forall>i\<in>set is. inode_fits i \<Longrightarrow> length (encode_inodes is) = 72 * length is"
  unfolding encode_inodes_def by (rule length_concat_chunks) (simp add: inode_fits_def)

lemma length_encode_dir: "\<forall>d\<in>set ds. dirent_fits d \<Longrightarrow> length (encode_dir ds) = 28 * length ds"
  unfolding encode_dir_def by (rule length_concat_chunks) simp

text \<open>The inode table reads back from its image, whatever follows it.\<close>

lemma decode_encode_inodes:
  assumes "length is = 100" and "\<forall>i\<in>set is. inode_fits i"
  shows "decode_inodes (encode_inodes is @ rest) = is"
proof (rule nth_equalityI)
  show "length (decode_inodes (encode_inodes is @ rest)) = length is"
    by (simp add: decode_inodes_def assms(1))
next
  fix i assume "i < length (decode_inodes (encode_inodes is @ rest))"
  then have i: "i < 100" by (simp add: decode_inodes_def)
  have w: "\<forall>x\<in>set is. length (encode_inode x) = 72" using assms(2) by (simp add: inode_fits_def)
  have "slice (encode_inodes is @ rest) (72 * i) 72 = slice (encode_inodes is) (72 * i) 72"
    using i assms by (intro slice_append1) (simp add: length_encode_inodes)
  also have "\<dots> = encode_inode (is ! i)"
    unfolding encode_inodes_def using w i assms(1) by (intro slice_concat_chunks) simp_all
  finally show "decode_inodes (encode_inodes is @ rest) ! i = is ! i"
    using i assms by (simp add: decode_inodes_def decode_encode_inode)
qed

text \<open>
  The directory reads back as far as its image goes: entry \<open>i\<close> survives if its 28 bytes
  lie inside the first \<open>n\<close> bytes.
\<close>

lemma decode_encode_dir_prefix:
  assumes "length ds = 100" and "\<forall>d\<in>set ds. dirent_fits d" and "i < 100" and "28 * i + 28 \<le> n"
  shows "decode_dir (take n (encode_dir ds) @ rest) ! i = ds ! i"
proof -
  have w: "\<forall>x\<in>set ds. length (encode_dirent x) = 28" using assms(2) by simp
  have len: "length (encode_dir ds) = 2800" using assms(1,2) by (simp add: length_encode_dir)
  have "slice (take n (encode_dir ds) @ rest) (28 * i) 28 = slice (take n (encode_dir ds)) (28 * i) 28"
    using assms(3,4) len by (intro slice_append1) simp
  also have "\<dots> = slice (encode_dir ds) (28 * i) 28"
    using assms(4) by (simp add: slice_def drop_take min_def)
  also have "\<dots> = encode_dirent (ds ! i)"
    unfolding encode_dir_def using w assms(1,3) by (intro slice_concat_chunks) simp_all
  finally show ?thesis using assms by (simp add: decode_dir_def decode_encode_dirent)
qed

end
