(* ===== verification/Semaphore.thy ===== *)
theory Semaphore
  imports Prelude
begin

text \<open>
  POSIX named semaphores as both programs use them: \<open>sem_open\<close> with \<open>O_CREAT\<close> and the
  initial value 1, \<open>sem_wait\<close> and \<open>sem_post\<close>. A semaphore is the value the system
  keeps under the name, \<open>None\<close> if there is none. A wait on value 0 blocks: in a single
  process that is for ever. The locale \<open>semaphore\<close> is the interface the critical
  sections of the programs rely on.
\<close>

definition sem_open_val :: "nat option \<Rightarrow> nat option" where
  "sem_open_val v = (case v of None \<Rightarrow> Some 1 | Some n \<Rightarrow> Some n)"

definition sem_wait_val :: "nat option \<Rightarrow> nat option result" where
  "sem_wait_val v =
     (case v of None \<Rightarrow> Inl NullDeref
      | Some n \<Rightarrow> (if n = 0 then Inl Blocked else Inr (Some (n - 1))))"

definition sem_post_val :: "nat option \<Rightarrow> nat option result" where
  "sem_post_val v = (case v of None \<Rightarrow> Inl NullDeref | Some n \<Rightarrow> Inr (Some (Suc n)))"

locale semaphore =
  fixes wait :: "'s \<Rightarrow> 's result"
    and post :: "'s \<Rightarrow> 's result"
    and val :: "'s \<Rightarrow> nat option"
  assumes wait_val: "wait s = Inr s' \<Longrightarrow> \<exists>n. val s = Some (Suc n) \<and> val s' = Some n"
    and wait_zero: "val s = Some 0 \<Longrightarrow> wait s \<noteq> Inr s'"
    and post_val: "post s = Inr s' \<Longrightarrow> \<exists>n. val s = Some n \<and> val s' = Some (Suc n)"
begin

text \<open>A critical section whose body leaves the semaphore alone restores its value.\<close>

lemma bracket:
  assumes "wait s = Inr s1" and "val s2 = val s1" and "post s2 = Inr s3"
  shows "val s3 = val s"
proof -
  obtain n where "val s = Some (Suc n)" "val s1 = Some n" using wait_val [OF assms(1)] by blast
  moreover obtain k where "val s2 = Some k" "val s3 = Some (Suc k)" using post_val [OF assms(3)] by blast
  ultimately show ?thesis using assms(2) by simp
qed

text \<open>Between the wait and the post of a binary semaphore nobody else gets in.\<close>

lemma excluded:
  assumes "val s = Some 1" and "wait s = Inr s1" and "val s2 = val s1"
  shows "wait s2 \<noteq> Inr s3"
proof -
  obtain n where "val s = Some (Suc n)" "val s1 = Some n" using wait_val [OF assms(2)] by blast
  then have "val s2 = Some 0" using assms(1,3) by simp
  then show ?thesis by (rule wait_zero)
qed

end

interpretation sv: semaphore sem_wait_val sem_post_val "\<lambda>v. v"
  by unfold_locales
    (auto simp: sem_wait_val_def sem_post_val_def split: option.splits if_splits)

end
