(* ===== verification/Sfs_Format.thy ===== *)
theory Sfs_Format
  imports Sfs_Types Semaphore
begin

text \<open>
  Making and reopening the file system: \<open>mksfs\<close> of \<^verbatim>\<open>file_system/sfs_api.c\<close>, with the
  semaphore calls on \<open>disk_access\<close> that every operation makes. \<open>mksfs_fresh\<close> is the
  branch for a new disk and \<open>mksfs_old\<close> the one for an existing disk; \<open>load_tables\<close> is
  the part of the latter after the superblock. The lemmas describe the formatted state
  and its image on the disk, and what reading that image back restores.
\<close>

subsection \<open>The semaphore \<open>disk_access\<close>\<close>

definition sem_open :: "sfs \<Rightarrow> sfs" where
  "sem_open s = s\<lparr>disk_access := True, sem := sem_open_val (sem s)\<rparr>"

definition sem_wait :: "sfs \<Rightarrow> sfs result" where
  "sem_wait s =
     (if \<not> disk_access s then Inl NullDeref
      else rbind (sem_wait_val (sem s)) (\<lambda>v. Inr (s\<lparr>sem := v\<rparr>)))"

definition sem_post :: "sfs \<Rightarrow> sfs result" where
  "sem_post s =
     (if \<not> disk_access s then Inl NullDeref
      else rbind (sem_post_val (sem s)) (\<lambda>v. Inr (s\<lparr>sem := v\<rparr>)))"

interpretation da: semaphore sem_wait sem_post sem
  by unfold_locales
    (auto simp: sem_wait_def sem_post_def sem_wait_val_def sem_post_val_def
      split: option.splits if_splits)

subsection \<open>Program start\<close>

text \<open>
  The static initialisation: every bit of the bitmap is set (free), the other globals are
  zero. The arguments are what the program finds: the indeterminate bytes, the byte
  behind the bitmap, the semaphore and the host file.
\<close>

definition boot :: "byte stream \<Rightarrow> byte \<Rightarrow> nat option \<Rightarrow> bool \<Rightarrow> (nat \<Rightarrow> byte) \<Rightarrow> nat \<Rightarrow> bool \<Rightarrow> sfs" where
  "boot u after v ex c n cr = \<lparr>unk = u, file_exists = ex, can_create = cr, content = c, flen = n,
     fp = FNull, fpos = 0, BLOCK_SIZE = 0, MAX_BLOCK = 0, MAX_RETRY = 0, disk_L = 0, disk_p = 0,
     free_bit_map = replicate 128 255 @ [after], sfs_mkerror = 0, rootDir_ptr = 0,
     disk_access = False, sem = v,
     inode_table = replicate 100 \<lparr>mode = 0, link_cnt = 0, uid = 0, gid = 0, isize = 0,
       data_ptrs = replicate 12 0, indirectPointer = 0\<rparr>,
     fd_table = replicate 100 \<lparr>inodeIndex = 0, fd_inode = None, rwptr = 0\<rparr>,
     rootDir = replicate 100 \<lparr>num = 0, name = replicate 21 0, pad = replicate 3 0\<rparr>\<rparr>"

subsection \<open>Formatting\<close>

definition fresh_superblock :: superblock where
  "fresh_superblock = \<lparr>magic = 0xACBD0005, block_size = 1024, fs_size = 1024,
     inode_table_len = 30, root_dir_inode = 0\<rparr>"

definition fresh_inode :: inode where
  "fresh_inode = \<lparr>mode = 1, link_cnt = 0, uid = 0, gid = 0, isize = 0,
     data_ptrs = replicate 12 0, indirectPointer = 0\<rparr>"

definition fresh_fds :: "file_descriptor list \<Rightarrow> file_descriptor list" where
  "fresh_fds fds = map (\<lambda>(a, f). f\<lparr>inodeIndex := a, rwptr := 0\<rparr>) (enumerate 0 fds)"

text \<open>\<open>strcpy(rootDir[b].name, "")\<close> stores the terminating NUL at index 0 only.\<close>

definition fresh_dir :: "directory_entry list \<Rightarrow> directory_entry list" where
  "fresh_dir ds = map (\<lambda>(b, d). d\<lparr>num := int b, name := (name d)[0 := 0]\<rparr>) (enumerate 0 ds)"

fun mark_used :: "nat list \<Rightarrow> bitmap \<Rightarrow> bitmap result" where
  "mark_used [] m = Inr m"
| "mark_used (n # ns) m = rbind (force_set_index n m) (mark_used ns)"

definition mark_blocks :: "nat list \<Rightarrow> sfs \<Rightarrow> sfs result" where
  "mark_blocks ns s = rbind (mark_used ns (free_bit_map s)) (\<lambda>m. Inr (s\<lparr>free_bit_map := m\<rparr>))"

text \<open>The sections of the function, as its comments divide it.\<close>

definition format_superblock :: "sfs \<Rightarrow> sfs result" where
  "format_superblock s0 =
     rbind (write_blocks 0 1 (encode_superblock fresh_superblock) s0) (\<lambda>(superblockerror, s1).
     mark_blocks [0] s1)"

definition format_inodes :: "sfs \<Rightarrow> sfs result" where
  "format_inodes s0 =
     (let s1 = s0\<lparr>inode_table := replicate 100 fresh_inode\<rparr> in
      rbind (write_blocks 1 8 (encode_inodes (inode_table s1)) s1) (\<lambda>(r, s2).
      mark_blocks [1..<32] s2))"

definition format_dir :: "sfs \<Rightarrow> sfs result" where
  "format_dir s0 =
     (let s1 = s0\<lparr>fd_table := fresh_fds (fd_table s0), rootDir := fresh_dir (rootDir s0)\<rparr> in
      rbind (write_blocks 33 2 (encode_dir (rootDir s1)) s1) (\<lambda>(r, s2).
      mark_blocks [33, 34] s2))"

definition format_bitmap :: "sfs \<Rightarrow> sfs result" where
  "format_bitmap s0 =
     rbind (mark_blocks [32] s0) (\<lambda>s1.
     rbind (write_blocks 32 1 (free_bit_map s1) s1) (\<lambda>(r, s2). Inr s2))"

definition mksfs_fresh :: "sfs \<Rightarrow> sfs result" where
  "mksfs_fresh s0 =
     (let (err, s1) = init_fresh_disk 1024 NUM_BLOCKS (sem_open s0);
          s2 = s1\<lparr>sfs_mkerror := err\<rparr>
      in rbind (sem_wait s2) (\<lambda>s3.
         rbind (format_superblock s3) (\<lambda>s4.
         rbind (format_inodes s4) (\<lambda>s5.
         rbind (format_dir s5) (\<lambda>s6.
         rbind (format_bitmap s6) sem_post)))))"

subsection \<open>Reopening\<close>

definition load_inodes :: "sfs \<Rightarrow> sfs result" where
  "load_inodes s0 =
     (let (readbuf, s1) = indet 8192 s0 in
      rbind (read_blocks 1 8 readbuf 0 s1) (\<lambda>(r, buf, s2).
      Inr (s2\<lparr>inode_table := decode_inodes (take 7200 buf)\<rparr>)))"

definition load_dir :: "sfs \<Rightarrow> sfs result" where
  "load_dir s0 =
     (let (readbuf, s1) = indet 16384 s0 in
      rbind (read_blocks 33 2 readbuf 0 s1) (\<lambda>(r, buf, s2).
      Inr (s2\<lparr>rootDir := decode_dir (take 2800 buf)\<rparr>)))"

definition load_bitmap :: "sfs \<Rightarrow> sfs result" where
  "load_bitmap s0 =
     (let (readbuf, s1) = indet 8192 s0 in
      rbind (read_blocks 32 1 readbuf 0 s1) (\<lambda>(r, buf, s2).
      Inr (s2\<lparr>free_bit_map := overwrite (free_bit_map s2) 0 (take 128 buf)\<rparr>)))"

definition load_tables :: "sfs \<Rightarrow> sfs result" where
  "load_tables s0 = rbind (load_inodes s0) (\<lambda>s1. rbind (load_dir s1) load_bitmap)"

text \<open>
  The buffer for the superblock has \<open>sizeof(superblock_t)\<close>, 40 bytes, but a whole block is
  read into it.
\<close>

definition mksfs_old :: "sfs \<Rightarrow> sfs result" where
  "mksfs_old s0 =
     (let (err, s1) = init_disk 1024 NUM_BLOCKS s0;
          s2 = s1\<lparr>sfs_mkerror := err\<rparr>;
          (readbuf, s3) = indet 40 s2 in
      rbind (read_blocks 0 1 readbuf 0 s3) (\<lambda>(r, superblock_buf, s4). load_tables s4))"

definition mksfs :: "int \<Rightarrow> sfs \<Rightarrow> sfs result" where
  "mksfs fresh s = (if fresh \<noteq> 0 then mksfs_fresh s else mksfs_old s)"

subsection \<open>The formatted state\<close>

text \<open>The sizes of the global arrays, which no operation changes.\<close>

definition globals_ok :: "sfs \<Rightarrow> bool" where
  "globals_ok s \<longleftrightarrow> length (free_bit_map s) = 129 \<and> length (inode_table s) = 100 \<and>
     length (fd_table s) = 100 \<and> length (rootDir s) = 100 \<and> (\<forall>d\<in>set (rootDir s). dirent_fits d)"

lemma mark_used_ok:
  assumes "\<forall>n\<in>set ns. n < 8 * length m"
  shows "\<exists>m'. mark_used ns m = Inr m' \<and> free_set m' = free_set m - set ns \<and> length m' = length m"
  using assms
proof (induction ns arbitrary: m)
  case Nil
  then show ?case by simp
next
  case (Cons n ns)
  then obtain m1 where m1: "force_set_index n m = Inr m1" "free_set m1 = free_set m - {n}" "length m1 = length m"
    using force_set_index_ok [of n m] by auto
  then obtain m2 where "mark_used ns m1 = Inr m2" "free_set m2 = free_set m1 - set ns" "length m2 = length m1"
    using Cons.IH [of m1] Cons.prems by auto
  then show ?case using m1 by auto
qed

lemma length_fresh_fds [simp]: "length (fresh_fds fds) = length fds"
  by (simp add: fresh_fds_def)

lemma length_fresh_dir [simp]: "length (fresh_dir ds) = length ds"
  by (simp add: fresh_dir_def)

lemma nth_fresh_fds [simp]: "i < length fds \<Longrightarrow> fresh_fds fds ! i = (fds ! i)\<lparr>inodeIndex := i, rwptr := 0\<rparr>"
  by (simp add: fresh_fds_def nth_enumerate_eq)

lemma nth_fresh_dir [simp]:
  "i < length ds \<Longrightarrow> fresh_dir ds ! i = (ds ! i)\<lparr>num := int i, name := (name (ds ! i))[0 := 0]\<rparr>"
  by (simp add: fresh_dir_def nth_enumerate_eq)

lemma fresh_dir_fits:
  assumes "length ds = 100" and "\<forall>d\<in>set ds. dirent_fits d"
  shows "\<forall>d\<in>set (fresh_dir ds). dirent_fits d"
proof
  fix d assume "d \<in> set (fresh_dir ds)"
  then obtain i where i: "i < 100" "d = fresh_dir ds ! i" using assms(1) by (auto simp: in_set_conv_nth)
  then have "dirent_fits (ds ! i)" using assms by simp
  then show "dirent_fits d" using i assms(1) by (simp add: dirent_fits_def)
qed

lemma fresh_inode_fits [simp]: "inode_fits fresh_inode"
  by (simp add: inode_fits_def fresh_inode_def)

text \<open>
  The image of the tables on the disk, block by block: the superblock in block 0, the
  inode table in blocks 1 to 8, the bitmap in block 32 and as much of the directory as
  fits in blocks 33 and 34.
\<close>

definition image_on_disk :: "(nat \<Rightarrow> byte) \<Rightarrow> inode list \<Rightarrow> directory_entry list \<Rightarrow> bitmap \<Rightarrow> bool" where
  "image_on_disk c is ds m \<longleftrightarrow>
     bytes_at c 0 40 = encode_superblock fresh_superblock \<and>
     bytes_at c 1024 7200 = encode_inodes is \<and>
     bytes_at c 32768 128 = take 128 m \<and>
     bytes_at c 33792 2048 = take 2048 (encode_dir ds)"

lemma image_of_writes:
  assumes "length (encode_inodes is) = 7200" and "length (encode_dir ds) = 2800" and "length m = 129"
    and "length d0 = 1024" and "length d1 = 8192" and "length d2 = 1024"
    and "take 40 d0 = encode_superblock fresh_superblock" and "take 7200 d1 = encode_inodes is"
    and "take 128 d2 = take 128 m"
  shows "image_on_disk (put_at (put_at (put_at (put_at c 0 d0) 1024 d1) 33792 (take 2048 (encode_dir ds))) 32768 d2)
    is ds m"
  using assms unfolding image_on_disk_def
  by (simp add: bytes_at_put_at_other bytes_at_put_at_inside slice_def)

lemma load_take: "length src \<le> n \<Longrightarrow> take (length src) (fst (load_mem n src s)) = src"
  by (simp add: load_mem_eq)

text \<open>One write of the formatting, with the data read behind the end of its object.\<close>

lemma write_blocks_step:
  assumes "disk_ready s" and "a + n \<le> 1024"
  shows "\<exists>data u. write_blocks (int a) (int n) src s =
      Inr (int n, s\<lparr>unk := u, content := put_at (content s) (a * 1024) data, fpos := a * 1024 + n * 1024\<rparr>) \<and>
    length data = n * 1024 \<and> (length src \<le> n * 1024 \<longrightarrow> take (length src) data = src)"
  using assms
  by (intro exI [of _ "fst (load_mem (n * 1024) src s)"] exI [of _ "unk (snd (load_mem (n * 1024) src s))"])
    (auto simp: write_blocks_load load_mem_eq)

lemma mark_blocks_ok:
  assumes "length (free_bit_map s) = 129" and "\<forall>n\<in>set ns. n < 1032"
  shows "\<exists>m. mark_blocks ns s = Inr (s\<lparr>free_bit_map := m\<rparr>) \<and> length m = 129 \<and>
    free_set m = free_set (free_bit_map s) - set ns"
  using mark_used_ok [of ns "free_bit_map s"] assms by (auto simp: mark_blocks_def)

lemma format_superblock_ok:
  assumes "disk_ready s" and "length (free_bit_map s) = 129"
  shows "\<exists>s' d u m. format_superblock s = Inr s' \<and>
    s' = s\<lparr>unk := u, content := put_at (content s) 0 d, fpos := 1024, free_bit_map := m\<rparr> \<and>
    length d = 1024 \<and> take 40 d = encode_superblock fresh_superblock \<and>
    length m = 129 \<and> free_set m = free_set (free_bit_map s) - {0}"
proof -
  obtain d u where w: "write_blocks 0 1 (encode_superblock fresh_superblock) s =
      Inr (1, s\<lparr>unk := u, content := put_at (content s) 0 d, fpos := 1024\<rparr>)"
    and d: "length d = 1024" "take 40 d = encode_superblock fresh_superblock"
    using write_blocks_step [OF assms(1), of 0 1 "encode_superblock fresh_superblock"] by auto
  show ?thesis
    using mark_blocks_ok [of "s\<lparr>unk := u, content := put_at (content s) 0 d, fpos := 1024\<rparr>" "[0]"]
      assms(2) d by (auto simp: format_superblock_def w)
qed

lemma format_inodes_ok:
  assumes "disk_ready s" and "length (free_bit_map s) = 129"
  shows "\<exists>s' d u m. format_inodes s = Inr s' \<and>
    s' = s\<lparr>inode_table := replicate 100 fresh_inode, unk := u, content := put_at (content s) 1024 d,
           fpos := 9216, free_bit_map := m\<rparr> \<and>
    length d = 8192 \<and> take 7200 d = encode_inodes (replicate 100 fresh_inode) \<and>
    length m = 129 \<and> free_set m = free_set (free_bit_map s) - {1..<32}"
proof -
  let ?e = "encode_inodes (replicate 100 fresh_inode)"
  let ?s = "s\<lparr>inode_table := replicate 100 fresh_inode\<rparr>"
  have len: "length ?e = 7200" by (simp add: length_encode_inodes)
  have "disk_ready ?s" using assms(1) by (simp add: disk_ready_def)
  then obtain d u where w: "write_blocks 1 8 ?e ?s =
      Inr (8, ?s\<lparr>unk := u, content := put_at (content s) 1024 d, fpos := 9216\<rparr>)"
    and d: "length d = 8192" "take 7200 d = ?e"
    using write_blocks_step [of ?s 1 8 ?e] len by auto
  show ?thesis
    using mark_blocks_ok [of "?s\<lparr>unk := u, content := put_at (content s) 1024 d, fpos := 9216\<rparr>" "[1..<32]"]
      assms(2) d by (auto simp: format_inodes_def w)
qed

lemma format_dir_ok:
  assumes "disk_ready s" and "globals_ok s"
  shows "\<exists>s' m. format_dir s = Inr s' \<and>
    s' = s\<lparr>fd_table := fresh_fds (fd_table s), rootDir := fresh_dir (rootDir s),
           content := put_at (content s) 33792 (take 2048 (encode_dir (fresh_dir (rootDir s)))),
           fpos := 35840, free_bit_map := m\<rparr> \<and>
    length m = 129 \<and> free_set m = free_set (free_bit_map s) - {33, 34}"
proof -
  let ?e = "encode_dir (fresh_dir (rootDir s))"
  let ?s = "s\<lparr>fd_table := fresh_fds (fd_table s), rootDir := fresh_dir (rootDir s)\<rparr>"
  have len: "length ?e = 2800"
    using assms(2) fresh_dir_fits [of "rootDir s"] by (simp add: globals_ok_def length_encode_dir)
  have "disk_ready ?s" using assms(1) by (simp add: disk_ready_def)
  then have w: "write_blocks 33 2 ?e ?s =
      Inr (2, ?s\<lparr>content := put_at (content s) 33792 (take 2048 ?e), fpos := 35840\<rparr>)"
    using write_blocks_ok [of ?s 33 2 ?e] len by simp
  show ?thesis
    using mark_blocks_ok [of "?s\<lparr>content := put_at (content s) 33792 (take 2048 ?e), fpos := 35840\<rparr>" "[33, 34]"]
      assms(2) by (auto simp: format_dir_def w globals_ok_def)
qed

lemma format_bitmap_ok:
  assumes "disk_ready s" and "length (free_bit_map s) = 129"
  shows "\<exists>s' d u m. format_bitmap s = Inr s' \<and>
    s' = s\<lparr>free_bit_map := m, unk := u, content := put_at (content s) 32768 d, fpos := 33792\<rparr> \<and>
    length d = 1024 \<and> take 128 d = take 128 m \<and>
    length m = 129 \<and> free_set m = free_set (free_bit_map s) - {32}"
proof -
  obtain m where m: "mark_blocks [32] s = Inr (s\<lparr>free_bit_map := m\<rparr>)" "length m = 129"
    "free_set m = free_set (free_bit_map s) - {32}"
    using mark_blocks_ok [of s "[32]"] assms(2) by auto
  have "disk_ready (s\<lparr>free_bit_map := m\<rparr>)" using assms(1) by (simp add: disk_ready_def)
  then obtain d u where w: "write_blocks 32 1 m (s\<lparr>free_bit_map := m\<rparr>) =
      Inr (1, s\<lparr>free_bit_map := m, unk := u, content := put_at (content s) 32768 d, fpos := 33792\<rparr>)"
    and d: "length d = 1024" "take 129 d = m"
    using write_blocks_step [of "s\<lparr>free_bit_map := m\<rparr>" 32 1 m] m(2) by auto
  have "take 128 d = take 128 (take 129 d)" by simp
  then have "take 128 d = take 128 m" using d(2) by simp
  then show ?thesis using m d(1) by (auto simp: format_bitmap_def w)
qed

text \<open>The start: opening the semaphore and the disk, and entering the critical section.\<close>

lemma format_enter:
  assumes "can_create s" and "sem s \<noteq> Some 0"
  shows "\<exists>s1 s3 n. init_fresh_disk 1024 NUM_BLOCKS (sem_open s) = (0, s1) \<and>
    sem_open_val (sem s) = Some (Suc n) \<and> sem_wait (s1\<lparr>sfs_mkerror := 0\<rparr>) = Inr s3 \<and>
    disk_ready s3 \<and> disk_access s3 \<and> sem s3 = Some n \<and> sfs_mkerror s3 = 0 \<and>
    free_bit_map s3 = free_bit_map s \<and> inode_table s3 = inode_table s \<and> fd_table s3 = fd_table s \<and>
    rootDir s3 = rootDir s \<and> rootDir_ptr s3 = rootDir_ptr s"
proof -
  obtain n where "sem_open_val (sem s) = Some (Suc n)"
    using assms(2) by (cases "sem s") (auto simp: sem_open_val_def gr0_conv_Suc)
  then show ?thesis
    using assms(1) by (simp add: init_fresh_disk_def sem_open_def disk_ready_def NUM_BLOCKS_def
        sem_wait_def sem_wait_val_def Let_def)
qed

lemma format_steps:
  assumes "disk_ready s3" and "globals_ok s3"
  shows "\<exists>s4 s5 s6 s7. format_superblock s3 = Inr s4 \<and> format_inodes s4 = Inr s5 \<and> format_dir s5 = Inr s6 \<and>
    format_bitmap s6 = Inr s7 \<and> disk_ready s7 \<and> globals_ok s7 \<and> sem s7 = sem s3 \<and> disk_access s7 = disk_access s3 \<and>
    sfs_mkerror s7 = sfs_mkerror s3 \<and> rootDir_ptr s7 = rootDir_ptr s3 \<and> inode_table s7 = replicate 100 fresh_inode \<and>
    fd_table s7 = fresh_fds (fd_table s3) \<and> rootDir s7 = fresh_dir (rootDir s3) \<and>
    free_set (free_bit_map s7) = free_set (free_bit_map s3) - {..<35} \<and>
    image_on_disk (content s7) (inode_table s7) (rootDir s7) (free_bit_map s7)"
proof -
  have len: "length (free_bit_map s3) = 129" "length (fd_table s3) = 100" "length (rootDir s3) = 100"
    and fits: "\<forall>d\<in>set (rootDir s3). dirent_fits d" using assms(2) by (auto simp: globals_ok_def)
  obtain s4 d0 u0 m0 where sb: "format_superblock s3 = Inr s4"
    "s4 = s3\<lparr>unk := u0, content := put_at (content s3) 0 d0, fpos := 1024, free_bit_map := m0\<rparr>"
    "length d0 = 1024" "take 40 d0 = encode_superblock fresh_superblock"
    "length m0 = 129" "free_set m0 = free_set (free_bit_map s3) - {0}"
    using format_superblock_ok [OF assms(1)] len by auto
  have r4: "disk_ready s4" using assms(1) by (simp add: sb(2) disk_ready_def)
  obtain s5 d1 u1 m1 where it: "format_inodes s4 = Inr s5"
    "s5 = s4\<lparr>inode_table := replicate 100 fresh_inode, unk := u1, content := put_at (content s4) 1024 d1,
       fpos := 9216, free_bit_map := m1\<rparr>"
    "length d1 = 8192" "take 7200 d1 = encode_inodes (replicate 100 fresh_inode)"
    "length m1 = 129" "free_set m1 = free_set m0 - {1..<32}"
    using format_inodes_ok [OF r4] sb(5) by (auto simp: sb(2))
  have r5: "disk_ready s5" "globals_ok s5" and t5: "fd_table s5 = fd_table s3" "rootDir s5 = rootDir s3"
    "free_bit_map s5 = m1" using assms(1) len fits it(5) by (simp_all add: it(2) sb(2) disk_ready_def globals_ok_def)
  obtain s6 m2 where fd: "format_dir s5 = Inr s6"
    "s6 = s5\<lparr>fd_table := fresh_fds (fd_table s3), rootDir := fresh_dir (rootDir s3),
       content := put_at (content s5) 33792 (take 2048 (encode_dir (fresh_dir (rootDir s3)))),
       fpos := 35840, free_bit_map := m2\<rparr>"
    "length m2 = 129" "free_set m2 = free_set m1 - {33, 34}"
    using format_dir_ok [OF r5] unfolding t5 by blast
  have r6: "disk_ready s6" using r5(1) by (simp add: fd(2) disk_ready_def)
  obtain s7 d3 u3 m3 where fb: "format_bitmap s6 = Inr s7"
    "s7 = s6\<lparr>free_bit_map := m3, unk := u3, content := put_at (content s6) 32768 d3, fpos := 33792\<rparr>"
    "length d3 = 1024" "take 128 d3 = take 128 m3" "length m3 = 129" "free_set m3 = free_set m2 - {32}"
    using format_bitmap_ok [OF r6] fd(3) by (auto simp: fd(2))
  note eqs = fb(2) fd(2) it(2) sb(2)
  have "{..<35::nat} = {0} \<union> {1..<32} \<union> {33, 34} \<union> {32}" by auto
  then have free: "free_set m3 = free_set (free_bit_map s3) - {..<35}"
    by (simp add: fb(6) fd(4) it(6) sb(6)) blast
  have "image_on_disk (content s7) (replicate 100 fresh_inode) (fresh_dir (rootDir s3)) m3"
    using image_of_writes [of "replicate 100 fresh_inode" "fresh_dir (rootDir s3)" m3 d0 d1 d3 "content s3"]
      fresh_dir_fits [OF len(3) fits] len(3) sb(3,4) it(3,4) fb(3-5)
    by (simp add: eqs length_encode_inodes length_encode_dir)
  moreover have "disk_ready s7" "globals_ok s7"
    using r6 len fresh_dir_fits [OF len(3) fits] fb(5) by (simp_all add: eqs disk_ready_def globals_ok_def)
  ultimately show ?thesis using sb(1) it(1) fd(1) fb(1) free by (auto simp: eqs)
qed

lemma mksfs_fresh_formats:
  assumes "globals_ok s" and "can_create s" and "sem s \<noteq> Some 0"
  shows "\<exists>s'. mksfs_fresh s = Inr s' \<and> disk_ready s' \<and> globals_ok s' \<and>
    sem s' = sem_open_val (sem s) \<and> disk_access s' \<and> sfs_mkerror s' = 0 \<and>
    rootDir_ptr s' = rootDir_ptr s \<and> inode_table s' = replicate 100 fresh_inode \<and>
    fd_table s' = fresh_fds (fd_table s) \<and> rootDir s' = fresh_dir (rootDir s) \<and>
    free_set (free_bit_map s') = free_set (free_bit_map s) - {..<35} \<and>
    image_on_disk (content s') (inode_table s') (rootDir s') (free_bit_map s')"
proof -
  obtain s1 s3 n where enter: "init_fresh_disk 1024 NUM_BLOCKS (sem_open s) = (0, s1)"
      "sem_open_val (sem s) = Some (Suc n)" "sem_wait (s1\<lparr>sfs_mkerror := 0\<rparr>) = Inr s3"
    and s3: "disk_ready s3" "disk_access s3" "sem s3 = Some n" "sfs_mkerror s3 = 0"
      "free_bit_map s3 = free_bit_map s" "fd_table s3 = fd_table s"
      "rootDir s3 = rootDir s" "rootDir_ptr s3 = rootDir_ptr s" "inode_table s3 = inode_table s"
    using format_enter [OF assms(2,3)] by blast
  have "globals_ok s3" using assms(1) s3 by (simp add: globals_ok_def)
  from format_steps [OF s3(1) this] obtain s4 s5 s6 s7 where
    steps: "format_superblock s3 = Inr s4" "format_inodes s4 = Inr s5" "format_dir s5 = Inr s6" "format_bitmap s6 = Inr s7"
    and s7: "disk_ready s7" "globals_ok s7" "sem s7 = Some n" "disk_access s7" "sfs_mkerror s7 = 0"
      "rootDir_ptr s7 = rootDir_ptr s" "inode_table s7 = replicate 100 fresh_inode"
      "fd_table s7 = fresh_fds (fd_table s)" "rootDir s7 = fresh_dir (rootDir s)"
      "free_set (free_bit_map s7) = free_set (free_bit_map s) - {..<35}"
      "image_on_disk (content s7) (inode_table s7) (rootDir s7) (free_bit_map s7)"
    using s3 by auto
  have "sem_post s7 = Inr (s7\<lparr>sem := Some (Suc n)\<rparr>)" using s7(3,4) by (simp add: sem_post_def sem_post_val_def)
  then have "mksfs_fresh s = Inr (s7\<lparr>sem := Some (Suc n)\<rparr>)" by (simp add: mksfs_fresh_def enter steps)
  then show ?thesis using s7 enter(2) by (intro exI [of _ "s7\<lparr>sem := Some (Suc n)\<rparr>"]) (simp add: disk_ready_def globals_ok_def)
qed

subsection \<open>Reading the tables back\<close>

lemma take_overwrite_prefix:
  "length ys \<le> length xs \<Longrightarrow> n \<le> length ys \<Longrightarrow> take n (overwrite xs 0 ys) = take n ys"
  by (simp add: overwrite_def)

lemma load_inodes_image:
  assumes "disk_ready s" and "image_on_disk (content s) is ds m" and "length is = 100" and "\<forall>i\<in>set is. inode_fits i"
  shows "\<exists>u. load_inodes s = Inr (s\<lparr>unk := u, fpos := 9216, inode_table := is\<rparr>)"
proof -
  let ?s1 = "s\<lparr>unk := sdrop 8192 (unk s)\<rparr>"
  have "disk_ready ?s1" using assms(1) by simp
  from read_blocks_ok [OF this, of 1 8 0 "stake 8192 (unk s)"]
  have rd: "read_blocks 1 8 (stake 8192 (unk s)) 0 ?s1 =
      Inr (8, bytes_at (content s) 1024 8192, s\<lparr>unk := sdrop 9216 (unk s), fpos := 9216\<rparr>)" by simp
  have "decode_inodes (take 7200 (bytes_at (content s) 1024 8192)) = is"
    using assms decode_encode_inodes [OF assms(3,4), of "[]"] by (simp add: image_on_disk_def take_bytes_at)
  then show ?thesis by (auto simp: load_inodes_def indet_def rd)
qed

lemma load_dir_image:
  assumes "disk_ready s" and "image_on_disk (content s) is ds m" and "length ds = 100" and "\<forall>d\<in>set ds. dirent_fits d"
  shows "\<exists>u ds'. load_dir s = Inr (s\<lparr>unk := u, fpos := 35840, rootDir := ds'\<rparr>) \<and> (\<forall>i<73. ds' ! i = ds ! i)"
proof -
  let ?s1 = "s\<lparr>unk := sdrop 16384 (unk s)\<rparr>" and ?junk = "stake 16384 (unk s)"
  have "disk_ready ?s1" using assms(1) by simp
  from read_blocks_ok [OF this, of 33 2 0 ?junk]
  have rd: "read_blocks 33 2 ?junk 0 ?s1 = Inr (2, overwrite ?junk 0 (bytes_at (content s) 33792 2048),
      s\<lparr>unk := sdrop 17408 (unk s), fpos := 35840\<rparr>)" by simp
  have "length (encode_dir ds) = 2800" using assms(3,4) by (simp add: length_encode_dir)
  then have buf: "take 2800 (overwrite ?junk 0 (bytes_at (content s) 33792 2048)) =
      take 2048 (encode_dir ds) @ take 752 (drop 2048 ?junk)"
    using assms(2) by (simp add: image_on_disk_def overwrite_def)
  have "\<forall>i<73. decode_dir (take 2048 (encode_dir ds) @ take 752 (drop 2048 ?junk)) ! i = ds ! i"
    using decode_encode_dir_prefix [OF assms(3,4)] by simp
  then show ?thesis by (auto simp: load_dir_def indet_def rd buf)
qed

lemma load_bitmap_image:
  assumes "disk_ready s" and "image_on_disk (content s) is ds m" and "length m = 129"
    and "length (free_bit_map s) = 129"
  shows "\<exists>u m'. load_bitmap s = Inr (s\<lparr>unk := u, fpos := 33792, free_bit_map := m'\<rparr>) \<and>
    take 128 m' = take 128 m \<and> length m' = 129"
proof -
  let ?s1 = "s\<lparr>unk := sdrop 8192 (unk s)\<rparr>" and ?junk = "stake 8192 (unk s)"
  have "disk_ready ?s1" using assms(1) by simp
  from read_blocks_ok [OF this, of 32 1 0 ?junk]
  have rd: "read_blocks 32 1 ?junk 0 ?s1 = Inr (1, overwrite ?junk 0 (bytes_at (content s) 32768 1024),
      s\<lparr>unk := sdrop 9216 (unk s), fpos := 33792\<rparr>)" by simp
  have "take 128 (overwrite ?junk 0 (bytes_at (content s) 32768 1024)) = take 128 m"
    using assms(2) by (simp add: image_on_disk_def take_overwrite_prefix take_bytes_at)
  then have "load_bitmap s = Inr (s\<lparr>unk := sdrop 9216 (unk s), fpos := 33792,
      free_bit_map := overwrite (free_bit_map s) 0 (take 128 m)\<rparr>)"
    by (simp add: load_bitmap_def indet_def rd)
  moreover have "take 128 (overwrite (free_bit_map s) 0 (take 128 m)) = take 128 m"
    "length (overwrite (free_bit_map s) 0 (take 128 m)) = 129"
    using assms(3,4) by (simp_all add: take_overwrite_prefix)
  ultimately show ?thesis by blast
qed

text \<open>
  \<open>load_tables\<close> restores the inode table, the bitmap and the first 73 directory entries
  of the image; the image holds no more of the directory, so the entries from 73 on come
  from memory that was never written.
\<close>

lemma load_tables_image:
  assumes "disk_ready s" and "globals_ok s" and img: "image_on_disk (content s) is ds m"
    and "length is = 100" and "\<forall>i\<in>set is. inode_fits i"
    and "length ds = 100" and "\<forall>d\<in>set ds. dirent_fits d" and "length m = 129"
  shows "\<exists>s'. load_tables s = Inr s' \<and> inode_table s' = is \<and> (\<forall>i<73. rootDir s' ! i = ds ! i) \<and>
    take 128 (free_bit_map s') = take 128 m \<and> content s' = content s \<and> fd_table s' = fd_table s \<and>
    sem s' = sem s \<and> disk_access s' = disk_access s"
proof -
  obtain u where l1: "load_inodes s = Inr (s\<lparr>unk := u, fpos := 9216, inode_table := is\<rparr>)"
    using load_inodes_image [OF assms(1) img assms(4,5)] by blast
  define s1 where "s1 = s\<lparr>unk := u, fpos := 9216, inode_table := is\<rparr>"
  have "disk_ready s1" "image_on_disk (content s1) is ds m"
    using assms(1) img by (simp_all add: s1_def disk_ready_def)
  then obtain v ds' where l2: "load_dir s1 = Inr (s1\<lparr>unk := v, fpos := 35840, rootDir := ds'\<rparr>)"
    and ds': "\<forall>i<73. ds' ! i = ds ! i"
    using load_dir_image assms(6,7) by blast
  define s2 where "s2 = s1\<lparr>unk := v, fpos := 35840, rootDir := ds'\<rparr>"
  have "disk_ready s2" "image_on_disk (content s2) is ds m" "length (free_bit_map s2) = 129"
    using assms(1,2) img by (simp_all add: s2_def s1_def disk_ready_def globals_ok_def)
  then obtain w m' where l3: "load_bitmap s2 = Inr (s2\<lparr>unk := w, fpos := 33792, free_bit_map := m'\<rparr>)"
    and m': "take 128 m' = take 128 m" "length m' = 129"
    using load_bitmap_image assms(8) by blast
  have "load_tables s = Inr (s2\<lparr>unk := w, fpos := 33792, free_bit_map := m'\<rparr>)"
    by (simp add: load_tables_def l1 s1_def [symmetric] l2 s2_def [symmetric] l3)
  then show ?thesis using ds' m' by (simp add: s2_def s1_def)
qed

lemma mksfs_old_result: "mksfs_old s = Inl (if file_exists s then OutOfBounds else NullDeref)"
proof -
  have "s32 1 = 1" by (simp add: s32_def)
  then show ?thesis
    by (simp add: mksfs_old_def init_disk_def NUM_BLOCKS_def Let_def indet_def read_blocks_def fseek_def
        fread_item_def store_mem_def eval_nat_numeral(3) [symmetric])
qed

end
