(* ===== verification/C_Library.thy ===== *)
theory C_Library
  imports Prelude
begin

text \<open>
  The C string functions the programs call, on byte objects: a string is what precedes
  the first NUL. A function that runs off the end of its object without meeting a NUL
  stops the model. The lemmas express the functions through \<open>cstr\<close>, the string an
  object holds, for objects that are \<open>terminated\<close>.
\<close>

named_theorems cstr_simps \<open>strings held by byte objects\<close>

definition bytes_of :: "string \<Rightarrow> byte list" where
  "bytes_of = map of_char"

definition cstr :: "byte list \<Rightarrow> byte list" where
  "cstr xs = takeWhile (\<lambda>b. b \<noteq> 0) xs"

definition terminated :: "byte list \<Rightarrow> bool" where
  "terminated xs \<longleftrightarrow> 0 \<in> set xs"

fun c_strlen :: "byte list \<Rightarrow> nat result" where
  "c_strlen [] = Inl OutOfBounds"
| "c_strlen (b # bs) = (if b = 0 then Inr 0 else rbind (c_strlen bs) (\<lambda>n. Inr (Suc n)))"

text \<open>\<open>strcmp(x, y) == 0\<close>: the comparison stops at the first difference.\<close>

fun c_streq :: "byte list \<Rightarrow> byte list \<Rightarrow> bool result" where
  "c_streq (x # xs) (y # ys) =
     (if x \<noteq> y then Inr False else if x = 0 then Inr True else c_streq xs ys)"
| "c_streq _ _ = Inl OutOfBounds"

definition c_strcpy :: "byte list \<Rightarrow> byte list \<Rightarrow> byte list result" where
  "c_strcpy dst src = rbind (c_strlen src) (\<lambda>n. store_mem dst 0 (take (Suc n) src))"

text \<open>The remainder of C, which takes the sign of the dividend.\<close>

definition c_mod :: "int \<Rightarrow> int \<Rightarrow> int" where
  "c_mod a b = sgn a * (\<bar>a\<bar> mod \<bar>b\<bar>)"

lemma c_mod_nonneg [simp]: "0 \<le> a \<Longrightarrow> 0 < b \<Longrightarrow> c_mod a b = a mod b"
  by (cases "a = 0") (simp_all add: c_mod_def)

lemma terminated_Nil [simp]: "\<not> terminated []"
  by (simp add: terminated_def)

lemma terminated_Cons [simp]: "terminated (x # xs) \<longleftrightarrow> x = 0 \<or> terminated xs"
  by (auto simp: terminated_def)

lemma cstr_Nil [simp]: "cstr [] = []"
  by (simp add: cstr_def)

lemma cstr_Cons [simp]: "cstr (x # xs) = (if x = 0 then [] else x # cstr xs)"
  by (simp add: cstr_def)

lemma zero_notin_cstr [simp]: "0 \<notin> set (cstr xs)"
  by (auto simp: cstr_def dest: set_takeWhileD)

lemma c_strlen_terminated [cstr_simps]: "terminated xs \<Longrightarrow> c_strlen xs = Inr (length (cstr xs))"
  by (induction xs) auto

lemma c_streq_terminated [cstr_simps]:
  "terminated xs \<Longrightarrow> terminated ys \<Longrightarrow> c_streq xs ys = Inr (cstr xs = cstr ys)"
  by (induction xs ys rule: c_streq.induct) auto

lemma terminated_split: "terminated xs \<Longrightarrow> \<exists>r. xs = cstr xs @ 0 # r"
  by (induction xs) auto

lemma cstr_append_nul [simp]: "0 \<notin> set n \<Longrightarrow> cstr (n @ 0 # r) = n"
  by (induction n) auto

lemma terminated_append_nul [simp]: "terminated (n @ 0 # r)"
  by (simp add: terminated_def)

lemma length_cstr_less: "terminated xs \<Longrightarrow> length (cstr xs) < length xs"
  by (induction xs) auto

text \<open>A prefix long enough to hold the NUL holds the same string.\<close>

lemma cstr_take: "terminated xs \<Longrightarrow> length (cstr xs) < k \<Longrightarrow> cstr (take k xs) = cstr xs \<and> terminated (take k xs)"
  by (induction xs arbitrary: k) (auto simp: take_Cons' split: if_splits)

lemma cstr_append: "terminated xs \<Longrightarrow> cstr (xs @ ys) = cstr xs \<and> terminated (xs @ ys)"
  by (induction xs) auto

lemma c_strcpy_ok [cstr_simps]:
  assumes "terminated src" and "length (cstr src) < length dst"
  shows "c_strcpy dst src = Inr (cstr src @ 0 # drop (Suc (length (cstr src))) dst)"
proof -
  obtain r where r: "src = cstr src @ 0 # r" using terminated_split [OF assms(1)] by blast
  have "take (Suc (length (cstr src))) src = cstr src @ [0]"
    by (subst (2) r) simp
  then show ?thesis
    using assms by (simp add: c_strcpy_def c_strlen_terminated store_mem_def overwrite_def)
qed

subsection \<open>Tokens, numbers and lines\<close>

text \<open>
  \<open>strtok\<close> with a single delimiter \<open>d\<close>, scanning the object from offset \<open>p\<close>: the offset
  of the token (\<open>None\<close> for \<open>NULL\<close>), the object with the token terminated in place, and the
  offset the library keeps for the next call.
\<close>

definition c_strtok :: "byte \<Rightarrow> byte list \<Rightarrow> nat \<Rightarrow> (nat option \<times> byte list \<times> nat) result" where
  "c_strtok d buf p =
     (let b = p + length (takeWhile (\<lambda>x. x = d) (drop p buf)) in
      if length buf \<le> b then Inl OutOfBounds
      else if buf ! b = 0 then Inr (None, buf, b)
      else let e = b + length (takeWhile (\<lambda>x. x \<noteq> d \<and> x \<noteq> 0) (drop b buf)) in
      if length buf \<le> e then Inl OutOfBounds
      else if buf ! e = 0 then Inr (Some b, buf, e)
      else Inr (Some b, buf[e := 0], Suc e))"

definition is_digit :: "byte \<Rightarrow> bool" where
  "is_digit b \<longleftrightarrow> 48 \<le> b \<and> b \<le> 57"

definition is_space :: "byte \<Rightarrow> bool" where
  "is_space b \<longleftrightarrow> b = 32 \<or> 9 \<le> b \<and> b \<le> 13"

definition digits_value :: "byte list \<Rightarrow> int" where
  "digits_value ds = foldl (\<lambda>v d. 10 * v + (int (unat d) - 48)) 0 ds"

text \<open>\<open>atoi\<close> as the C library does it: \<open>strtol\<close> saturates at 64 bits, the result is cut to 32.\<close>

definition c_atoi :: "byte list \<Rightarrow> int result" where
  "c_atoi xs =
     (if \<not> terminated xs then Inl OutOfBounds
      else let ys = dropWhile is_space (cstr xs);
               neg = (ys \<noteq> [] \<and> hd ys = 45);
               zs = (if ys \<noteq> [] \<and> (hd ys = 45 \<or> hd ys = 43) then tl ys else ys);
               v = digits_value (takeWhile is_digit zs);
               w = (if neg then - v else v)
           in Inr (s32 (max (- (2 ^ 63)) (min (2 ^ 63 - 1) w))))"

text \<open>
  \<open>fgets(buf, n, stdin)\<close>: at most \<open>n - 1\<close> characters, up to and with the newline. At the
  end of the input the buffer keeps what it held.
\<close>

definition line_length :: "byte list \<Rightarrow> nat" where
  "line_length inp = (let l = length (takeWhile (\<lambda>b. b \<noteq> 10) inp) in if l < length inp then Suc l else l)"

definition c_fgets :: "nat \<Rightarrow> byte list \<Rightarrow> byte list \<Rightarrow> byte list \<times> byte list" where
  "c_fgets n buf inp =
     (if inp = [] then (buf, [])
      else let k = min (n - 1) (line_length inp) in (overwrite buf 0 (take k inp @ [0]), drop k inp))"

lemma c_strtok_none:
  assumes "drop p buf = replicate k d @ 0 # rest" and "d \<noteq> 0"
  shows "c_strtok d buf p = Inr (None, buf, p + k)"
proof -
  have "takeWhile (\<lambda>x. x = d) (drop p buf) = replicate k d"
    unfolding assms(1) using assms(2) by (induction k) auto
  moreover have len: "length buf = p + k + Suc (length rest)"
    using arg_cong [OF assms(1), of length] by (cases "p \<le> length buf") simp_all
  moreover have "buf ! (p + k) = 0"
    using arg_cong [OF assms(1), of "\<lambda>l. l ! k"] len by (simp add: nth_append)
  ultimately show ?thesis by (simp add: c_strtok_def)
qed

text \<open>A token is what stands between delimiters, whether a delimiter or the NUL ends it.\<close>

lemma c_strtok_some:
  assumes "drop p buf = replicate k d @ tok @ c # rest" and "tok \<noteq> []" and "d \<notin> set tok" and "0 \<notin> set tok"
    and "c = d \<or> c = 0" and "d \<noteq> 0"
  shows "c_strtok d buf p = Inr (Some (p + k), buf[p + k + length tok := 0],
    if c = 0 then p + k + length tok else Suc (p + k + length tok))"
proof -
  obtain t ts where tok: "tok = t # ts" "t \<noteq> d" "t \<noteq> 0" using assms(2-4) by (cases tok) auto
  have "takeWhile (\<lambda>x. x = d) (replicate k d @ tok @ c # rest) = replicate k d"
    using tok by (induction k) auto
  then have skip: "takeWhile (\<lambda>x. x = d) (drop p buf) = replicate k d" by (simp only: assms(1))
  have len: "length buf = p + k + length tok + Suc (length rest)"
    using arg_cong [OF assms(1), of length] by (cases "p \<le> length buf") simp_all
  have at: "buf ! (p + i) = (replicate k d @ tok @ c # rest) ! i" if "p + i < length buf" for i
    using that by (simp add: assms(1) [symmetric])
  have b: "buf ! (p + k) \<noteq> 0" using at [of k] len tok by (simp add: nth_append)
  have rest: "drop (p + k) buf = tok @ c # rest"
    using arg_cong [OF assms(1), of "drop k"] by (simp add: add.commute)
  have word: "takeWhile (\<lambda>x. x \<noteq> d \<and> x \<noteq> 0) (tok @ c # rest) = tok"
    using assms(3-5) by (subst takeWhile_append2) auto
  have e: "buf ! (p + k + length tok) = c" using at [of "k + length tok"] len by (simp add: nth_append add.assoc)
  have "buf[p + k + length tok := 0] = buf" if "c = 0" using e that by (metis list_update_id)
  then show ?thesis using len b e assms(5,6) by (auto simp: c_strtok_def Let_def skip rest word)
qed

lemma length_c_strtok: "c_strtok d buf p = Inr (t, buf', q) \<Longrightarrow> length buf' = length buf"
  by (auto simp: c_strtok_def Let_def split: if_splits)

lemma takeWhile_digits: "\<forall>x\<in>set ds. is_digit x \<Longrightarrow> \<not> is_digit c \<Longrightarrow> takeWhile is_digit (ds @ c # r) = ds"
  by (subst takeWhile_append2) auto

end
