(* ===== verification/Sfs_Dir.thy ===== *)
theory Sfs_Dir
  imports Sfs_Format C_Library
begin

text \<open>
  The directory and descriptor operations of \<^verbatim>\<open>file_system/sfs_api.c\<close>:
  \<open>sfs_getnextfilename\<close>, \<open>sfs_getfilesize\<close>, \<open>sfs_fopen\<close>, \<open>sfs_fclose\<close>,
  \<open>sfs_fseek\<close> and \<open>sfs_remove\<close>. A descriptor is the index of the file's inode and of
  its entry in \<open>fd_table\<close>; an inode of mode 1 is closed.

  The abstract directory is the list of its file names in the order of their creation
  (\<open>dir_names\<close>); \<open>dir_ok\<close> is its well-formedness invariant. The lemmas show the effect
  of every operation on it, on every branch.
\<close>

subsection \<open>Access to the tables\<close>

text \<open>\<open>inode_table\<close>, \<open>fd_table\<close> and \<open>rootDir\<close> have 100 elements; the code indexes them unchecked.\<close>

definition table_index :: "int \<Rightarrow> nat result" where
  "table_index i = (if 0 \<le> i \<and> i < 100 then Inr (nat i) else Inl OutOfBounds)"

definition upd_inode :: "nat \<Rightarrow> (inode \<Rightarrow> inode) \<Rightarrow> sfs \<Rightarrow> sfs" where
  "upd_inode k f s = s\<lparr>inode_table := (inode_table s)[k := f (inode_table s ! k)]\<rparr>"

definition upd_fd :: "nat \<Rightarrow> (file_descriptor \<Rightarrow> file_descriptor) \<Rightarrow> sfs \<Rightarrow> sfs" where
  "upd_fd k f s = s\<lparr>fd_table := (fd_table s)[k := f (fd_table s ! k)]\<rparr>"

definition upd_dir :: "nat \<Rightarrow> (directory_entry \<Rightarrow> directory_entry) \<Rightarrow> sfs \<Rightarrow> sfs" where
  "upd_dir k f s = s\<lparr>rootDir := (rootDir s)[k := f (rootDir s ! k)]\<rparr>"

text \<open>\<open>sem_post(disk_access); return r;\<close>\<close>

definition post_return :: "'a \<Rightarrow> sfs \<Rightarrow> ('a \<times> sfs) result" where
  "post_return r s = rbind (sem_post s) (\<lambda>s'. Inr (r, s'))"

text \<open>The linear searches: the first entry whose name equals the string at \<open>nm\<close>.\<close>

fun find_entry :: "byte list \<Rightarrow> directory_entry list \<Rightarrow> nat \<Rightarrow> nat option result" where
  "find_entry nm [] i = Inr None"
| "find_entry nm (d # ds) i =
     rbind (c_streq (name d) nm) (\<lambda>e. if e then Inr (Some i) else find_entry nm ds (Suc i))"

subsection \<open>The operations\<close>

definition sfs_getnextfilename :: "byte list \<Rightarrow> sfs \<Rightarrow> (int \<times> byte list \<times> sfs) result" where
  "sfs_getnextfilename fname s =
     rbind (sem_wait s) (\<lambda>s1.
     let p = (if c_mod (rootDir_ptr s1) 100 = 99 then -1 else c_mod (rootDir_ptr s1) 100);
         s2 = s1\<lparr>rootDir_ptr := p\<rparr>
     in rbind (table_index (p + 1)) (\<lambda>nxt.
        rbind (c_streq [0] (name (rootDir s2 ! nxt))) (\<lambda>empty.
        rbind (table_index p) (\<lambda>cur.
        rbind (c_strcpy fname (name (rootDir s2 ! cur))) (\<lambda>fname'.
        if empty then rbind (sem_post s2) (\<lambda>s3. Inr (0, fname', s3))
        else (let s3 = s2\<lparr>rootDir_ptr := p + 1\<rparr>
              in rbind (sem_post s3) (\<lambda>s4. Inr (p + 1, fname', s4))))))))"

definition sfs_getfilesize :: "byte list \<Rightarrow> sfs \<Rightarrow> (int \<times> sfs) result" where
  "sfs_getfilesize path s =
     rbind (sem_wait s) (\<lambda>s1.
     rbind (find_entry path (rootDir s1) 0) (\<lambda>found. case found of
       Some i \<Rightarrow> rbind (sem_post s1) (\<lambda>s2.
                 rbind (table_index (num (rootDir s2 ! i))) (\<lambda>k.
                 Inr (s32 (int (isize (inode_table s2 ! k))), s2)))
     | None \<Rightarrow> post_return (-1) s1))"

text \<open>The last \<open>'.'\<close> among the first 20 characters, or -1.\<close>

fun scan_period :: "byte list \<Rightarrow> int \<Rightarrow> int \<Rightarrow> int" where
  "scan_period [] i periodptr = periodptr"
| "scan_period (b # bs) i periodptr = scan_period bs (i + 1) (if b = 46 then i else periodptr)"

fun ext_len :: "byte list \<Rightarrow> nat" where
  "ext_len [] = 0"
| "ext_len (b # bs) = (if b = 0 then 0 else Suc (ext_len bs))"

text \<open>
  \<open>sfs_fopen\<close> after the checks of the name: the search for the file, or for a free
  entry. \<open>mem\<close> is the 21 bytes at \<open>name\<close> that are copied into a new entry.
\<close>

definition fopen_locked :: "byte list \<Rightarrow> byte list \<Rightarrow> sfs \<Rightarrow> (int \<times> sfs) result" where
  "fopen_locked nm mem s0 =
     rbind (sem_wait s0) (\<lambda>s1.
     rbind (find_entry nm (rootDir s1) 0) (\<lambda>found. case found of
       Some i \<Rightarrow>
         rbind (table_index (num (rootDir s1 ! i))) (\<lambda>k.
         let s2 = upd_fd k (\<lambda>f. f\<lparr>rwptr := isize (inode_table s1 ! k)\<rparr>) s1;
             s3 = upd_inode k (\<lambda>n. n\<lparr>mode := 0\<rparr>) s2
         in post_return (num (rootDir s3 ! i)) s3)
     | None \<Rightarrow>
         rbind (find_entry [0] (rootDir s1) 0) (\<lambda>free. case free of
           Some j \<Rightarrow>
             (let s2 = upd_dir j (\<lambda>d. d\<lparr>name := mem\<rparr>) s1
              in rbind (table_index (num (rootDir s2 ! j))) (\<lambda>k.
                 let s3 = upd_inode k (\<lambda>n. n\<lparr>isize := 0, mode := 0\<rparr>) s2
                 in post_return (num (rootDir s3 ! j)) s3))
         | None \<Rightarrow> post_return (-1) s1)))"

definition sfs_fopen :: "byte list \<Rightarrow> sfs \<Rightarrow> (int \<times> sfs) result" where
  "sfs_fopen nm s =
     rbind (c_strlen nm) (\<lambda>len.
     if \<not> len < 21 then Inr (-1, s)
     else let (mem, s0) = load_mem 21 nm s; periodptr = scan_period (take 20 mem) 0 (-1)
     in if periodptr = -1 then Inr (-1, s0)
     else if ext_len (drop (nat periodptr) (take 20 mem)) > 4 then Inr (-1, s0)
     else fopen_locked nm mem s0)"

definition sfs_fclose :: "int \<Rightarrow> sfs \<Rightarrow> (int \<times> sfs) result" where
  "sfs_fclose fileID s =
     rbind (sem_wait s) (\<lambda>s1.
     rbind (table_index fileID) (\<lambda>k.
     if mode (inode_table s1 ! k) = 1 then post_return (-1) s1
     else post_return 0 (upd_inode k (\<lambda>n. n\<lparr>mode := 1\<rparr>) s1)))"

text \<open>
  \<open>sfs_fseek\<close> and \<open>sfs_remove\<close> are declared to return an \<open>int\<close> but have no
  \<open>return\<close> statement: the value a caller sees is indeterminate.
\<close>

definition indet_int :: "sfs \<Rightarrow> int \<times> sfs" where
  "indet_int s = (let (x, s') = indet 4 s in (s32 (int (le_nat x)), s'))"

definition sfs_fseek :: "int \<Rightarrow> int \<Rightarrow> sfs \<Rightarrow> (int \<times> sfs) result" where
  "sfs_fseek fileID loc s =
     rbind (sem_wait s) (\<lambda>s1.
     rbind (table_index fileID) (\<lambda>k.
     rbind (sem_post (upd_fd k (\<lambda>f. f\<lparr>rwptr := u64 loc\<rparr>) s1)) (\<lambda>s2. Inr (indet_int s2))))"

text \<open>The body of \<open>sfs_remove\<close> is commented out.\<close>

definition sfs_remove :: "byte list \<Rightarrow> sfs \<Rightarrow> (int \<times> sfs) result" where
  "sfs_remove file s = Inr (indet_int s)"

subsection \<open>The critical section\<close>

definition sem_ready :: "sfs \<Rightarrow> bool" where
  "sem_ready s \<longleftrightarrow> disk_access s \<and> (\<exists>n. sem s = Some (Suc n))"

lemma table_index_ok [simp]: "k < 100 \<Longrightarrow> table_index (int k) = Inr k"
  by (simp add: table_index_def)

lemma sem_readyE:
  assumes "sem_ready s"
  obtains n where "disk_access s" and "sem s = Some (Suc n)" and "sem_wait s = Inr (s\<lparr>sem := Some n\<rparr>)"
  using assms by (auto simp: sem_ready_def sem_wait_def sem_wait_val_def)

lemma post_return_eq [simp]:
  "disk_access s \<Longrightarrow> sem s = Some n \<Longrightarrow> post_return r s = Inr (r, s\<lparr>sem := Some (Suc n)\<rparr>)"
  by (simp add: post_return_def sem_post_def sem_post_val_def)

lemma sem_post_eq [simp]:
  "disk_access s \<Longrightarrow> sem s = Some n \<Longrightarrow> sem_post s = Inr (s\<lparr>sem := Some (Suc n)\<rparr>)"
  by (simp add: sem_post_def sem_post_val_def)

lemma sem_self [simp]: "sem s = v \<Longrightarrow> s\<lparr>sem := v\<rparr> = s"
  by auto

lemma upd_sem [simp]:
  "upd_inode k f (s\<lparr>sem := v\<rparr>) = (upd_inode k f s)\<lparr>sem := v\<rparr>"
  "upd_fd k g (s\<lparr>sem := v\<rparr>) = (upd_fd k g s)\<lparr>sem := v\<rparr>"
  "upd_dir k h (s\<lparr>sem := v\<rparr>) = (upd_dir k h s)\<lparr>sem := v\<rparr>"
  by (simp_all add: upd_inode_def upd_fd_def upd_dir_def)

lemma upd_fields [simp]:
  "sem (upd_inode k f s) = sem s" "disk_access (upd_inode k f s) = disk_access s"
  "rootDir (upd_inode k f s) = rootDir s" "fd_table (upd_inode k f s) = fd_table s"
  "free_bit_map (upd_inode k f s) = free_bit_map s" "content (upd_inode k f s) = content s"
  "rootDir_ptr (upd_inode k f s) = rootDir_ptr s" "unk (upd_inode k f s) = unk s"
  "inode_table (upd_inode k f s) = (inode_table s)[k := f (inode_table s ! k)]"
  "sem (upd_fd k g s) = sem s" "disk_access (upd_fd k g s) = disk_access s"
  "rootDir (upd_fd k g s) = rootDir s" "inode_table (upd_fd k g s) = inode_table s"
  "free_bit_map (upd_fd k g s) = free_bit_map s" "content (upd_fd k g s) = content s"
  "rootDir_ptr (upd_fd k g s) = rootDir_ptr s" "unk (upd_fd k g s) = unk s"
  "fd_table (upd_fd k g s) = (fd_table s)[k := g (fd_table s ! k)]"
  "sem (upd_dir k h s) = sem s" "disk_access (upd_dir k h s) = disk_access s"
  "fd_table (upd_dir k h s) = fd_table s" "inode_table (upd_dir k h s) = inode_table s"
  "free_bit_map (upd_dir k h s) = free_bit_map s" "content (upd_dir k h s) = content s"
  "rootDir_ptr (upd_dir k h s) = rootDir_ptr s" "unk (upd_dir k h s) = unk s"
  "rootDir (upd_dir k h s) = (rootDir s)[k := h (rootDir s ! k)]"
  by (simp_all add: upd_inode_def upd_fd_def upd_dir_def)

lemma disk_ready_upd_tables [simp]:
  "disk_ready (upd_inode k f s) = disk_ready s" "disk_ready (upd_fd k g s) = disk_ready s"
  "disk_ready (upd_dir k h s) = disk_ready s" "disk_ready (s\<lparr>sem := v\<rparr>) = disk_ready s"
  by (simp_all add: upd_inode_def upd_fd_def upd_dir_def disk_ready_def)

text \<open>
  Every operation that returns leaves the semaphore as it found it, on every branch: the
  waits and posts are paired (\<open>da.bracket\<close>).
\<close>

lemma sem_post_wait: "sem_post t = Inr s' \<Longrightarrow> sem_wait s = Inr s1 \<Longrightarrow> sem t = sem s1 \<Longrightarrow> sem s' = sem s"
  by (rule da.bracket)

lemma post_return_wait:
  assumes "post_return r t = Inr (r', s')" and "sem_wait s = Inr s1" and "sem t = sem s1"
  shows "sem s' = sem s"
proof -
  have "sem_post t = Inr s'" using assms(1) by (auto simp: post_return_def result_simps)
  then show ?thesis using assms(2,3) by (rule sem_post_wait)
qed

lemma load_mem_sem [simp]: "sem (snd (load_mem n x s)) = sem s"
  by (simp add: snd_load_mem)

lemma fopen_locked_sem: "fopen_locked nm mem s = Inr (r, s') \<Longrightarrow> sem s' = sem s"
  unfolding fopen_locked_def Let_def rbind_Inr_iff
  by (auto split: option.splits simp: rbind_Inr_iff elim!: post_return_wait)

lemma sfs_fopen_sem: "sfs_fopen nm s = Inr (r, s') \<Longrightarrow> sem s' = sem s"
proof -
  assume run: "sfs_fopen nm s = Inr (r, s')"
  obtain mem s0 where load: "load_mem 21 nm s = (mem, s0)" by fastforce
  then have "sem s0 = sem s" using load_mem_sem [of 21 nm s] by simp
  with run show "sem s' = sem s"
    by (auto simp: load sfs_fopen_def rbind_Inr_iff Let_def split: prod.splits if_splits
        dest!: fopen_locked_sem)
qed

lemma sfs_fclose_sem: "sfs_fclose fd s = Inr (r, s') \<Longrightarrow> sem s' = sem s"
  unfolding sfs_fclose_def rbind_Inr_iff by (auto split: if_splits elim!: post_return_wait)

lemma sfs_fseek_sem: "sfs_fseek fd loc s = Inr (r, s') \<Longrightarrow> sem s' = sem s"
  unfolding sfs_fseek_def rbind_Inr_iff
  by (auto simp: indet_int_def indet_def Let_def elim!: sem_post_wait)

lemma sfs_getfilesize_sem: "sfs_getfilesize p s = Inr (r, s') \<Longrightarrow> sem s' = sem s"
  unfolding sfs_getfilesize_def rbind_Inr_iff
  by (auto split: option.splits simp: rbind_Inr_iff elim!: post_return_wait sem_post_wait)

lemma sfs_getnextfilename_sem: "sfs_getnextfilename b s = Inr (r, b', s') \<Longrightarrow> sem s' = sem s"
  unfolding sfs_getnextfilename_def rbind_Inr_iff Let_def
  by (auto split: if_splits simp: rbind_Inr_iff elim!: sem_post_wait)

text \<open>
  \<open>sfs_fopen\<close> of a name in an array of 21 bytes reads nothing behind it; the number that \<open>sfs_fseek\<close>
  leaves to its caller is the next four indeterminate bytes.
\<close>

lemma sem_wait_unk: "sem_wait s = Inr s' \<Longrightarrow> unk s' = unk s"
  by (auto simp: sem_wait_def rbind_Inr_iff split: if_splits)

lemma sem_post_unk: "sem_post s = Inr s' \<Longrightarrow> unk s' = unk s"
  by (auto simp: sem_post_def rbind_Inr_iff split: if_splits)

lemma post_return_unk: "post_return r s = Inr (r', s') \<Longrightarrow> unk s' = unk s"
  by (auto simp: post_return_def rbind_Inr_iff dest: sem_post_unk)

lemma fopen_locked_unk: "fopen_locked nm mem s = Inr (r, s') \<Longrightarrow> unk s' = unk s"
  by (auto simp: fopen_locked_def rbind_Inr_iff Let_def dest!: sem_wait_unk post_return_unk split: option.splits)

lemma sfs_fopen_unk: "sfs_fopen nm s = Inr (r, s') \<Longrightarrow> 21 \<le> length nm \<Longrightarrow> unk s' = unk s"
  by (auto simp: sfs_fopen_def rbind_Inr_iff Let_def dest: fopen_locked_unk split: if_splits)

lemma sfs_fseek_value: "sfs_fseek fd loc s = Inr (r, s') \<Longrightarrow> r = s32 (int (le_nat (stake 4 (unk s))))"
  by (auto simp: sfs_fseek_def rbind_Inr_iff indet_int_def indet_def dest!: sem_wait_unk sem_post_unk)

subsection \<open>The check of the name\<close>

text \<open>
  What the checks are meant to accept: at most 20 characters, with an extension of at
  most three characters after the last period (\<open>MAX_FILE_NAME\<close> and
  \<open>MAX_EXTENSION_NAME\<close> of \<^verbatim>\<open>sfs_api.h\<close>).
\<close>

definition MAX_FILE_NAME :: nat where
  "MAX_FILE_NAME = 20"

definition MAX_EXTENSION_NAME :: nat where
  "MAX_EXTENSION_NAME = 3"

definition legal_name :: "byte list \<Rightarrow> bool" where
  "legal_name n \<longleftrightarrow> length n \<le> MAX_FILE_NAME \<and> 46 \<in> set n \<and>
     length (takeWhile (\<lambda>b. b \<noteq> 46) (rev n)) \<le> MAX_EXTENSION_NAME"

lemma scan_period_none: "46 \<notin> set xs \<Longrightarrow> scan_period xs i p = p"
  by (induction xs arbitrary: i p) auto

lemma scan_period_last: "46 \<notin> set ext \<Longrightarrow> scan_period (pre @ 46 # ext) i p = i + int (length pre)"
  by (induction pre arbitrary: i p) (auto simp: scan_period_none)

lemma ext_len_append: "0 \<notin> set xs \<Longrightarrow> ext_len (xs @ ys) = length xs + ext_len ys"
  by (induction xs) auto

lemma ext_len_junk: "junk = [] \<or> hd junk = 0 \<Longrightarrow> ext_len junk = 0"
  by (cases junk) auto

lemma legal_name_split:
  assumes "46 \<notin> set ext"
  shows "legal_name (pre @ 46 # ext) \<longleftrightarrow> length pre + length ext < 20 \<and> length ext \<le> 3"
proof -
  have "takeWhile (\<lambda>b. b \<noteq> 46) (rev ext @ 46 # rev pre) = rev ext"
    using assms by (subst takeWhile_append2) auto
  then show ?thesis by (auto simp: legal_name_def MAX_FILE_NAME_def MAX_EXTENSION_NAME_def)
qed

text \<open>The characters the loops look at: the name, and what follows its NUL within 20 bytes.\<close>

lemma take20_name:
  assumes "terminated nm" and "length (cstr nm) < 21" and "load_mem 21 nm s = (mem, s0)"
  shows "length mem = 21" and "terminated mem" and "cstr mem = cstr nm"
    and "\<exists>junk. take 20 mem = cstr nm @ junk \<and> (junk = [] \<or> hd junk = 0)"
proof -
  show len: "length mem = 21" using length_load_mem [of 21 nm s] assms(3) by simp
  have mem: "mem = take 21 nm @ stake (21 - length nm) (unk s)" using assms(3) by (simp add: load_mem_eq)
  have "cstr (take 21 nm) = cstr nm \<and> terminated (take 21 nm)" using assms(1,2) by (rule cstr_take)
  then show t: "terminated mem" and c: "cstr mem = cstr nm" by (simp_all add: mem cstr_append)
  obtain r where r: "mem = cstr nm @ 0 # r" using terminated_split [OF t] c by auto
  have "take 20 mem = cstr nm @ take (20 - length (cstr nm)) (0 # r)"
    using assms(2) by (subst r) simp
  moreover have "take (20 - length (cstr nm)) (0 # r) = [] \<or> hd (take (20 - length (cstr nm)) (0 # r)) = 0"
    by (cases "20 - length (cstr nm)") auto
  ultimately show "\<exists>junk. take 20 mem = cstr nm @ junk \<and> (junk = [] \<or> hd junk = 0)" by blast
qed

lemma name_checks:
  assumes x: "x = n @ junk" and j: "junk = [] \<or> hd junk = 0" and "0 \<notin> set n" and "46 \<notin> set junk"
    and "length n \<le> 20"
  shows "scan_period x 0 (-1) \<noteq> -1 \<and> \<not> ext_len (drop (nat (scan_period x 0 (-1))) x) > 4 \<longleftrightarrow> legal_name n"
proof (cases "46 \<in> set n")
  case False
  then have "scan_period x 0 (-1) = -1" using assms by (intro scan_period_none) auto
  then show ?thesis using False by (simp add: legal_name_def)
next
  case True
  then obtain pre ext where n: "n = pre @ 46 # ext" "46 \<notin> set ext" by (metis split_list_last)
  have xs: "x = pre @ 46 # (ext @ junk)" using x n(1) by simp
  have "scan_period x 0 (-1) = int (length pre)"
    unfolding xs using n(2) assms(4) by (subst scan_period_last) auto
  moreover have "ext_len (drop (length pre) x) = Suc (length ext)"
    using ext_len_append [of "46 # ext" junk] ext_len_junk [OF j] assms(3) n(1) by (simp add: xs)
  ultimately show ?thesis using legal_name_split [OF n(2), of pre] n(1) assms(5)
    by (simp add: not_less)
qed

lemma fopen_legal:
  assumes "terminated nm" and "load_mem 21 nm s = (mem, s0)" and "legal_name (cstr nm)"
    and "46 \<notin> set (drop (length (cstr nm)) (take 20 mem))"
  shows "sfs_fopen nm s = fopen_locked nm mem s0"
proof -
  have len: "length (cstr nm) < 21" using assms(3) by (simp add: legal_name_def MAX_FILE_NAME_def)
  obtain junk where j: "take 20 mem = cstr nm @ junk" "junk = [] \<or> hd junk = 0"
    using take20_name(4) [OF assms(1) len assms(2)] by blast
  then have "46 \<notin> set junk" using assms(4) by simp
  from name_checks [OF j zero_notin_cstr this] len assms(3)
  show ?thesis using len by (simp add: sfs_fopen_def c_strlen_terminated assms(1,2))
qed

lemma fopen_illegal:
  assumes "terminated nm" and "load_mem 21 nm s = (mem, s0)" and "\<not> legal_name (cstr nm)"
    and "46 \<notin> set (drop (length (cstr nm)) (take 20 mem))"
  shows "\<exists>u. sfs_fopen nm s = Inr (-1, s\<lparr>unk := u\<rparr>)"
proof (cases "length (cstr nm) < 21")
  case False
  then show ?thesis by (intro exI [of _ "unk s"]) (simp add: sfs_fopen_def c_strlen_terminated assms(1))
next
  case len: True
  obtain junk where j: "take 20 mem = cstr nm @ junk" "junk = [] \<or> hd junk = 0"
    using take20_name(4) [OF assms(1) len assms(2)] by blast
  then have "46 \<notin> set junk" using assms(4) by simp
  from name_checks [OF j zero_notin_cstr this] len assms(3)
  have "sfs_fopen nm s = Inr (-1, s0)"
    using len by (auto simp: sfs_fopen_def c_strlen_terminated assms(1,2) Let_def)
  moreover have "s0 = s\<lparr>unk := sdrop (21 - length nm) (unk s)\<rparr>" using assms(2) by (simp add: load_mem_eq)
  ultimately show ?thesis by blast
qed

subsection \<open>The directory as a list of names\<close>

definition entry_names :: "directory_entry list \<Rightarrow> byte list list" where
  "entry_names ds = map (\<lambda>d. cstr (name d)) ds"

definition dir_names :: "sfs \<Rightarrow> byte list list" where
  "dir_names s = takeWhile (\<lambda>n. n \<noteq> []) (entry_names (rootDir s))"

text \<open>
  The invariant: entry \<open>i\<close> stands for inode \<open>i\<close>, names are terminated, the used
  entries come first and carry distinct names.
\<close>

definition dir_ok :: "sfs \<Rightarrow> bool" where
  "dir_ok s \<longleftrightarrow> globals_ok s \<and> (\<forall>i<100. num (rootDir s ! i) = int i) \<and>
     (\<forall>d\<in>set (rootDir s). terminated (name d)) \<and>
     entry_names (rootDir s) = dir_names s @ replicate (100 - length (dir_names s)) [] \<and>
     distinct (dir_names s)"

lemma length_entry_names [simp]: "length (entry_names ds) = length ds"
  by (simp add: entry_names_def)

lemma entry_names_update [simp]:
  "entry_names (ds[i := d]) = (entry_names ds)[i := cstr (name d)]"
  by (simp add: entry_names_def map_update)

lemma nth_entry_names: "i < length ds \<Longrightarrow> entry_names ds ! i = cstr (name (ds ! i))"
  by (simp add: entry_names_def)

lemma dir_okD:
  assumes "dir_ok s"
  shows "length (rootDir s) = 100" and "length (inode_table s) = 100" and "length (fd_table s) = 100"
    and "\<And>i. i < 100 \<Longrightarrow> num (rootDir s ! i) = int i"
    and "\<And>d. d \<in> set (rootDir s) \<Longrightarrow> terminated (name d)"
    and "entry_names (rootDir s) = dir_names s @ replicate (100 - length (dir_names s)) []"
    and "distinct (dir_names s)"
  using assms by (auto simp: dir_ok_def globals_ok_def)

lemma Nil_notin_dir_names: "[] \<notin> set (dir_names s)"
  by (auto simp: dir_names_def dest: set_takeWhileD)

lemma length_dir_names: "dir_ok s \<Longrightarrow> length (dir_names s) \<le> 100"
proof -
  assume ok: "dir_ok s"
  have "length (dir_names s) \<le> length (entry_names (rootDir s))"
    unfolding dir_names_def by (rule length_takeWhile_le)
  then show ?thesis using dir_okD(1) [OF ok] by simp
qed

lemma find_entry_None:
  assumes "\<forall>d\<in>set ds. terminated (name d)" and "terminated nm" and "cstr nm \<notin> set (entry_names ds)"
  shows "find_entry nm ds i = Inr None"
  using assms by (induction ds arbitrary: i) (auto simp: c_streq_terminated entry_names_def)

lemma find_entry_Some:
  assumes "\<forall>d\<in>set ds. terminated (name d)" and "terminated nm" and "j < length ds"
    and "entry_names ds ! j = cstr nm" and "\<forall>k<j. entry_names ds ! k \<noteq> cstr nm"
  shows "find_entry nm ds i = Inr (Some (i + j))"
  using assms
proof (induction ds arbitrary: i j)
  case Nil
  then show ?case by simp
next
  case (Cons d ds)
  show ?case
  proof (cases j)
    case 0
    then show ?thesis using Cons.prems by (simp add: c_streq_terminated nth_entry_names)
  next
    case (Suc j')
    have "cstr (name d) \<noteq> cstr nm" using Cons.prems(5) Suc by (auto simp: entry_names_def dest: spec [of _ 0])
    moreover have "find_entry nm ds (Suc i) = Inr (Some (Suc i + j'))"
    proof (rule Cons.IH)
      show "\<forall>k<j'. entry_names ds ! k \<noteq> cstr nm"
        using Cons.prems(5) Suc by (auto simp: entry_names_def)
    qed (use Cons.prems Suc in \<open>auto simp: entry_names_def\<close>)
    ultimately show ?thesis using Cons.prems Suc by (simp add: c_streq_terminated)
  qed
qed

text \<open>The search of the code finds a file at its place in the list of names, \<dots>\<close>

lemma find_file:
  assumes "dir_ok s" and "terminated nm" and "i < length (dir_names s)" and "dir_names s ! i = cstr nm"
  shows "find_entry nm (rootDir s) 0 = Inr (Some i)"
proof -
  note d = dir_okD [OF assms(1)]
  have i: "i < 100" using assms(3) length_dir_names [OF assms(1)] by simp
  have nth: "entry_names (rootDir s) ! k = dir_names s ! k" if "k < length (dir_names s)" for k
    unfolding d(6) using that by (simp add: nth_append)
  have "\<forall>k<i. entry_names (rootDir s) ! k \<noteq> cstr nm"
    using nth assms(3,4) d(7) by (metis nth_eq_iff_index_eq less_trans less_irrefl)
  then show ?thesis
    using find_entry_Some [of "rootDir s" nm i 0] d(1,5) i assms(2-4) nth by simp
qed

lemma find_no_file:
  assumes "dir_ok s" and "terminated nm" and "cstr nm \<notin> set (dir_names s)" and "cstr nm \<noteq> []"
  shows "find_entry nm (rootDir s) 0 = Inr None"
proof -
  note d = dir_okD [OF assms(1)]
  have "cstr nm \<notin> set (entry_names (rootDir s))" unfolding d(6) using assms(3,4) by auto
  then show ?thesis using d(5) assms(2) by (intro find_entry_None) auto
qed

text \<open>\<dots> and the search for the empty name finds the first entry behind the files.\<close>

lemma find_free_entry:
  assumes "dir_ok s" and "length (dir_names s) < 100"
  shows "find_entry [0] (rootDir s) 0 = Inr (Some (length (dir_names s)))"
proof -
  note d = dir_okD [OF assms(1)]
  let ?k = "length (dir_names s)"
  have "entry_names (rootDir s) ! ?k = []" unfolding d(6) using assms(2) by (simp add: nth_append)
  moreover have "\<forall>j<?k. entry_names (rootDir s) ! j \<noteq> []"
    unfolding d(6) using Nil_notin_dir_names [of s] by (auto simp: nth_append dest: nth_mem)
  ultimately show ?thesis
    using find_entry_Some [of "rootDir s" "[0]" ?k 0] d(1,5) assms(2) by simp
qed

lemma find_no_free_entry:
  assumes "dir_ok s" and "length (dir_names s) = 100"
  shows "find_entry [0] (rootDir s) 0 = Inr None"
proof -
  note d = dir_okD [OF assms(1)]
  have "[] \<notin> set (entry_names (rootDir s))"
    unfolding d(6) using assms(2) Nil_notin_dir_names [of s] by simp
  then show ?thesis using d(5) by (intro find_entry_None) auto
qed

subsection \<open>Opening a file\<close>

lemma fopen_locked_existing:
  assumes "dir_ok s" and "sem_ready s" and "terminated nm" and "i < length (dir_names s)"
    and "dir_names s ! i = cstr nm"
  shows "fopen_locked nm mem s =
    Inr (int i, upd_inode i (\<lambda>n. n\<lparr>mode := 0\<rparr>) (upd_fd i (\<lambda>f. f\<lparr>rwptr := isize (inode_table s ! i)\<rparr>) s))"
proof -
  have i: "i < 100" using assms(4) length_dir_names [OF assms(1)] by simp
  obtain n where n: "disk_access s" "sem s = Some (Suc n)" "sem_wait s = Inr (s\<lparr>sem := Some n\<rparr>)"
    using assms(2) by (rule sem_readyE)
  show ?thesis
    using find_file [OF assms(1,3-5)] i n dir_okD(4) [OF assms(1) i]
    by (simp add: fopen_locked_def table_index_def)
qed

lemma fopen_locked_new:
  assumes "dir_ok s" and "sem_ready s" and "terminated nm" and "cstr nm \<notin> set (dir_names s)"
    and "cstr nm \<noteq> []" and "length (dir_names s) = k" and "k < 100"
  shows "fopen_locked nm mem s =
    Inr (int k, upd_inode k (\<lambda>n. n\<lparr>isize := 0, mode := 0\<rparr>) (upd_dir k (\<lambda>d. d\<lparr>name := mem\<rparr>) s))"
proof -
  obtain n where n: "disk_access s" "sem s = Some (Suc n)" "sem_wait s = Inr (s\<lparr>sem := Some n\<rparr>)"
    using assms(2) by (rule sem_readyE)
  show ?thesis
    using find_no_file [OF assms(1,3-5)] find_free_entry [OF assms(1)] assms(6,7) n
      dir_okD(1,4) [OF assms(1)]
    by (simp add: fopen_locked_def table_index_def)
qed

lemma fopen_locked_full:
  assumes "dir_ok s" and "sem_ready s" and "terminated nm" and "cstr nm \<notin> set (dir_names s)"
    and "cstr nm \<noteq> []" and "length (dir_names s) = 100"
  shows "fopen_locked nm mem s = Inr (-1, s)"
proof -
  obtain n where n: "disk_access s" "sem s = Some (Suc n)" "sem_wait s = Inr (s\<lparr>sem := Some n\<rparr>)"
    using assms(2) by (rule sem_readyE)
  show ?thesis
    using find_no_file [OF assms(1,3-5)] find_no_free_entry [OF assms(1,6)] n
    by (simp add: fopen_locked_def)
qed

lemma dir_names_fields:
  "dir_names (s\<lparr>unk := u\<rparr>) = dir_names s" "dir_names (upd_inode k f s) = dir_names s"
  "dir_names (upd_fd k g s) = dir_names s" "dir_names (s\<lparr>sem := v\<rparr>) = dir_names s"
  by (simp_all add: dir_names_def)

lemma globals_ok_fields:
  "globals_ok (s\<lparr>unk := u\<rparr>) = globals_ok s" "globals_ok (upd_inode k f s) = globals_ok s"
  "globals_ok (upd_fd k g s) = globals_ok s" "globals_ok (s\<lparr>sem := v\<rparr>) = globals_ok s"
  by (simp_all add: globals_ok_def)

lemma dir_ok_fields [simp]:
  "dir_ok (s\<lparr>unk := u\<rparr>) = dir_ok s" "dir_ok (upd_inode k f s) = dir_ok s"
  "dir_ok (upd_fd k g s) = dir_ok s" "dir_ok (s\<lparr>sem := v\<rparr>) = dir_ok s"
  by (simp_all add: dir_ok_def dir_names_fields globals_ok_fields)

lemma takeWhile_names: "[] \<notin> set ns \<Longrightarrow> takeWhile (\<lambda>n. n \<noteq> []) (ns @ replicate k []) = ns"
  by (induction ns) (auto simp: takeWhile_eq_Nil_iff)

text \<open>A new entry is a new name at the end of the abstract directory.\<close>

lemma dir_new_entry:
  assumes "dir_ok s" and "length (dir_names s) = k" and "k < 100" and "length mem = 21" and "terminated mem"
    and "cstr mem \<noteq> []" and "cstr mem \<notin> set (dir_names s)"
  shows "dir_ok (upd_dir k (\<lambda>d. d\<lparr>name := mem\<rparr>) s)"
    and "dir_names (upd_dir k (\<lambda>d. d\<lparr>name := mem\<rparr>) s) = dir_names s @ [cstr mem]"
proof -
  note d = dir_okD [OF assms(1)]
  let ?s = "upd_dir k (\<lambda>d. d\<lparr>name := mem\<rparr>) s"
  have "100 - k = Suc (99 - k)" using assms(3) by simp
  then have e: "entry_names (rootDir ?s) = (dir_names s @ [cstr mem]) @ replicate (99 - k) []"
    using d(1,6) assms(2,3) by (simp add: list_update_append)
  then show names: "dir_names ?s = dir_names s @ [cstr mem]"
    using takeWhile_names [of "dir_names s @ [cstr mem]" "99 - k"] Nil_notin_dir_names [of s] assms(6)
    by (simp add: dir_names_def)
  have fits: "dirent_fits d" if "d \<in> set (rootDir s)" for d
    using assms(1) that by (simp add: dir_ok_def globals_ok_def)
  have "\<forall>d\<in>set (rootDir ?s). dirent_fits d \<and> terminated (name d)"
    using set_update_subset_insert [of "rootDir s" k "(rootDir s ! k)\<lparr>name := mem\<rparr>"] fits d(1,5) assms(3,4,5)
    by (auto simp: dirent_fits_def dest!: subsetD)
  moreover have "globals_ok s" using assms(1) by (simp add: dir_ok_def)
  ultimately show "dir_ok ?s"
    using d(1,4,7) names e assms(2,3,7) by (simp add: dir_ok_def globals_ok_def nth_list_update)
qed

text \<open>The abstract specification of opening, on the list of names.\<close>

definition spec_open :: "byte list list \<Rightarrow> byte list \<Rightarrow> int \<times> byte list list" where
  "spec_open ns n =
     (if n \<in> set ns then (int (length (takeWhile (\<lambda>m. m \<noteq> n) ns)), ns)
      else if length ns < 100 then (int (length ns), ns @ [n]) else (-1, ns))"

lemma first_index: "n \<in> set ns \<Longrightarrow> length (takeWhile (\<lambda>m. m \<noteq> n) ns) < length ns \<and>
    ns ! length (takeWhile (\<lambda>m. m \<noteq> n) ns) = n"
  by (induction ns) auto

lemma fopen_locked_refines:
  assumes "dir_ok s" and "sem_ready s" and "terminated nm" and "cstr nm \<noteq> []"
    and "length mem = 21" and "terminated mem" and "cstr mem = cstr nm"
  shows "\<exists>r s'. fopen_locked nm mem s = Inr (r, s') \<and> dir_ok s' \<and>
    (r, dir_names s') = spec_open (dir_names s) (cstr nm)"
proof (cases "cstr nm \<in> set (dir_names s)")
  case True
  note idx = first_index [OF True]
  show ?thesis
    using fopen_locked_existing [OF assms(1-3) idx [THEN conjunct1] idx [THEN conjunct2], of mem] True assms(1)
    by (simp add: spec_open_def dir_names_fields)
next
  case new: False
  show ?thesis
  proof (cases "length (dir_names s) < 100")
    case True
    then show ?thesis
      using fopen_locked_new [OF assms(1-3) new assms(4) refl True, of mem]
        dir_new_entry [OF assms(1) refl True assms(5,6)] new assms(4,7)
      by (simp add: spec_open_def dir_names_fields)
  next
    case False
    then have "length (dir_names s) = 100" using length_dir_names [OF assms(1)] by simp
    then show ?thesis
      using fopen_locked_full [OF assms(1-3) new assms(4)] new assms(1) by (simp add: spec_open_def)
  qed
qed

subsection \<open>The other operations\<close>

lemma getfilesize_ok:
  assumes "dir_ok s" and "sem_ready s" and "terminated nm" and "i < length (dir_names s)" and "dir_names s ! i = cstr nm"
  shows "sfs_getfilesize nm s = Inr (s32 (int (isize (inode_table s ! i))), s)"
proof -
  have i: "i < 100" using assms(4) length_dir_names [OF assms(1)] by simp
  obtain n where n: "disk_access s" "sem s = Some (Suc n)" "sem_wait s = Inr (s\<lparr>sem := Some n\<rparr>)"
    using assms(2) by (rule sem_readyE)
  show ?thesis
    using find_file [OF assms(1,3-5)] i n dir_okD(4) [OF assms(1) i] by (simp add: sfs_getfilesize_def)
qed

lemma getfilesize_none:
  assumes "dir_ok s" and "sem_ready s" and "terminated nm" and "cstr nm \<notin> set (dir_names s)" and "cstr nm \<noteq> []"
  shows "sfs_getfilesize nm s = Inr (-1, s)"
proof -
  obtain n where n: "disk_access s" "sem s = Some (Suc n)" "sem_wait s = Inr (s\<lparr>sem := Some n\<rparr>)"
    using assms(2) by (rule sem_readyE)
  show ?thesis using find_no_file [OF assms(1,3-5)] n by (simp add: sfs_getfilesize_def)
qed

lemma fclose_open:
  assumes "sem_ready s" and "k < 100" and "mode (inode_table s ! k) \<noteq> 1"
  shows "sfs_fclose (int k) s = Inr (0, upd_inode k (\<lambda>n. n\<lparr>mode := 1\<rparr>) s)"
proof -
  obtain n where "disk_access s" "sem s = Some (Suc n)" "sem_wait s = Inr (s\<lparr>sem := Some n\<rparr>)"
    using assms(1) by (rule sem_readyE)
  then show ?thesis using assms(2,3) by (simp add: sfs_fclose_def)
qed

lemma fclose_closed:
  assumes "sem_ready s" and "k < 100" and "mode (inode_table s ! k) = 1"
  shows "sfs_fclose (int k) s = Inr (-1, s)"
proof -
  obtain n where "disk_access s" "sem s = Some (Suc n)" "sem_wait s = Inr (s\<lparr>sem := Some n\<rparr>)"
    using assms(1) by (rule sem_readyE)
  then show ?thesis using assms(2,3) by (simp add: sfs_fclose_def)
qed

text \<open>\<open>sfs_fseek\<close> sets the position of any descriptor, open or not; what it returns is indeterminate.\<close>

lemma fseek_ok:
  assumes "sem_ready s" and "k < 100"
  shows "\<exists>r u. sfs_fseek (int k) loc s = Inr (r, (upd_fd k (\<lambda>f. f\<lparr>rwptr := u64 loc\<rparr>) s)\<lparr>unk := u\<rparr>)"
proof -
  obtain n where "disk_access s" "sem s = Some (Suc n)" "sem_wait s = Inr (s\<lparr>sem := Some n\<rparr>)"
    using assms(1) by (rule sem_readyE)
  then show ?thesis using assms(2) by (simp add: sfs_fseek_def indet_int_def indet_def) blast
qed

text \<open>
  Going through the directory: with a file behind the current one the current name is
  returned and the index moves on; at the last file the result is 0, which callers take
  for the end, although the last name has been stored too.
\<close>

text \<open>A call of \<open>sfs_getnextfilename\<close> that does not return 0 has moved the index on by one.\<close>

lemma getnextfilename_progress:
  assumes "sfs_getnextfilename f s = Inr (r, f', s')" and "r \<noteq> 0"
  shows "c_mod (rootDir_ptr s') 100 = c_mod (rootDir_ptr s) 100 + 1" and "c_mod (rootDir_ptr s) 100 < 99"
proof -
  let ?p = "if c_mod (rootDir_ptr s) 100 = 99 then -1 else c_mod (rootDir_ptr s) 100"
  have ptr: "rootDir_ptr (t\<lparr>sem := v\<rparr>) = rootDir_ptr t" for t :: sfs and v by simp
  obtain s1 where s1: "sem_wait s = Inr s1" using assms(1) by (auto simp: sfs_getnextfilename_def rbind_Inr_iff)
  then have p1: "rootDir_ptr s1 = rootDir_ptr s" by (auto simp: sem_wait_def rbind_Inr_iff split: if_splits)
  have run: "\<exists>nxt cur. table_index (?p + 1) = Inr nxt \<and> table_index ?p = Inr cur \<and> rootDir_ptr s' = ?p + 1"
    using assms s1 p1 unfolding sfs_getnextfilename_def Let_def
    by (auto simp: rbind_Inr_iff sem_post_def split: if_splits)
  then have "0 \<le> ?p \<and> ?p + 1 < 100" by (auto simp: table_index_def split: if_splits)
  then have "c_mod (rootDir_ptr s) 100 \<noteq> 99" "0 \<le> c_mod (rootDir_ptr s) 100" "c_mod (rootDir_ptr s) 100 < 99"
    by (auto split: if_splits)
  moreover from this have "rootDir_ptr s' = c_mod (rootDir_ptr s) 100 + 1" using run by auto
  ultimately show "c_mod (rootDir_ptr s') 100 = c_mod (rootDir_ptr s) 100 + 1" "c_mod (rootDir_ptr s) 100 < 99"
    by simp_all
qed

lemma getnextfilename_more:
  assumes "dir_ok s" and "sem_ready s" and "rootDir_ptr s = int p" and "Suc p < length (dir_names s)"
    and "21 \<le> length fname"
  shows "sfs_getnextfilename fname s = Inr (int (Suc p),
    dir_names s ! p @ 0 # drop (Suc (length (dir_names s ! p))) fname, s\<lparr>rootDir_ptr := int (Suc p)\<rparr>)"
proof -
  note d = dir_okD [OF assms(1)]
  have p: "Suc p < 100" using assms(4) length_dir_names [OF assms(1)] by simp
  obtain n where n: "disk_access s" "sem s = Some (Suc n)" "sem_wait s = Inr (s\<lparr>sem := Some n\<rparr>)"
    using assms(2) by (rule sem_readyE)
  have nth: "cstr (name (rootDir s ! k)) = dir_names s ! k" if "k < length (dir_names s)" for k
    using that d(1) length_dir_names [OF assms(1)]
    by (simp add: nth_entry_names [symmetric] d(6) nth_append)
  have t: "terminated (name (rootDir s ! k))" "length (name (rootDir s ! k)) = 21" if "k < 100" for k
    using that d(1,5) assms(1) by (auto simp: dir_ok_def globals_ok_def dirent_fits_def)
  have "dir_names s ! Suc p \<noteq> []" using Nil_notin_dir_names [of s] assms(4) by (metis nth_mem)
  then have e: "c_streq [0] (name (rootDir s ! Suc p)) = Inr False"
    using t(1) [OF p] nth [OF assms(4)] by (simp add: c_streq_terminated)
  have "length (cstr (name (rootDir s ! p))) < length fname"
    using length_cstr_less [of "name (rootDir s ! p)"] t [of p] p assms(5) by simp
  then have cp: "c_strcpy fname (name (rootDir s ! p)) = Inr (dir_names s ! p @ 0 # drop (Suc (length (dir_names s ! p))) fname)"
    using t(1) [of p] p nth [of p] assms(4) by (simp add: c_strcpy_ok)
  have idx: "table_index (int p + 1) = Inr (Suc p)" using table_index_ok [OF p] by (simp add: add.commute)
  have m: "int p mod 100 = int p" using p by simp
  show ?thesis using n p assms(3) e cp idx m by (simp add: sfs_getnextfilename_def Let_def)
qed

lemma getnextfilename_last:
  assumes "dir_ok s" and "sem_ready s" and "rootDir_ptr s = int p" and "length (dir_names s) \<le> Suc p" and "p < 99"
    and "21 \<le> length fname"
  shows "\<exists>fname'. sfs_getnextfilename fname s = Inr (0, fname', s)"
proof -
  note d = dir_okD [OF assms(1)]
  obtain n where n: "disk_access s" "sem s = Some (Suc n)" "sem_wait s = Inr (s\<lparr>sem := Some n\<rparr>)"
    using assms(2) by (rule sem_readyE)
  have t: "terminated (name (rootDir s ! k))" "length (name (rootDir s ! k)) = 21" if "k < 100" for k
    using that d(1,5) assms(1) by (auto simp: dir_ok_def globals_ok_def dirent_fits_def)
  have "entry_names (rootDir s) ! Suc p = []" using assms(4,5) unfolding d(6) by (simp add: nth_append)
  then have e: "c_streq [0] (name (rootDir s ! Suc p)) = Inr True"
    using t(1) [of "Suc p"] assms(5) d(1) by (simp add: c_streq_terminated nth_entry_names)
  have "length (cstr (name (rootDir s ! p))) < length fname"
    using length_cstr_less [of "name (rootDir s ! p)"] t [of p] assms(5,6) by simp
  then obtain f where cp: "c_strcpy fname (name (rootDir s ! p)) = Inr f"
    using t(1) [of p] assms(5) by (simp add: c_strcpy_ok)
  have idx: "table_index (int p + 1) = Inr (Suc p)" using table_index_ok [of "Suc p"] assms(5) by (simp add: add.commute)
  have m: "int p mod 100 = int p" using assms(5) by simp
  show ?thesis using n assms(3,5) e cp idx m by (simp add: sfs_getnextfilename_def Let_def)
qed

end
