(* ===== verification/Sfs_Data.thy ===== *)
theory Sfs_Data
  imports Sfs_Dir
begin

text \<open>
  Reading and writing files: \<open>write_partblock\<close>, \<open>write_helper\<close>, \<open>read_partblock\<close>,
  \<open>read_helper\<close>, \<open>sfs_fread\<close> and \<open>sfs_fwrite\<close> of \<^verbatim>\<open>file_system/sfs_api.c\<close>.
  \<open>blockNums\<close>, the array of block numbers that both operations build with \<open>malloc\<close>,
  is kept as the list of its 1072 bytes, because \<open>sfs_fwrite\<close> fills a part of it by a
  byte count.
\<close>

subsection \<open>Arrays of \<open>int\<close> as bytes\<close>

definition int_at :: "byte list \<Rightarrow> int \<Rightarrow> int result" where
  "int_at arr k =
     (if 0 \<le> k \<and> 4 * nat k + 4 \<le> length arr
      then Inr (s32 (int (le_nat (slice arr (4 * nat k) 4)))) else Inl OutOfBounds)"

definition ints_bytes :: "nat list \<Rightarrow> byte list" where
  "ints_bytes xs = concat (map (le_bytes 4) xs)"

subsection \<open>Writing bytes to a list of blocks\<close>

definition write_partblock :: "int \<Rightarrow> byte list \<Rightarrow> nat \<Rightarrow> nat \<Rightarrow> sfs \<Rightarrow> sfs result" where
  "write_partblock block buffer byteOffset numBytes s =
     (let (readbuf, s1) = indet 1024 s in
      rbind (read_blocks block 1 readbuf 0 s1) (\<lambda>(r, rb, s2).
      let (src, s3) = load_mem numBytes buffer s2 in
      rbind (store_mem rb byteOffset src) (\<lambda>rb'.
      rbind (write_blocks block 1 rb' s3) (\<lambda>(w, s4). Inr s4))))"

text \<open>
  The loop of \<open>write_helper\<close> and the partial block behind it: \<open>bufptr\<close> is what is left
  of the copied buffer, \<open>x\<close> the index of the next block number.
\<close>

function write_rest :: "nat \<Rightarrow> nat \<Rightarrow> byte list \<Rightarrow> byte list \<Rightarrow> int \<Rightarrow> sfs \<Rightarrow> (nat \<times> sfs) result" where
  "write_rest numBytes writtenBytes bufptr blockNums x s =
     (if writtenBytes + 1024 < numBytes
      then rbind (int_at blockNums x) (\<lambda>b.
           rbind (write_blocks b 1 bufptr s) (\<lambda>(r, s1).
           write_rest numBytes (writtenBytes + 1024) (drop 1024 bufptr) blockNums (x + 1) s1))
      else let veryLastBytes = numBytes - writtenBytes
      in if veryLastBytes > 0
      then rbind (int_at blockNums x) (\<lambda>b.
           rbind (write_partblock b bufptr 0 veryLastBytes s) (\<lambda>s1.
           Inr (writtenBytes + veryLastBytes, s1)))
      else Inr (writtenBytes, s))"
  by pat_completeness auto
termination
  by (relation "measure (\<lambda>(n, w, _). n - w)") auto

declare write_rest.simps [simp del]

text \<open>
  A negative \<open>numBytes\<close> becomes a huge \<open>size_t\<close>: \<open>malloc\<close> returns \<open>NULL\<close> and the
  copy into it is the first access.
\<close>

definition write_helper :: "byte list \<Rightarrow> int \<Rightarrow> byte list \<Rightarrow> nat \<Rightarrow> int \<Rightarrow> sfs \<Rightarrow> (nat \<times> sfs) result" where
  "write_helper buffer numBytes blockNums offset start s =
     (if numBytes < 0 then Inl NullDeref
      else let n = nat numBytes; (bufptr, s1) = load_mem n buffer s; remainingBytes = min n (1024 - offset)
      in rbind (int_at blockNums start) (\<lambda>b.
         rbind (write_partblock b bufptr offset remainingBytes s1) (\<lambda>s2.
         write_rest n remainingBytes (drop remainingBytes bufptr) blockNums (start + 1) s2)))"

subsection \<open>Reading bytes from a list of blocks\<close>

text \<open>The destination is the object \<open>dst\<close>, of which \<open>pos\<close> bytes have been filled.\<close>

definition read_partblock :: "int \<Rightarrow> byte list \<Rightarrow> nat \<Rightarrow> nat \<Rightarrow> int \<Rightarrow> sfs \<Rightarrow> (byte list \<times> sfs) result" where
  "read_partblock block dst pos offset numBytes s =
     (let (readbuf, s1) = indet 1024 s in
      rbind (read_blocks block 1 readbuf 0 s1) (\<lambda>(r, rb, s2).
      if numBytes < 0 then Inl OutOfBounds
      else let (src, s3) = load_mem (nat numBytes) (drop offset rb) s2 in
      rbind (store_mem dst pos src) (\<lambda>dst'. Inr (dst', s3))))"

function read_rest :: "nat \<Rightarrow> nat \<Rightarrow> byte list \<Rightarrow> byte list \<Rightarrow> int \<Rightarrow> sfs \<Rightarrow> (byte list \<times> sfs) result" where
  "read_rest numBytes readBytes dst blockNums x s =
     (if readBytes + 1024 < numBytes
      then rbind (int_at blockNums x) (\<lambda>b.
           rbind (read_blocks b 1 dst readBytes s) (\<lambda>(r, dst', s1).
           read_rest numBytes (readBytes + 1024) dst' blockNums (x + 1) s1))
      else let veryLastBytes = numBytes - readBytes
      in if 0 < veryLastBytes
      then rbind (int_at blockNums x) (\<lambda>b. read_partblock b dst readBytes 0 (int veryLastBytes) s)
      else Inr (dst, s))"
  by pat_completeness auto
termination
  by (relation "measure (\<lambda>(n, w, _). n - w)") auto

declare read_rest.simps [simp del]

definition read_helper :: "byte list \<Rightarrow> int \<Rightarrow> byte list \<Rightarrow> nat \<Rightarrow> int \<Rightarrow> sfs \<Rightarrow> (byte list \<times> sfs) result" where
  "read_helper buffer numBytes blockNums offset start s =
     (let remainingBytes = min numBytes (1024 - int offset) in
      rbind (int_at blockNums start) (\<lambda>b.
      rbind (read_partblock b buffer 0 offset remainingBytes s) (\<lambda>(dst, s1).
      read_rest (nat numBytes) (nat remainingBytes) dst blockNums (start + 1) s1)))"

subsection \<open>The block numbers of a file\<close>

text \<open>The number of block numbers in the indirect block; the subtraction is on \<open>unsigned int\<close>.\<close>

definition num_ind_ptrs :: "nat \<Rightarrow> nat" where
  "num_ind_ptrs sz =
     (let d = u32 (int sz - 12 * 1024) in if d mod 1024 > 0 then d div 1024 + 1 else d div 1024)"

text \<open>The loop over the direct pointers, which stops at the first zero.\<close>

fun load_direct :: "nat list \<Rightarrow> nat \<Rightarrow> byte list \<Rightarrow> nat \<times> byte list" where
  "load_direct [] i blockNums = (i, blockNums)"
| "load_direct (p # ps) i blockNums =
     (if p = 0 then (i, blockNums) else load_direct ps (Suc i) (overwrite blockNums (4 * i) (le_bytes 4 p)))"

definition fread_blocknums :: "nat \<Rightarrow> sfs \<Rightarrow> (byte list \<times> sfs) result" where
  "fread_blocknums k s =
     (let (blockNums, s1) = indet 1072 s; n = inode_table s1 ! k in
      if indirectPointer n = 0 then Inr (snd (load_direct (data_ptrs n) 0 blockNums), s1)
      else let bn1 = overwrite blockNums 0 (ints_bytes (data_ptrs n)); (indirectblock, s2) = indet 1024 s1 in
      rbind (read_blocks (s32 (int (indirectPointer n))) 1 indirectblock 0 s2) (\<lambda>(r, ib, s3).
      let (src, s4) = load_mem (4 * num_ind_ptrs (isize n)) ib s3 in
      rbind (store_mem bn1 48 src) (\<lambda>bn2. Inr (bn2, s4))))"

text \<open>
  \<open>sfs_fwrite\<close> does the same, except that the last \<open>memcpy\<close> copies
  \<open>numIndPtrs\<close> bytes where \<open>sfs_fread\<close> copies \<open>numIndPtrs\<close> integers. It also returns
  \<open>numBlocks\<close>, \<open>indir_ptr\<close> and \<open>dirp_ptr\<close>.
\<close>

definition fwrite_blocknums :: "nat \<Rightarrow> sfs \<Rightarrow> (byte list \<times> nat \<times> nat \<times> nat \<times> sfs) result" where
  "fwrite_blocknums k s =
     (let (blockNums, s1) = indet 1072 s; n = inode_table s1 ! k in
      if indirectPointer n = 0
      then let (numBlocks, bn) = load_direct (data_ptrs n) 0 blockNums in Inr (bn, numBlocks, 0, numBlocks, s1)
      else let bn1 = overwrite blockNums 0 (ints_bytes (data_ptrs n)); (indirectblock, s2) = indet 1024 s1 in
      rbind (read_blocks (s32 (int (indirectPointer n))) 1 indirectblock 0 s2) (\<lambda>(r, ib, s3).
      let numIndPtrs = num_ind_ptrs (isize n); (src, s4) = load_mem numIndPtrs ib s3 in
      rbind (store_mem bn1 48 src) (\<lambda>bn2. Inr (bn2, 12 + numIndPtrs, numIndPtrs, 12, s4))))"

subsection \<open>Reading a file\<close>

definition sfs_fread :: "int \<Rightarrow> byte list \<Rightarrow> int \<Rightarrow> sfs \<Rightarrow> (int \<times> byte list \<times> sfs) result" where
  "sfs_fread fileID buf len s =
     rbind (sem_wait s) (\<lambda>s1.
     rbind (table_index fileID) (\<lambda>k.
     if mode (inode_table s1 ! k) = 1 then rbind (sem_post s1) (\<lambda>s2. Inr (-1, buf, s2))
     else let numBytes = len; rw = rwptr (fd_table s1 ! k)
     in if isize (inode_table s1 ! k) < u64 (int rw + numBytes)
     then rbind (sem_post s1) (\<lambda>s2. Inr (-1, buf, s2))
     else rbind (fread_blocknums k s1) (\<lambda>(blockNums, s2).
          rbind (read_helper buf numBytes blockNums (rw mod 1024) (s32 (int (rw div 1024))) s2) (\<lambda>(buf', s3).
          rbind (sem_post (upd_fd k (\<lambda>f. f\<lparr>rwptr := u64 (int rw + numBytes)\<rparr>) s3)) (\<lambda>s4.
          Inr (numBytes, buf', s4))))))"

subsection \<open>Growing a file\<close>

text \<open>
  The loop that takes \<open>n\<close> new blocks: the numbers go to \<open>blockNums\<close> from index \<open>x\<close> on
  and to \<open>store_blk\<close>. The flag is \<open>False\<close> when \<open>get_index\<close> returned 0, with the blocks
  taken so far.
\<close>

fun alloc_loop :: "nat \<Rightarrow> nat \<Rightarrow> byte list \<Rightarrow> bitmap \<Rightarrow> (nat list \<times> bool \<times> byte list \<times> bitmap) result" where
  "alloc_loop 0 x blockNums m = Inr ([], True, blockNums, m)"
| "alloc_loop (Suc n) x blockNums m =
     rbind (get_index m) (\<lambda>(numbuffer, m1).
     if numbuffer = 0 then Inr ([], False, blockNums, m1)
     else rbind (store_mem blockNums (4 * x) (le_bytes 4 numbuffer)) (\<lambda>bn1.
          rbind (alloc_loop n (Suc x) bn1 m1) (\<lambda>(store_blk, ok, bn2, m2).
          Inr (numbuffer # store_blk, ok, bn2, m2))))"

text \<open>The new numbers enter the inode: the branch on \<open>indir_flag\<close>.\<close>

definition add_indirect :: "nat \<Rightarrow> nat \<Rightarrow> nat list \<Rightarrow> sfs \<Rightarrow> sfs result" where
  "add_indirect k indir_ptr store_blk s =
     (let ip = s32 (int (indirectPointer (inode_table s ! k))); (readbuffer, s1) = indet 1024 s in
      rbind (read_blocks ip 1 readbuffer 0 s1) (\<lambda>(r, rb, s2).
      rbind (store_mem rb (4 * indir_ptr) (ints_bytes store_blk)) (\<lambda>rb'.
      rbind (write_blocks ip 1 rb' s2) (\<lambda>(w, s3). Inr s3))))"

definition add_direct :: "nat \<Rightarrow> nat \<Rightarrow> nat list \<Rightarrow> sfs \<Rightarrow> sfs result" where
  "add_direct k dirp_ptr store_blk s =
     (if length store_blk \<le> 12 - dirp_ptr
      then Inr (upd_inode k (\<lambda>n. n\<lparr>data_ptrs := overwrite (data_ptrs n) dirp_ptr store_blk\<rparr>) s)
      else rbind (get_index (free_bit_map s)) (\<lambda>(ib, m).
           let s1 = upd_inode k (\<lambda>n. n\<lparr>indirectPointer := ib\<rparr>) (s\<lparr>free_bit_map := m\<rparr>);
               s2 = upd_inode k (\<lambda>n. n\<lparr>data_ptrs :=
                      overwrite (data_ptrs n) dirp_ptr (take (12 - dirp_ptr) store_blk)\<rparr>) s1;
               writebuffer = ints_bytes (drop (12 - dirp_ptr) store_blk)
           in rbind (write_blocks (s32 (int ib)) 1 writebuffer s2) (\<lambda>(w, s3). Inr s3)))"

text \<open>
  The blocks a write up to byte \<open>new_end\<close> needs beyond the \<open>numBlocks\<close> there are. The
  result is \<open>None\<close> when the disk is full.
\<close>

definition new_blocks :: "nat \<Rightarrow> nat \<Rightarrow> nat" where
  "new_blocks new_end numBlocks =
     (let d = new_end - numBlocks * 1024 in if d mod 1024 = 0 then d div 1024 else d div 1024 + 1)"

definition fwrite_grow :: "nat \<Rightarrow> nat \<Rightarrow> byte list \<Rightarrow> nat \<Rightarrow> nat \<Rightarrow> nat \<Rightarrow> bool \<Rightarrow> sfs
    \<Rightarrow> (byte list option \<times> sfs) result" where
  "fwrite_grow k new_end blockNums numBlocks indir_ptr dirp_ptr indir_flag s =
     (if numBlocks * 1024 < new_end
      then rbind (alloc_loop (new_blocks new_end numBlocks) numBlocks blockNums (free_bit_map s))
             (\<lambda>(store_blk, ok, bn, m).
           let s1 = s\<lparr>free_bit_map := m\<rparr> in
           if \<not> ok then Inr (None, s1)
           else if indir_flag then rbind (add_indirect k indir_ptr store_blk s1) (\<lambda>s2. Inr (Some bn, s2))
           else rbind (add_direct k dirp_ptr store_blk s1) (\<lambda>s2. Inr (Some bn, s2)))
      else Inr (Some blockNums, s))"

subsection \<open>Writing a file\<close>

definition sfs_fwrite :: "int \<Rightarrow> byte list \<Rightarrow> int \<Rightarrow> sfs \<Rightarrow> (int \<times> sfs) result" where
  "sfs_fwrite fileID buf len s =
     rbind (sem_wait s) (\<lambda>s1.
     rbind (table_index fileID) (\<lambda>k.
     let rw = rwptr (fd_table s1 ! k); new_end = u64 (len + int rw) in
     if new_end > 274432 then post_return (-1) s1
     else if mode (inode_table s1 ! k) = 1 then post_return (-1) s1
     else let indir_flag = (indirectPointer (inode_table s1 ! k) \<noteq> 0) in
          rbind (fwrite_blocknums k s1) (\<lambda>(blockNums, numBlocks, indir_ptr, dirp_ptr, s2).
          rbind (fwrite_grow k new_end blockNums numBlocks indir_ptr dirp_ptr indir_flag s2) (\<lambda>(grown, s3).
          case grown of
            None \<Rightarrow> post_return (-1) s3
          | Some bn \<Rightarrow>
              rbind (write_helper buf len bn (rw mod 1024) (s32 (int (rw div 1024))) s3) (\<lambda>(writtenBytes, s4).
              let s5 = (if new_end > isize (inode_table s4 ! k)
                        then upd_inode k (\<lambda>n. n\<lparr>isize := u32 (int new_end)\<rparr>) s4 else s4);
                  s6 = upd_fd k (\<lambda>f. f\<lparr>rwptr := u64 (int rw + int writtenBytes)\<rparr>) s5
              in post_return (int writtenBytes) s6)))))"

subsection \<open>What one transfer does\<close>

text \<open>Transfers change the disk contents, the position of the stream and the supply of indeterminate bytes.\<close>

definition upd_io :: "byte stream \<Rightarrow> (nat \<Rightarrow> byte) \<Rightarrow> nat \<Rightarrow> sfs \<Rightarrow> sfs" where
  "upd_io u c f s = s\<lparr>unk := u, content := c, fpos := f\<rparr>"

lemma upd_io_fields [simp]:
  "content (upd_io u c f s) = c" "unk (upd_io u c f s) = u" "fpos (upd_io u c f s) = f"
  "free_bit_map (upd_io u c f s) = free_bit_map s" "inode_table (upd_io u c f s) = inode_table s"
  "fd_table (upd_io u c f s) = fd_table s" "rootDir (upd_io u c f s) = rootDir s"
  "rootDir_ptr (upd_io u c f s) = rootDir_ptr s" "sem (upd_io u c f s) = sem s"
  "disk_access (upd_io u c f s) = disk_access s" "disk_ready (upd_io u c f s) = disk_ready s"
  by (simp_all add: upd_io_def disk_ready_def)

lemma upd_io_upd_io [simp]: "upd_io u c f (upd_io u' c' f' s) = upd_io u c f s"
  by (simp add: upd_io_def)

lemma upd_io_self [simp]: "upd_io (unk s) (content s) (fpos s) s = s"
  by (simp add: upd_io_def)

lemma upd_io_ex: "\<exists>u f. s = upd_io u (content s) f s"
  by (metis upd_io_self)

lemma upd_io_unk: "s\<lparr>unk := u\<rparr> = upd_io u (content s) (fpos s) s"
  by (simp add: upd_io_def)

lemma read1:
  "disk_ready s \<Longrightarrow> b < 1024 \<Longrightarrow> off + 1024 \<le> length dst \<Longrightarrow>
   \<exists>u f. read_blocks (int b) 1 dst off s = Inr (1, overwrite dst off (block_bytes s b), upd_io u (content s) f s)"
proof -
  assume "disk_ready s" "b < 1024" "off + 1024 \<le> length dst"
  then have "read_blocks (int b) 1 dst off s =
      Inr (1, overwrite dst off (block_bytes s b), upd_io (sdrop 1024 (unk s)) (content s) (b * 1024 + 1024) s)"
    by (simp add: read_block_ok upd_io_def)
  then show ?thesis by blast
qed

lemma read1_fresh:
  assumes "disk_ready s" and "b < 1024"
  shows "\<exists>u f. read_blocks (int b) 1 (stake 1024 (unk s)) 0 (s\<lparr>unk := sdrop 1024 (unk s)\<rparr>) =
    Inr (1, block_bytes s b, upd_io u (content s) f s)"
proof -
  let ?s1 = "upd_io (sdrop 1024 (unk s)) (content s) (fpos s) s"
  have "disk_ready ?s1" using assms(1) by simp
  from read1 [OF this assms(2), of 0 "stake 1024 (unk s)"] show ?thesis
    by (simp add: upd_io_unk block_bytes_def)
qed

lemma write1:
  "disk_ready s \<Longrightarrow> b < 1024 \<Longrightarrow> length src = 1024 \<Longrightarrow>
   \<exists>u f. write_blocks (int b) 1 src s = Inr (1, upd_io u (put_at (content s) (b * 1024) src) f s)"
proof -
  assume "disk_ready s" "b < 1024" "length src = 1024"
  then have "write_blocks (int b) 1 src s =
      Inr (1, upd_io (unk s) (put_at (content s) (b * 1024) src) (b * 1024 + 1024) s)"
    by (simp add: write_block_ok upd_io_def)
  then show ?thesis by blast
qed

lemma write1_long:
  assumes "disk_ready s" and "b < 1024" and "1024 \<le> length src"
  shows "\<exists>u f. write_blocks (int b) 1 src s = Inr (1, upd_io u (put_at (content s) (b * 1024) (take 1024 src)) f s)"
proof -
  have "write_blocks (int b) 1 src s =
      Inr (1, upd_io (unk s) (put_at (content s) (b * 1024) (take 1024 src)) (b * 1024 + 1024) s)"
    using assms write_blocks_ok [of s b 1 src] by (simp add: upd_io_def)
  then show ?thesis by blast
qed

lemma slice_block_bytes: "offset + n \<le> 1024 \<Longrightarrow>
    take n (drop offset (block_bytes s b)) = bytes_at (content s) (b * 1024 + offset) n"
  by (simp add: block_bytes_def drop_bytes_at take_bytes_at min_absorb1)

lemma read_partblock_ok:
  assumes "disk_ready s" and "b < 1024" and "offset + n \<le> 1024" and "pos + n \<le> length dst"
  shows "\<exists>u f. read_partblock (int b) dst pos offset (int n) s =
    Inr (overwrite dst pos (bytes_at (content s) (b * 1024 + offset) n), upd_io u (content s) f s)"
proof -
  let ?s1 = "s\<lparr>unk := sdrop 1024 (unk s)\<rparr>"
  obtain u f where rd: "read_blocks (int b) 1 (stake 1024 (unk s)) 0 ?s1 =
      Inr (1, block_bytes s b, upd_io u (content s) f s)"
    using read1_fresh [OF assms(1,2)] by blast
  show ?thesis
    using assms(3,4) rd
    by (simp add: read_partblock_def indet_def slice_block_bytes store_mem_def) blast
qed

lemma write_partblock_ok:
  assumes "disk_ready s" and "b < 1024" and "off + n \<le> 1024" and "n \<le> length data"
  shows "\<exists>u f. write_partblock (int b) data off n s =
    Inr (upd_io u (put_at (content s) (b * 1024 + off) (take n data)) f s)"
proof -
  let ?s1 = "s\<lparr>unk := sdrop 1024 (unk s)\<rparr>"
  obtain u f where rd: "read_blocks (int b) 1 (stake 1024 (unk s)) 0 ?s1 =
      Inr (1, block_bytes s b, upd_io u (content s) f s)"
    using read1_fresh [OF assms(1,2)] by blast
  let ?rb = "overwrite (block_bytes s b) off (take n data)"
  have "length ?rb = 1024" using assms(3,4) by simp
  then obtain v g where wr: "write_blocks (int b) 1 ?rb (upd_io u (content s) f s) =
      Inr (1, upd_io v (put_at (content s) (b * 1024) ?rb) g s)"
    using write1 [of "upd_io u (content s) f s" b ?rb] assms(1,2) by auto
  have "put_at (content s) (b * 1024) ?rb = put_at (content s) (b * 1024 + off) (take n data)"
    using assms(3,4) by (simp add: block_bytes_def put_at_overwrite_bytes_at)
  then show ?thesis
    using assms(3,4) rd wr by (auto simp: write_partblock_def indet_def store_mem_def)
qed

subsection \<open>Bytes of a file through its block numbers\<close>

text \<open>The disk address of byte \<open>p\<close> of a file whose \<open>j\<close>-th block is block \<open>b j\<close>.\<close>

definition addr :: "(nat \<Rightarrow> nat) \<Rightarrow> nat \<Rightarrow> nat" where
  "addr b p = b (p div 1024) * 1024 + p mod 1024"

definition file_at :: "(nat \<Rightarrow> byte) \<Rightarrow> (nat \<Rightarrow> nat) \<Rightarrow> nat \<Rightarrow> nat \<Rightarrow> byte list" where
  "file_at c b q n = map (\<lambda>i. c (addr b (q + i))) [0..<n]"

lemma length_file_at [simp]: "length (file_at c b q n) = n"
  by (simp add: file_at_def)

lemma nth_file_at [simp]: "i < n \<Longrightarrow> file_at c b q n ! i = c (addr b (q + i))"
  by (simp add: file_at_def)

lemma file_at_append: "file_at c b q m @ file_at c b (q + m) n = file_at c b q (m + n)"
  by (rule nth_equalityI) (auto simp: nth_append add.assoc)

lemma addr_block: "i < 1024 \<Longrightarrow> addr b (x * 1024 + i) = b x * 1024 + i"
  by (simp add: addr_def)

lemma file_at_block: "off + n \<le> 1024 \<Longrightarrow> file_at c b (x * 1024 + off) n = bytes_at c (b x * 1024 + off) n"
  by (rule nth_equalityI) (auto simp: addr_block add.assoc)

lemma addr_inj:
  assumes "addr b p = addr b q" and "inj_on b J" and "p div 1024 \<in> J" and "q div 1024 \<in> J"
  shows "p = q"
proof -
  have "p mod 1024 = addr b p mod 1024" "q mod 1024 = addr b q mod 1024" by (simp_all add: addr_def)
  moreover have "b (p div 1024) = addr b p div 1024" "b (q div 1024) = addr b q div 1024"
    by (simp_all add: addr_def)
  ultimately have "p mod 1024 = q mod 1024" "b (p div 1024) = b (q div 1024)"
    using assms(1) by simp_all
  moreover from this(2) have "p div 1024 = q div 1024" using assms(2-4) by (metis inj_onD)
  ultimately show ?thesis by (metis div_mult_mod_eq)
qed

text \<open>
  \<open>maps_to bn b J\<close>: the array \<open>bn\<close> holds block number \<open>b j\<close>, a block of the disk, at
  every index \<open>j\<close> of \<open>J\<close>.
\<close>

definition maps_to :: "byte list \<Rightarrow> (nat \<Rightarrow> nat) \<Rightarrow> nat set \<Rightarrow> bool" where
  "maps_to bn b J \<longleftrightarrow> (\<forall>j\<in>J. int_at bn (int j) = Inr (int (b j)) \<and> b j < 1024)"

text \<open>The block indices that the bytes \<open>q\<close> to \<open>q + n - 1\<close> touch.\<close>

definition touched :: "nat \<Rightarrow> nat \<Rightarrow> nat set" where
  "touched q n = {j. q div 1024 \<le> j \<and> j \<le> (q + n - 1) div 1024}"

lemma touched_mem: "i < n \<Longrightarrow> (q + i) div 1024 \<in> touched q n"
  by (auto simp: touched_def intro!: div_le_mono)

lemma touched_suffix:
  assumes "w \<le> n"
  shows "touched (q + w) (n - w) \<subseteq> touched q n"
proof -
  have "q div 1024 \<le> (q + w) div 1024" by (rule div_le_mono) simp
  moreover have "q + w + (n - w) - 1 = q + n - 1" using assms by simp
  ultimately show ?thesis unfolding touched_def by (auto intro: order_trans)
qed

subsection \<open>Reading through the block numbers\<close>

lemma int_at_maps: "maps_to bn b J \<Longrightarrow> j \<in> J \<Longrightarrow> x = int j \<Longrightarrow> int_at bn x = Inr (int (b j))"
  by (simp add: maps_to_def)

lemma block_start: "(q::nat) mod 1024 = 0 \<Longrightarrow> q div 1024 * 1024 + 0 = q"
  using div_mult_mod_eq [of q 1024] by simp

text \<open>The index behind a whole block.\<close>

lemma next_index:
  assumes "x = int ((q + w) div 1024)" and "(q + w) mod 1024 = 0"
  shows "x + 1 = int ((q + (w + 1024)) div 1024)" and "(q + (w + 1024)) mod 1024 = 0"
  using assms div_add_self2 [of 1024 "q + w"] mod_add_self2 [of "q + w" 1024] by (simp_all add: add.assoc)

lemma read_rest_last:
  assumes "disk_ready s" and "w < n" and "\<not> w + 1024 < n" and "n \<le> length dst" and start: "(q + w) div 1024 * 1024 = q + w"
    and at: "int_at bn x = Inr (int (b ((q + w) div 1024)))" and b: "b ((q + w) div 1024) < 1024"
  shows "\<exists>u f. read_rest n w dst bn x s = Inr (overwrite dst w (file_at (content s) b (q + w) (n - w)), upd_io u (content s) f s)"
proof -
  let ?j = "(q + w) div 1024" and ?c = "content s"
  have len: "0 + (n - w) \<le> 1024" "w + (n - w) \<le> length dst" using assms(2-4) by simp_all
  obtain u f where "read_partblock (int (b ?j)) dst w 0 (int (n - w)) s =
      Inr (overwrite dst w (bytes_at ?c (b ?j * 1024 + 0) (n - w)), upd_io u ?c f s)"
    using read_partblock_ok [OF assms(1) b len] by blast
  moreover have "bytes_at ?c (b ?j * 1024 + 0) (n - w) = file_at ?c b (q + w) (n - w)"
    using file_at_block [OF len(1), of ?c b ?j] start by simp
  ultimately show ?thesis using assms(2,3) at by (subst read_rest.simps) (simp, blast)
qed

text \<open>A whole block and what follows it.\<close>

lemma overwrite_blocks:
  assumes "w + 1024 < n" and "n \<le> length dst" and "(q + w) div 1024 * 1024 = q + w"
  shows "overwrite (overwrite dst w (block_bytes s (b ((q + w) div 1024)))) (w + 1024)
      (file_at (content s) b (q + (w + 1024)) (n - (w + 1024))) = overwrite dst w (file_at (content s) b (q + w) (n - w))"
proof -
  let ?j = "(q + w) div 1024" and ?c = "content s"
  have "block_bytes s (b ?j) = file_at ?c b (q + w) 1024"
    using file_at_block [of 0 1024 ?c b ?j] assms(3) by (simp add: block_bytes_def)
  then show ?thesis
    using overwrite_append [of w "file_at ?c b (q + w) 1024" "file_at ?c b (q + (w + 1024)) (n - (w + 1024))" dst]
      file_at_append [of ?c b "q + w" 1024 "n - (w + 1024)"] assms(1,2) by (simp add: add.assoc)
qed

lemma read_rest_ok:
  assumes "disk_ready s" and "w \<le> n" and "n \<le> length dst" and "w < n \<Longrightarrow> (q + w) mod 1024 = 0"
    and "x = int ((q + w) div 1024)" and "maps_to bn b (touched q n)"
  shows "\<exists>u f. read_rest n w dst bn x s =
    Inr (overwrite dst w (file_at (content s) b (q + w) (n - w)), upd_io u (content s) f s)"
  using assms
proof (induction n w dst bn x s rule: read_rest.induct)
  case (1 n w dst bn x s)
  let ?j = "(q + w) div 1024" and ?c = "content s"
  show ?case
  proof (cases "w < n")
    case False
    then have "w = n" using "1.prems"(2) by simp
    then have "read_rest n w dst bn x s = Inr (dst, upd_io (unk s) ?c (fpos s) s)"
      by (subst read_rest.simps) simp
    then show ?thesis using \<open>w = n\<close> by (simp add: file_at_def upd_io_ex)
  next
    case True
    have start: "?j * 1024 = q + w" using "1.prems"(4) True block_start [of "q + w"] by simp
    have J: "?j \<in> touched q n" using touched_mem [OF True] .
    have at: "int_at bn x = Inr (int (b ?j))" and b: "b ?j < 1024"
      using "1.prems"(5,6) J by (auto simp: maps_to_def)
    show ?thesis
    proof (cases "w + 1024 < n")
      case False
      show ?thesis by (rule read_rest_last [where b = b, OF "1.prems"(1) True False "1.prems"(3) start at b])
    next
      case big: True
      have fit: "w + 1024 \<le> length dst" using big "1.prems"(3) by simp
      obtain u f where rd: "read_blocks (int (b ?j)) 1 dst w s =
          Inr (1, overwrite dst w (block_bytes s (b ?j)), upd_io u ?c f s)"
        using read1 [OF "1.prems"(1) b fit] by blast
      let ?d = "overwrite dst w (block_bytes s (b ?j))" and ?s = "upd_io u ?c f s"
      note nxt = next_index [OF "1.prems"(5) "1.prems"(4) [OF True]]
      have "\<exists>u' f'. read_rest n (w + 1024) ?d bn (x + 1) ?s =
          Inr (overwrite ?d (w + 1024) (file_at (content ?s) b (q + (w + 1024)) (n - (w + 1024))),
            upd_io u' (content ?s) f' ?s)"
        using big fit "1.prems"(1,3,6) nxt
        by (intro "1.IH" [OF big at rd refl]) simp_all
      then obtain u' f' where rest: "read_rest n (w + 1024) ?d bn (x + 1) ?s =
          Inr (overwrite ?d (w + 1024) (file_at ?c b (q + (w + 1024)) (n - (w + 1024))), upd_io u' ?c f' s)"
        by auto
      then have "read_rest n w dst bn x s =
          Inr (overwrite ?d (w + 1024) (file_at ?c b (q + (w + 1024)) (n - (w + 1024))), upd_io u' ?c f' s)"
        using big at rd by (subst read_rest.simps) simp
      then show ?thesis unfolding overwrite_blocks [OF big "1.prems"(3) start] by blast
    qed
  qed
qed

text \<open>The first, partial transfer ends at a block boundary unless it is also the last.\<close>

lemma first_part:
  assumes "r = min n (1024 - q mod 1024)" and "r < n"
  shows "(q + r) mod 1024 = 0" and "(q + r) div 1024 = Suc (q div 1024)"
proof -
  have "q mod 1024 < 1024" by simp
  then have "r + q mod 1024 = 1024" using assms by linarith
  moreover have "q div 1024 * 1024 + q mod 1024 = q" by (rule div_mult_mod_eq)
  moreover have "Suc (q div 1024) * 1024 = q div 1024 * 1024 + 1024" by simp
  ultimately have "q + r = Suc (q div 1024) * 1024" by linarith
  then show "(q + r) mod 1024 = 0" "(q + r) div 1024 = Suc (q div 1024)" by simp_all
qed

text \<open>
  \<open>read_helper\<close> copies the \<open>n\<close> bytes of the file from position \<open>q\<close> on to the front of
  the destination.
\<close>

lemma read_helper_ok:
  assumes "disk_ready s" and "0 < n" and "n \<le> length dst" and "maps_to bn b (touched q n)"
  shows "\<exists>u f. read_helper dst (int n) bn (q mod 1024) (int (q div 1024)) s =
    Inr (overwrite dst 0 (file_at (content s) b q n), upd_io u (content s) f s)"
proof -
  let ?j = "q div 1024" and ?off = "q mod 1024" and ?c = "content s"
  define r where "r = min n (1024 - ?off)"
  have r: "min (int n) (1024 - int ?off) = int r" "?off + r \<le> 1024" "r \<le> n" unfolding r_def by auto
  have J: "?j \<in> touched q n" using touched_mem [of 0 n q] assms(2) by simp
  have at: "int_at bn (int ?j) = Inr (int (b ?j))" and b: "b ?j < 1024"
    using assms(4) J by (auto simp: maps_to_def)
  have fit: "0 + r \<le> length dst" using r(3) assms(3) by simp
  obtain u f where rd: "read_partblock (int (b ?j)) dst 0 ?off (int r) s =
      Inr (overwrite dst 0 (bytes_at ?c (b ?j * 1024 + ?off) r), upd_io u ?c f s)"
    using read_partblock_ok [OF assms(1) b r(2) fit] by blast
  have first: "bytes_at ?c (b ?j * 1024 + ?off) r = file_at ?c b q r"
    using file_at_block [OF r(2), of ?c b ?j] by simp
  let ?d = "overwrite dst 0 (file_at ?c b q r)" and ?s = "upd_io u ?c f s"
  have nxt: "(q + r) mod 1024 = 0 \<and> int ?j + 1 = int ((q + r) div 1024)" if "r < n"
    using first_part [of r n q] that by (simp add: r_def)
  have "\<exists>u' f'. read_rest n r ?d bn (int ?j + 1) ?s =
      Inr (overwrite ?d r (file_at ?c b (q + r) (n - r)), upd_io u' ?c f' s)"
  proof (cases "r < n")
    case True
    then show ?thesis
      using read_rest_ok [of ?s r n ?d q "int ?j + 1" bn b] assms fit r(3) nxt by simp
  next
    case False
    then have "read_rest n r ?d bn (int ?j + 1) ?s = Inr (?d, ?s)" using r(3) by (subst read_rest.simps) simp
    moreover have "file_at ?c b (q + r) (n - r) = []" using False r(3) by (simp add: file_at_def)
    ultimately show ?thesis by auto
  qed
  then obtain u' f' where rest: "read_rest n r ?d bn (int ?j + 1) ?s =
      Inr (overwrite ?d r (file_at ?c b (q + r) (n - r)), upd_io u' ?c f' s)" by blast
  have "overwrite ?d r (file_at ?c b (q + r) (n - r)) = overwrite dst 0 (file_at ?c b q n)"
    using overwrite_append [of 0 "file_at ?c b q r" "file_at ?c b (q + r) (n - r)" dst]
      file_at_append [of ?c b q r "n - r"] r(3) assms(3) by simp
  then show ?thesis using rd at rest by (simp add: read_helper_def r(1) first) blast
qed

subsection \<open>Writing through the block numbers\<close>

text \<open>
  \<open>wrote b q data c c'\<close>: between the contents \<open>c\<close> and \<open>c'\<close> exactly the bytes of
  the file from position \<open>q\<close> on have been replaced by \<open>data\<close>.
\<close>

definition wrote :: "(nat \<Rightarrow> nat) \<Rightarrow> nat \<Rightarrow> byte list \<Rightarrow> (nat \<Rightarrow> byte) \<Rightarrow> (nat \<Rightarrow> byte) \<Rightarrow> bool" where
  "wrote b q data c c' \<longleftrightarrow> (\<forall>i<length data. c' (addr b (q + i)) = data ! i) \<and>
     (\<forall>a. (\<forall>i<length data. a \<noteq> addr b (q + i)) \<longrightarrow> c' a = c a)"

lemma wrote_Nil [simp]: "wrote b q [] c c' \<longleftrightarrow> c' = c"
  by (auto simp: wrote_def)

lemma wrote_block:
  assumes "off + length data \<le> 1024" and "q = x * 1024 + off"
  shows "wrote b q data c (put_at c (b x * 1024 + off) data)"
proof -
  have addr: "addr b (q + i) = b x * 1024 + off + i" if "i < length data" for i
    using assms that addr_block [of "off + i" b x] by (simp add: add.assoc)
  have in_range: "\<exists>i<length data. a = addr b (q + i)"
    if "b x * 1024 + off \<le> a" "a < b x * 1024 + off + length data" for a
  proof -
    have "a - (b x * 1024 + off) < length data" "b x * 1024 + off + (a - (b x * 1024 + off)) = a"
      using that by simp_all
    then show ?thesis using addr by metis
  qed
  show ?thesis unfolding wrote_def using addr in_range by (auto simp: put_at_def)
qed

lemma wrote_append:
  assumes "wrote b q xs c c1" and "wrote b (q + length xs) ys c1 c2"
    and "inj_on b (touched q (length xs + length ys))"
  shows "wrote b q (xs @ ys) c c2"
proof -
  have distinct: "addr b (q + i) \<noteq> addr b (q + length xs + j)" if "i < length xs" "j < length ys" for i j
  proof
    assume eq: "addr b (q + i) = addr b (q + length xs + j)"
    have "q + i = q + length xs + j"
      using touched_mem [of i "length xs + length ys" q] touched_mem [of "length xs + j" "length xs + length ys" q]
        that by (intro addr_inj [OF eq assms(3)]) (simp_all add: add.assoc)
    then show False using that by simp
  qed
  have "c2 (addr b (q + i)) = (xs @ ys) ! i" if "i < length (xs @ ys)" for i
  proof (cases "i < length xs")
    case True
    then have "c2 (addr b (q + i)) = c1 (addr b (q + i))"
      using assms(2) distinct unfolding wrote_def by blast
    then show ?thesis using assms(1) True by (simp add: wrote_def nth_append)
  next
    case False
    then have "i - length xs < length ys" using that by simp
    then have "c2 (addr b (q + length xs + (i - length xs))) = ys ! (i - length xs)"
      using assms(2) by (simp add: wrote_def)
    then show ?thesis using False by (simp add: nth_append)
  qed
  moreover have "c2 a = c a" if a: "\<forall>i<length (xs @ ys). a \<noteq> addr b (q + i)" for a
  proof -
    have "\<forall>i<length ys. a \<noteq> addr b (q + length xs + i)" using a by (auto simp: add.assoc)
    then have "c2 a = c1 a" using assms(2) unfolding wrote_def by blast
    also have "\<dots> = c a" using assms(1) a unfolding wrote_def by auto
    finally show ?thesis .
  qed
  ultimately show ?thesis unfolding wrote_def by blast
qed

lemma wrote_file_at: "wrote b q data c c' \<Longrightarrow> file_at c' b q (length data) = data"
  by (rule nth_equalityI) (auto simp: wrote_def)

lemma write_rest_last:
  assumes "disk_ready s" and "w < n" and "\<not> w + 1024 < n" and "length ptr = n - w" and start: "(q + w) div 1024 * 1024 + 0 = q + w"
    and at: "int_at bn x = Inr (int (b ((q + w) div 1024)))" and b: "b ((q + w) div 1024) < 1024"
  shows "\<exists>u f c. write_rest n w ptr bn x s = Inr (n, upd_io u c f s) \<and> wrote b (q + w) ptr (content s) c"
proof -
  let ?j = "(q + w) div 1024" and ?c = "content s"
  have len: "0 + (n - w) \<le> 1024" "n - w \<le> length ptr" using assms(2-4) by simp_all
  obtain u f where wr: "write_partblock (int (b ?j)) ptr 0 (n - w) s =
      Inr (upd_io u (put_at ?c (b ?j * 1024 + 0) (take (n - w) ptr)) f s)"
    using write_partblock_ok [OF assms(1) b len] by blast
  have all: "take (n - w) ptr = ptr" using assms(4) by simp
  have "wrote b (q + w) ptr ?c (put_at ?c (b ?j * 1024 + 0) ptr)"
    using wrote_block [of 0 ptr "q + w" ?j b ?c] len(1) assms(4) start by simp
  moreover have "write_rest n w ptr bn x s = Inr (n, upd_io u (put_at ?c (b ?j * 1024 + 0) ptr) f s)"
    using assms(2,3) at wr all by (subst write_rest.simps) simp
  ultimately show ?thesis by blast
qed

lemma write_rest_ok:
  assumes "disk_ready s" and "w \<le> n" and "length ptr = n - w" and "w < n \<Longrightarrow> (q + w) mod 1024 = 0"
    and "x = int ((q + w) div 1024)" and "maps_to bn b (touched q n)" and "inj_on b (touched q n)"
  shows "\<exists>u f c. write_rest n w ptr bn x s = Inr (n, upd_io u c f s) \<and> wrote b (q + w) ptr (content s) c"
  using assms
proof (induction n w ptr bn x s rule: write_rest.induct)
  case (1 n w ptr bn x s)
  let ?j = "(q + w) div 1024" and ?c = "content s"
  show ?case
  proof (cases "w < n")
    case False
    then have wn: "w = n" "ptr = []" using "1.prems"(2,3) by simp_all
    then have "write_rest n w ptr bn x s = Inr (n, upd_io (unk s) ?c (fpos s) s)"
      by (subst write_rest.simps) simp
    then show ?thesis using wn by (metis wrote_Nil)
  next
    case True
    have start: "?j * 1024 + 0 = q + w" using "1.prems"(4) True block_start [of "q + w"] by simp
    have J: "?j \<in> touched q n" using touched_mem [OF True] .
    have at: "int_at bn x = Inr (int (b ?j))" and b: "b ?j < 1024"
      using "1.prems"(5,6) J by (auto simp: maps_to_def)
    show ?thesis
    proof (cases "w + 1024 < n")
      case False
      show ?thesis by (rule write_rest_last [where b = b, OF "1.prems"(1) True False "1.prems"(3) start at b])
    next
      case big: True
      have fit: "1024 \<le> length ptr" using big "1.prems"(3) by simp
      let ?c1 = "put_at ?c (b ?j * 1024) (take 1024 ptr)"
      obtain u f where wr: "write_blocks (int (b ?j)) 1 ptr s = Inr (1, upd_io u ?c1 f s)"
        using write1_long [OF "1.prems"(1) b fit] by blast
      note nxt = next_index [OF "1.prems"(5) "1.prems"(4) [OF True]]
      have "\<exists>u' f' c'. write_rest n (w + 1024) (drop 1024 ptr) bn (x + 1) (upd_io u ?c1 f s) =
          Inr (n, upd_io u' c' f' (upd_io u ?c1 f s)) \<and>
          wrote b (q + (w + 1024)) (drop 1024 ptr) (content (upd_io u ?c1 f s)) c'"
        using big fit "1.prems"(1,3,6,7) nxt by (intro "1.IH" [OF big at wr refl]) simp_all
      then obtain u' f' c' where rest: "write_rest n (w + 1024) (drop 1024 ptr) bn (x + 1) (upd_io u ?c1 f s) =
          Inr (n, upd_io u' c' f' s)" "wrote b (q + (w + 1024)) (drop 1024 ptr) ?c1 c'" by auto
      have "wrote b (q + w) (take 1024 ptr) ?c ?c1"
        using wrote_block [of 0 "take 1024 ptr" "q + w" ?j b ?c] start by simp
      moreover have "inj_on b (touched (q + w) (length (take 1024 ptr) + length (drop 1024 ptr)))"
        using inj_on_subset [OF "1.prems"(7) touched_suffix [OF "1.prems"(2)]] "1.prems"(3) fit
        by (simp add: min_absorb2)
      ultimately have "wrote b (q + w) (take 1024 ptr @ drop 1024 ptr) ?c c'"
        using rest(2) fit by (intro wrote_append) (simp_all add: add.assoc min_absorb2)
      moreover have "write_rest n w ptr bn x s = Inr (n, upd_io u' c' f' s)"
        using big at wr rest(1) by (subst write_rest.simps) simp
      ultimately show ?thesis by auto
    qed
  qed
qed

text \<open>
  \<open>write_helper\<close> replaces the \<open>n\<close> bytes of the file from position \<open>q\<close> on by the
  first \<open>n\<close> bytes of the buffer, and nothing else, and returns \<open>n\<close>.
\<close>

lemma write_helper_ok:
  assumes "disk_ready s" and "0 < n" and "n \<le> length buffer" and "maps_to bn b (touched q n)"
    and "inj_on b (touched q n)"
  shows "\<exists>u f c. write_helper buffer (int n) bn (q mod 1024) (int (q div 1024)) s = Inr (n, upd_io u c f s) \<and>
    wrote b q (take n buffer) (content s) c"
proof -
  let ?j = "q div 1024" and ?off = "q mod 1024" and ?c = "content s"
  define r where "r = min n (1024 - ?off)"
  have r: "?off + r \<le> 1024" "r \<le> n" unfolding r_def by auto
  have J: "?j \<in> touched q n" using touched_mem [of 0 n q] assms(2) by simp
  have at: "int_at bn (int ?j) = Inr (int (b ?j))" and b: "b ?j < 1024"
    using assms(4) J by (auto simp: maps_to_def)
  let ?p = "take n buffer"
  have lp: "r \<le> length ?p" "length ?p = n" using r(2) assms(3) by simp_all
  let ?c1 = "put_at ?c (b ?j * 1024 + ?off) (take r ?p)"
  obtain u f where wr: "write_partblock (int (b ?j)) ?p ?off r s = Inr (upd_io u ?c1 f s)"
    using write_partblock_ok [OF assms(1) b r(1) lp(1)] by blast
  have first: "wrote b q (take r ?p) ?c ?c1"
    using r(1) lp by (intro wrote_block) (simp_all add: min_absorb2)
  have "\<exists>u' f' c. write_rest n r (drop r ?p) bn (int ?j + 1) (upd_io u ?c1 f s) = Inr (n, upd_io u' c f' s) \<and>
      wrote b (q + r) (drop r ?p) ?c1 c"
  proof (cases "r < n")
    case True
    then have "\<exists>u' f' c. write_rest n r (drop r ?p) bn (int ?j + 1) (upd_io u ?c1 f s) =
        Inr (n, upd_io u' c f' (upd_io u ?c1 f s)) \<and>
        wrote b (q + r) (drop r ?p) (content (upd_io u ?c1 f s)) c"
      using first_part [OF r_def] assms(1,4,5) r(2) lp(2)
      by (intro write_rest_ok) simp_all
    then show ?thesis by simp
  next
    case False
    then have "r = n" using r(2) by simp
    then have "write_rest n r (drop r ?p) bn (int ?j + 1) (upd_io u ?c1 f s) = Inr (n, upd_io u ?c1 f s)"
      by (subst write_rest.simps) simp
    then show ?thesis using \<open>r = n\<close> by (metis drop_take diff_self_eq_0 take_0 wrote_Nil)
  qed
  then obtain u' f' c where rest: "write_rest n r (drop r ?p) bn (int ?j + 1) (upd_io u ?c1 f s) =
      Inr (n, upd_io u' c f' s)" "wrote b (q + r) (drop r ?p) ?c1 c" by blast
  have "wrote b q (take r ?p @ drop r ?p) ?c c"
    using first rest(2) lp r(2) assms(5) by (intro wrote_append) (simp_all add: min_absorb2)
  then have "wrote b q ?p ?c c" by (simp only: append_take_drop_id)
  moreover have "write_helper buffer (int n) bn ?off (int ?j) s = Inr (n, upd_io u' c f' s)"
    using at wr rest(1) assms(3) by (simp add: write_helper_def r_def [symmetric])
  ultimately show ?thesis by blast
qed

end
