(* ===== verification/Sfs_File.thy ===== *)
theory Sfs_File
  imports Sfs_Data
begin

text \<open>
  Files as byte sequences, and the correctness of \<open>sfs_fread\<close> and \<open>sfs_fwrite\<close>
  against them. \<open>block_of\<close> is the block map of an inode through its direct pointers and
  its indirect block, \<open>file_data\<close> the contents of a file, \<open>fs_inv\<close> the invariant of
  the whole file system: every file has just the blocks its size needs, no block belongs
  to two files or to a file and the free list, and none lies in the area of the tables.
  The lemmas give the effect of a read, and of a write on the contents of every file, in
  each of the ways a file can grow.
\<close>

subsection \<open>The block map\<close>

definition block_of :: "(nat \<Rightarrow> byte) \<Rightarrow> inode \<Rightarrow> nat \<Rightarrow> nat" where
  "block_of c n j =
     (if j < 12 then data_ptrs n ! j
      else le_nat (bytes_at c (indirectPointer n * 1024 + 4 * (j - 12)) 4))"

definition nblocks :: "nat \<Rightarrow> nat" where
  "nblocks sz = (sz + 1023) div 1024"

definition own :: "(nat \<Rightarrow> byte) \<Rightarrow> inode \<Rightarrow> nat set" where
  "own c n = block_of c n ` {..<nblocks (isize n)} \<union>
     (if indirectPointer n = 0 then {} else {indirectPointer n})"

definition blocks_ok :: "(nat \<Rightarrow> byte) \<Rightarrow> inode \<Rightarrow> bool" where
  "blocks_ok c n \<longleftrightarrow> length (data_ptrs n) = 12 \<and> isize n \<le> 274432 \<and>
     own c n \<subseteq> {35..<1024} \<and> inj_on (block_of c n) {..<nblocks (isize n)} \<and>
     indirectPointer n \<notin> block_of c n ` {..<nblocks (isize n)} \<and>
     (indirectPointer n = 0 \<longleftrightarrow> nblocks (isize n) \<le> 12) \<and>
     (\<forall>j<12. nblocks (isize n) \<le> j \<longrightarrow> data_ptrs n ! j = 0)"

definition fs_inv :: "sfs \<Rightarrow> bool" where
  "fs_inv s \<longleftrightarrow> disk_ready s \<and> globals_ok s \<and>
     (\<forall>k<100. blocks_ok (content s) (inode_table s ! k) \<and>
        own (content s) (inode_table s ! k) \<inter> free_set (free_bit_map s) = {}) \<and>
     (\<forall>j<100. \<forall>k<100. j \<noteq> k \<longrightarrow>
        own (content s) (inode_table s ! j) \<inter> own (content s) (inode_table s ! k) = {}) \<and>
     free_set (free_bit_map s) \<inter> {..<35} = {}"

definition inode_data :: "(nat \<Rightarrow> byte) \<Rightarrow> inode \<Rightarrow> byte list" where
  "inode_data c n = file_at c (block_of c n) 0 (isize n)"

definition file_data :: "sfs \<Rightarrow> nat \<Rightarrow> byte list" where
  "file_data s k = inode_data (content s) (inode_table s ! k)"

lemma length_file_data [simp]: "length (file_data s k) = isize (inode_table s ! k)"
  by (simp add: file_data_def inode_data_def)

lemma nblocks_bounds: "n \<le> nblocks n * 1024" "nblocks n * 1024 < n + 1024"
proof -
  have "nblocks n * 1024 + (n + 1023) mod 1024 = n + 1023" unfolding nblocks_def by (rule div_mult_mod_eq)
  moreover have "(n + 1023) mod 1024 < 1024" by simp
  ultimately show "n \<le> nblocks n * 1024" "nblocks n * 1024 < n + 1024" by linarith+
qed

lemma nblocks_0 [simp]: "nblocks 0 = 0"
  by (simp add: nblocks_def)

lemma nblocks_unique: "n \<le> k * 1024 \<Longrightarrow> k * 1024 < n + 1024 \<Longrightarrow> nblocks n = k"
  using nblocks_bounds [of n] by linarith

lemma nblocks_mono: "m \<le> n \<Longrightarrow> nblocks m \<le> nblocks n"
  unfolding nblocks_def by (rule div_le_mono) simp

lemma byte_block: "p < n \<Longrightarrow> p div 1024 < nblocks n"
  using nblocks_bounds(1) [of n] by (simp add: div_less_iff_less_mult)

lemma touched_nblocks:
  assumes "0 < n" and "q + n \<le> sz"
  shows "touched q n \<subseteq> {..<nblocks sz}"
proof -
  have "(q + n - 1) div 1024 < nblocks sz" using assms by (intro byte_block) linarith
  then show ?thesis unfolding touched_def by (auto intro: order.strict_trans1)
qed

lemma new_blocks_eq:
  assumes "nb * 1024 < e"
  shows "nb + new_blocks e nb = nblocks e"
proof -
  define d where "d = e - nb * 1024"
  have e: "e = nb * 1024 + d" using assms by (simp add: d_def)
  obtain k r where k: "k = d div 1024" and r: "r = d mod 1024" by blast
  have d: "d = k * 1024 + r" "r < 1024" by (simp_all add: k r)
  show ?thesis
  proof (cases "r = 0")
    case True
    then have "nblocks e = nb + k" using d e by (intro nblocks_unique) (simp_all add: algebra_simps)
    then show ?thesis using True by (simp add: new_blocks_def d_def [symmetric] k [symmetric] r [symmetric])
  next
    case False
    then have "nblocks e = nb + (k + 1)" using d e by (intro nblocks_unique) (simp_all add: algebra_simps)
    then show ?thesis using False by (simp add: new_blocks_def d_def [symmetric] k [symmetric] r [symmetric])
  qed
qed

lemma num_ind_ptrs_eq:
  assumes "12 < nblocks sz" and "sz \<le> 274432"
  shows "num_ind_ptrs sz = nblocks sz - 12"
proof -
  have big: "12 * 1024 < sz" using assms(1) nblocks_bounds(2) [of sz] by linarith
  then have "u32 (int sz - 12288) = sz - 12288" using assms(2) by (simp add: nat_diff_distrib)
  then have "num_ind_ptrs sz = new_blocks sz 12" by (auto simp: num_ind_ptrs_def new_blocks_def Let_def)
  then show ?thesis using new_blocks_eq [OF big] by simp
qed


subsection \<open>The array of block numbers\<close>

lemma slice_overwrite_inside:
  assumes "off + length ys \<le> length xs" and "off \<le> k" and "k + n \<le> off + length ys"
  shows "slice (overwrite xs off ys) k n = slice ys (k - off) n"
proof (rule nth_equalityI)
  show "length (slice (overwrite xs off ys) k n) = length (slice ys (k - off) n)"
    using assms by (simp add: slice_def)
next
  fix i assume "i < length (slice (overwrite xs off ys) k n)"
  then have "i < n" "k + i < length xs" using assms by (auto simp: slice_def)
  then show "slice (overwrite xs off ys) k n ! i = slice ys (k - off) n ! i"
    using assms by (auto simp: slice_def nth_overwrite)
qed

lemma length_ints_bytes [simp]: "length (ints_bytes xs) = 4 * length xs"
  unfolding ints_bytes_def by (rule length_concat_chunks) simp

lemma slice_ints_bytes: "j < length xs \<Longrightarrow> slice (ints_bytes xs) (4 * j) 4 = le_bytes 4 (xs ! j)"
  unfolding ints_bytes_def by (rule slice_concat_chunks) auto

lemma ints_bytes_Cons: "ints_bytes (x # xs) = le_bytes 4 x @ ints_bytes xs"
  by (simp add: ints_bytes_def)

lemma int_at_slice:
  assumes "slice bn (4 * j) 4 = y" and "4 * j + 4 \<le> length bn" and "le_nat y < 1024"
  shows "int_at bn (int j) = Inr (int (le_nat y))"
  using assms by (simp add: int_at_def)

lemma int_at_same:
  "slice bn' (4 * j) 4 = slice bn (4 * j) 4 \<Longrightarrow> length bn' = length bn \<Longrightarrow> int_at bn' (int j) = int_at bn (int j)"
  by (simp add: int_at_def)

text \<open>Numbers stored at the indices from \<open>i\<close> on are found there, the others stay.\<close>

lemma int_at_stored:
  assumes "4 * i + 4 * length xs \<le> length bn" and "i \<le> j" and "j < i + length xs" and "xs ! (j - i) < 1024"
  shows "int_at (overwrite bn (4 * i) (ints_bytes xs)) (int j) = Inr (int (xs ! (j - i)))"
proof -
  have "4 * j - 4 * i = 4 * (j - i)" by simp
  then have "slice (overwrite bn (4 * i) (ints_bytes xs)) (4 * j) 4 = le_bytes 4 (xs ! (j - i))"
    using assms slice_ints_bytes [of "j - i" xs] by (simp add: slice_overwrite_inside)
  then show ?thesis
    using assms int_at_slice [of "overwrite bn (4 * i) (ints_bytes xs)" j "le_bytes 4 (xs ! (j - i))"] by simp
qed

lemma int_at_kept:
  assumes "off + length ys \<le> length bn" and "4 * j + 4 \<le> off \<or> off + length ys \<le> 4 * j"
  shows "int_at (overwrite bn off ys) (int j) = int_at bn (int j)"
  using assms by (intro int_at_same) (simp_all add: slice_overwrite_other)

lemma load_direct_eq:
  "4 * (i + length ps) \<le> length bn \<Longrightarrow>
   load_direct ps i bn = (i + length (takeWhile (\<lambda>p. p \<noteq> 0) ps),
     overwrite bn (4 * i) (ints_bytes (takeWhile (\<lambda>p. p \<noteq> 0) ps)))"
proof (induction ps arbitrary: i bn)
  case Nil
  then show ?case by (simp add: ints_bytes_def)
next
  case (Cons p ps)
  let ?zs = "takeWhile (\<lambda>p. p \<noteq> 0) ps"
  have "length ?zs \<le> length ps" by (rule length_takeWhile_le)
  then have "overwrite (overwrite bn (4 * i) (le_bytes 4 p)) (4 + 4 * i) (ints_bytes ?zs) =
      overwrite bn (4 * i) (le_bytes 4 p @ ints_bytes ?zs)"
    using overwrite_append [of "4 * i" "le_bytes 4 p" "ints_bytes ?zs" bn] Cons.prems by (simp add: add.commute)
  then show ?case
    using Cons.IH [of "Suc i" "overwrite bn (4 * i) (le_bytes 4 p)"] Cons.prems
    by (simp add: ints_bytes_Cons) (simp add: ints_bytes_def)
qed

lemma blocks_okD:
  assumes "blocks_ok c n"
  shows "length (data_ptrs n) = 12" and "isize n \<le> 274432" and "nblocks (isize n) \<le> 268"
    and "\<And>j. j < nblocks (isize n) \<Longrightarrow> 35 \<le> block_of c n j \<and> block_of c n j < 1024"
    and "inj_on (block_of c n) {..<nblocks (isize n)}"
    and "indirectPointer n = 0 \<longleftrightarrow> nblocks (isize n) \<le> 12"
    and "\<And>j. nblocks (isize n) \<le> j \<Longrightarrow> j < 12 \<Longrightarrow> data_ptrs n ! j = 0"
    and "indirectPointer n < 1024"
  using assms nblocks_mono [of "isize n" 274432]
  by (auto simp: blocks_ok_def own_def nblocks_def split: if_splits)

lemma direct_prefix:
  assumes "blocks_ok c n" and "indirectPointer n = 0"
  shows "takeWhile (\<lambda>p. p \<noteq> 0) (data_ptrs n) = take (nblocks (isize n)) (data_ptrs n)"
proof -
  note b = blocks_okD [OF assms(1)]
  let ?nb = "nblocks (isize n)"
  have nb: "?nb \<le> 12" using b(6) assms(2) by simp
  show ?thesis
  proof (rule takeWhile_eq_take_P_nth)
    fix j assume "j < ?nb" "j < length (data_ptrs n)"
    then show "data_ptrs n ! j \<noteq> 0" using b(4) [of j] nb by (simp add: block_of_def)
  qed (use b(1,7) in auto)
qed

text \<open>The array for a file without an indirect block, and the one for a file with it.\<close>

lemma maps_direct:
  assumes "blocks_ok c n" and "indirectPointer n = 0" and "length bn = 1072"
  shows "maps_to (overwrite bn 0 (ints_bytes (take (nblocks (isize n)) (data_ptrs n)))) (block_of c n)
    {..<nblocks (isize n)}"
  unfolding maps_to_def
proof (intro ballI conjI)
  fix j assume "j \<in> {..<nblocks (isize n)}"
  note b = blocks_okD [OF assms(1)]
  have j: "j < nblocks (isize n)" "nblocks (isize n) \<le> 12" using \<open>j \<in> _\<close> b(6) assms(2) by simp_all
  then show "block_of c n j < 1024" using b(4) by simp
  moreover have "take (nblocks (isize n)) (data_ptrs n) ! (j - 0) = block_of c n j"
    using j by (simp add: block_of_def)
  ultimately show "int_at (overwrite bn 0 (ints_bytes (take (nblocks (isize n)) (data_ptrs n)))) (int j) =
      Inr (int (block_of c n j))"
    using int_at_stored [of 0 "take (nblocks (isize n)) (data_ptrs n)" bn j] j b(1) assms(3) by simp
qed

lemma maps_indirect:
  assumes "blocks_ok c n" and "length bn = 1072" and "4 * m \<le> k" and "k \<le> 1024"
    and "12 < nblocks (isize n)" and "12 + m \<le> nblocks (isize n)"
    and "src = bytes_at c (indirectPointer n * 1024) k"
  shows "maps_to (overwrite (overwrite bn 0 (ints_bytes (data_ptrs n))) 48 src) (block_of c n) {..<12 + m}"
  unfolding maps_to_def
proof (intro ballI conjI)
  note b = blocks_okD [OF assms(1)]
  let ?bn1 = "overwrite bn 0 (ints_bytes (data_ptrs n))"
  have len: "length ?bn1 = 1072" "length src = k" using b(1) assms(2,7) by simp_all
  fix j assume j: "j \<in> {..<12 + m}"
  then have bj: "block_of c n j < 1024" using b(4) [of j] assms(6) by simp
  then show "block_of c n j < 1024" .
  show "int_at (overwrite ?bn1 48 src) (int j) = Inr (int (block_of c n j))"
  proof (cases "j < 12")
    case True
    then have "int_at (overwrite ?bn1 48 src) (int j) = int_at ?bn1 (int j)"
      using len assms(4) by (intro int_at_kept) simp_all
    also have "\<dots> = Inr (int (block_of c n j))"
      using int_at_stored [of 0 "data_ptrs n" bn j] True b(1) assms(2) bj by (simp add: block_of_def)
    finally show ?thesis .
  next
    case False
    then obtain i where i: "j = 12 + i" "i < m" using j by (metis le_Suc_ex lessThan_iff nat_add_left_cancel_less not_less)
    have "slice (overwrite ?bn1 48 src) (4 * j) 4 = slice src (4 * i) 4"
      using i len assms(3,4) by (simp add: slice_overwrite_inside)
    also have "\<dots> = bytes_at c (indirectPointer n * 1024 + 4 * i) 4"
      using i(2) assms(3,7) by (simp add: slice_def drop_bytes_at take_bytes_at min_absorb1)
    finally have "slice (overwrite ?bn1 48 src) (4 * j) 4 = bytes_at c (indirectPointer n * 1024 + 4 * i) 4" .
    moreover have "block_of c n j = le_nat (bytes_at c (indirectPointer n * 1024 + 4 * i) 4)"
      by (simp add: block_of_def i(1))
    moreover have "4 * j + 4 \<le> length (overwrite ?bn1 48 src)" using i len assms(3,4) by simp
    ultimately show ?thesis using bj int_at_slice by metis
  qed
qed

lemma fread_blocknums_ok:
  assumes "disk_ready s" and "blocks_ok (content s) (inode_table s ! k)"
  shows "\<exists>bn u f. fread_blocknums k s = Inr (bn, upd_io u (content s) f s) \<and>
    maps_to bn (block_of (content s) (inode_table s ! k)) {..<nblocks (isize (inode_table s ! k))}"
proof -
  let ?n = "inode_table s ! k" and ?c = "content s"
  let ?nb = "nblocks (isize ?n)"
  note b = blocks_okD [OF assms(2)]
  show ?thesis
  proof (cases "indirectPointer ?n = 0")
    case True
    let ?bn = "overwrite (stake 1072 (unk s)) 0 (ints_bytes (take ?nb (data_ptrs ?n)))"
    have "snd (load_direct (data_ptrs ?n) 0 (stake 1072 (unk s))) = ?bn"
      using load_direct_eq [of 0 "data_ptrs ?n" "stake 1072 (unk s)"] b(1) direct_prefix [OF assms(2) True] by simp
    then have "fread_blocknums k s = Inr (?bn, upd_io (sdrop 1072 (unk s)) ?c (fpos s) s)"
      using True by (simp add: fread_blocknums_def indet_def upd_io_unk Let_def)
    moreover have "maps_to ?bn (block_of ?c ?n) {..<?nb}" using assms(2) True by (intro maps_direct) simp_all
    ultimately show ?thesis by blast
  next
    case False
    let ?ip = "indirectPointer ?n" and ?m = "num_ind_ptrs (isize ?n)"
    have nb: "12 < ?nb" using False b(6) by simp
    have m: "?m = ?nb - 12" using num_ind_ptrs_eq [OF nb b(2)] .
    define s1 where "s1 = upd_io (sdrop 1072 (unk s)) ?c (fpos s) s"
    have "disk_ready s1" "content s1 = ?c" using assms(1) by (simp_all add: s1_def)
    then obtain u f where rd: "read_blocks (int ?ip) 1 (stake 1024 (unk s1)) 0 (s1\<lparr>unk := sdrop 1024 (unk s1)\<rparr>) =
        Inr (1, block_bytes s1 ?ip, upd_io u ?c f s1)"
      using read1_fresh [of s1 ?ip] b(8) by auto
    let ?bn1 = "overwrite (stake 1072 (unk s)) 0 (ints_bytes (data_ptrs ?n))"
    let ?src = "bytes_at ?c (?ip * 1024) (4 * ?m)"
    let ?bn = "overwrite ?bn1 48 ?src"
    have m256: "4 * ?m \<le> 1024" using m b(3) by simp
    then have src: "take (4 * ?m) (block_bytes s1 ?ip) = ?src"
      using slice_block_bytes [of 0 "4 * ?m" s1 ?ip] by (simp add: s1_def)
    have "store_mem ?bn1 48 ?src = Inr ?bn" using m256 b(1) by (simp add: store_mem_def)
    then have "fread_blocknums k s = Inr (?bn, upd_io u ?c f s1)"
      using False rd src m256 b(8)
      by (simp add: fread_blocknums_def indet_def upd_io_unk s1_def Let_def)
    moreover have "maps_to ?bn (block_of ?c ?n) {..<12 + ?m}"
      using assms(2) nb m256 m by (intro maps_indirect) simp_all
    moreover have "12 + ?m = ?nb" using nb m by simp
    ultimately show ?thesis by (auto simp: s1_def)
  qed
qed

text \<open>
  In \<open>sfs_fwrite\<close> the array is right for the direct blocks and, because the copy from
  the indirect block is by bytes, for a quarter of the indirect ones.
\<close>

definition known :: "inode \<Rightarrow> nat set" where
  "known n = (if indirectPointer n = 0 then {..<nblocks (isize n)}
     else {..<12 + (nblocks (isize n) - 12) div 4})"

lemma fwrite_blocknums_direct:
  assumes ok: "blocks_ok (content s) n" and n_def: "n = inode_table s ! k" and True: "indirectPointer n = 0"
  shows "\<exists>bn u f. fwrite_blocknums k s =
      Inr (bn, nblocks (isize n), nblocks (isize n) - 12, min 12 (nblocks (isize n)), upd_io u (content s) f s) \<and>
    maps_to bn (block_of (content s) n) (known n) \<and> length bn = 1072 \<and>
    (indirectPointer n \<noteq> 0 \<longrightarrow> (\<forall>p. nblocks (isize n) + 36 \<le> p \<longrightarrow> p < 1072 \<longrightarrow> bn ! p = unk s !! p))"
proof -
  let ?c = "content s"
  let ?nb = "nblocks (isize n)"
  note b = blocks_okD [OF ok]
  have nb: "?nb \<le> 12" using b(6) True by simp
  let ?bn = "overwrite (stake 1072 (unk s)) 0 (ints_bytes (take ?nb (data_ptrs n)))"
  have "load_direct (data_ptrs n) 0 (stake 1072 (unk s)) = (?nb, ?bn)"
    using load_direct_eq [of 0 "data_ptrs n" "stake 1072 (unk s)"] b(1) direct_prefix [OF ok True] nb by simp
  then have "fwrite_blocknums k s = Inr (?bn, ?nb, 0, ?nb, upd_io (sdrop 1072 (unk s)) ?c (fpos s) s)"
    using True by (simp add: fwrite_blocknums_def indet_def upd_io_unk n_def Let_def)
  moreover have "maps_to ?bn (block_of ?c n) {..<?nb}" using ok True by (intro maps_direct) simp_all
  moreover have "length ?bn = 1072" using b(1) nb by simp
  ultimately show ?thesis using nb True by (simp add: known_def min_absorb2) blast
qed

lemma fwrite_blocknums_indirect:
  assumes "disk_ready s" and ok: "blocks_ok (content s) n" and n_def: "n = inode_table s ! k" and False: "indirectPointer n \<noteq> 0"
  shows "\<exists>bn u f. fwrite_blocknums k s =
      Inr (bn, nblocks (isize n), nblocks (isize n) - 12, min 12 (nblocks (isize n)), upd_io u (content s) f s) \<and>
    maps_to bn (block_of (content s) n) (known n) \<and> length bn = 1072 \<and>
    (indirectPointer n \<noteq> 0 \<longrightarrow> (\<forall>p. nblocks (isize n) + 36 \<le> p \<longrightarrow> p < 1072 \<longrightarrow> bn ! p = unk s !! p))"
proof -
  let ?c = "content s"
  let ?nb = "nblocks (isize n)"
  note b = blocks_okD [OF ok]
  let ?ip = "indirectPointer n" and ?m = "num_ind_ptrs (isize n)"
  have nb: "12 < ?nb" using False b(6) by simp
  have m: "?m = ?nb - 12" using num_ind_ptrs_eq [OF nb b(2)] .
  define s1 where "s1 = upd_io (sdrop 1072 (unk s)) ?c (fpos s) s"
  have "disk_ready s1" "content s1 = ?c" using assms(1) by (simp_all add: s1_def)
  then obtain u f where rd: "read_blocks (int ?ip) 1 (stake 1024 (unk s1)) 0 (s1\<lparr>unk := sdrop 1024 (unk s1)\<rparr>) =
      Inr (1, block_bytes s1 ?ip, upd_io u ?c f s1)"
    using read1_fresh [of s1 ?ip] b(8) by auto
  let ?bn1 = "overwrite (stake 1072 (unk s)) 0 (ints_bytes (data_ptrs n))"
  let ?src = "bytes_at ?c (?ip * 1024) ?m"
  let ?bn = "overwrite ?bn1 48 ?src"
  have m256: "?m \<le> 256" using m b(3) by simp
  then have src: "take ?m (block_bytes s1 ?ip) = ?src"
    using slice_block_bytes [of 0 ?m s1 ?ip] by (simp add: s1_def)
  have "store_mem ?bn1 48 ?src = Inr ?bn" using m256 b(1) by (simp add: store_mem_def)
  then have "fwrite_blocknums k s = Inr (?bn, 12 + ?m, ?m, 12, upd_io u ?c f s1)"
    using False rd src m256 b(8)
    by (simp add: fwrite_blocknums_def indet_def upd_io_unk s1_def n_def Let_def)
  moreover have "maps_to ?bn (block_of ?c n) {..<12 + ?m div 4}"
    using ok nb m256 m by (intro maps_indirect) simp_all
  moreover have "length ?bn = 1072" using b(1) m256 by simp
  moreover have "12 + ?m = ?nb" "min 12 ?nb = 12" using nb m by simp_all
  moreover have "\<forall>p. ?nb + 36 \<le> p \<longrightarrow> p < 1072 \<longrightarrow> ?bn ! p = unk s !! p"
    using m256 b(1) nb m by (simp add: nth_overwrite)
  ultimately show ?thesis using False m unfolding known_def s1_def by auto
qed

lemma fwrite_blocknums_ok:
  assumes "disk_ready s" and "blocks_ok (content s) (inode_table s ! k)"
  defines "n \<equiv> inode_table s ! k"
  shows "\<exists>bn u f. fwrite_blocknums k s =
      Inr (bn, nblocks (isize n), nblocks (isize n) - 12, min 12 (nblocks (isize n)), upd_io u (content s) f s) \<and>
    maps_to bn (block_of (content s) n) (known n) \<and> length bn = 1072 \<and>
    (indirectPointer n \<noteq> 0 \<longrightarrow> (\<forall>p. nblocks (isize n) + 36 \<le> p \<longrightarrow> p < 1072 \<longrightarrow> bn ! p = unk s !! p))"
  using fwrite_blocknums_direct [OF assms(2) refl] fwrite_blocknums_indirect [OF assms(1,2) refl] unfolding n_def by blast

subsection \<open>Reading a file\<close>

lemma disk_ready_globals_io [simp]: "globals_ok (upd_io u c f s) = globals_ok s"
  by (simp add: upd_io_def globals_ok_def)

lemma maps_to_mono: "maps_to bn b J \<Longrightarrow> K \<subseteq> J \<Longrightarrow> maps_to bn b K"
  by (auto simp: maps_to_def)

lemma upd_io_sem: "upd_io u c f (s\<lparr>sem := v\<rparr>) = (upd_io u c f s)\<lparr>sem := v\<rparr>"
  by (simp add: upd_io_def)

lemma sfs_fread_core:
  assumes "disk_ready s" and "blocks_ok (content s) (inode_table s ! k)" and "sem_ready s" and "k < 100"
    and "mode (inode_table s ! k) \<noteq> 1" and "0 < len" and "len \<le> length buf"
    and "rwptr (fd_table s ! k) + len \<le> isize (inode_table s ! k)"
  shows "\<exists>u f. sfs_fread (int k) buf (int len) s =
    Inr (int len, overwrite buf 0 (slice (file_data s k) (rwptr (fd_table s ! k)) len),
      upd_fd k (\<lambda>d. d\<lparr>rwptr := rwptr d + len\<rparr>) (upd_io u (content s) f s))"
proof -
  let ?n = "inode_table s ! k" and ?q = "rwptr (fd_table s ! k)" and ?c = "content s"
  note b = blocks_okD [OF assms(2)]
  obtain v where v: "disk_access s" "sem s = Some (Suc v)" "sem_wait s = Inr (s\<lparr>sem := Some v\<rparr>)"
    using assms(3) by (rule sem_readyE)
  let ?s1 = "s\<lparr>sem := Some v\<rparr>"
  have s1: "disk_ready ?s1" "blocks_ok (content ?s1) (inode_table ?s1 ! k)" using assms(1,2) by simp_all
  obtain bn u f where bn: "fread_blocknums k ?s1 = Inr (bn, upd_io u ?c f ?s1)"
    "maps_to bn (block_of ?c ?n) {..<nblocks (isize ?n)}"
    using fread_blocknums_ok [OF s1] by auto
  have m: "maps_to bn (block_of ?c ?n) (touched ?q len)"
    using bn(2) touched_nblocks [OF assms(6,8)] by (rule maps_to_mono)
  have "disk_ready (upd_io u ?c f ?s1)" using s1 by simp
  then obtain u' f' where rd: "read_helper buf (int len) bn (?q mod 1024) (int (?q div 1024)) (upd_io u ?c f ?s1) =
      Inr (overwrite buf 0 (file_at ?c (block_of ?c ?n) ?q len), upd_io u' ?c f' ?s1)"
    using read_helper_ok [OF _ assms(6,7) m, of "upd_io u ?c f ?s1"] by auto
  have q: "?q < 2147483648" "?q + len \<le> 274432" using assms(8) b(2) by simp_all
  have div: "?q div 1024 < 2147483648" using q(1) by (meson div_le_dividend le_less_trans)
  have data: "slice (file_data s k) ?q len = file_at ?c (block_of ?c ?n) ?q len"
    using assms(8) by (intro nth_equalityI) (auto simp: slice_def file_data_def inode_data_def)
  have u64: "u64 (int ?q + int len) = ?q + len" using q by (simp add: nat_add_distrib)
  have s32: "s32 (int (?q div 1024)) = int (?q div 1024)" using div by simp
  have idx: "table_index (int k) = Inr k" using assms(4) by (simp add: table_index_def)
  have "sem_post (upd_fd k (\<lambda>d. d\<lparr>rwptr := ?q + len\<rparr>) (upd_io u' ?c f' ?s1)) =
      Inr (upd_fd k (\<lambda>d. d\<lparr>rwptr := ?q + len\<rparr>) (upd_io u' ?c f' s))"
    using v(1,2) by (simp add: upd_io_sem)
  then have "sfs_fread (int k) buf (int len) s =
      Inr (int len, overwrite buf 0 (file_at ?c (block_of ?c ?n) ?q len),
        upd_fd k (\<lambda>d. d\<lparr>rwptr := ?q + len\<rparr>) (upd_io u' ?c f' s))"
    using assms(5,8) idx bn(1) rd by (simp add: sfs_fread_def v(3) u64 s32 Let_def)
  moreover have "upd_fd k (\<lambda>d. d\<lparr>rwptr := ?q + len\<rparr>) t = upd_fd k (\<lambda>d. d\<lparr>rwptr := rwptr d + len\<rparr>) t"
    if "fd_table t = fd_table s" for t using that by (simp add: upd_fd_def)
  ultimately show ?thesis by (auto simp: data)
qed

subsection \<open>Taking new blocks\<close>

lemma alloc_loop_eq:
  "alloc_many get_index n m = Inr (ns, ok, m') \<Longrightarrow> 4 * (x + n) \<le> length bn \<Longrightarrow>
   alloc_loop n x bn m = Inr (ns, ok, overwrite bn (4 * x) (ints_bytes ns), m') \<and> length ns \<le> n"
proof (induction n arbitrary: x bn m ns ok m')
  case 0
  then show ?case by (simp add: ints_bytes_def)
next
  case (Suc n)
  obtain b m1 where b: "get_index m = Inr (b, m1)" using Suc.prems(1) by (auto simp: rbind_Inr_iff)
  show ?case
  proof (cases "b = 0")
    case True
    then show ?thesis using b Suc.prems(1) by (auto simp: ints_bytes_def)
  next
    case False
    then obtain ns' where rest: "alloc_many get_index n m1 = Inr (ns', ok, m')" "ns = b # ns'"
      using b Suc.prems(1) by (auto simp: rbind_Inr_iff)
    let ?bn = "overwrite bn (4 * x) (le_bytes 4 b)"
    have IH: "alloc_loop n (Suc x) ?bn m1 = Inr (ns', ok, overwrite ?bn (4 * Suc x) (ints_bytes ns'), m') \<and>
        length ns' \<le> n"
      using Suc.prems(2) by (intro Suc.IH [OF rest(1)]) simp
    have "overwrite ?bn (4 * Suc x) (ints_bytes ns') = overwrite bn (4 * x) (ints_bytes ns)"
      using overwrite_append [of "4 * x" "le_bytes 4 b" "ints_bytes ns'" bn] IH Suc.prems(2) rest(2)
      by (simp add: ints_bytes_Cons add.commute)
    then show ?thesis using b False IH rest(2) Suc.prems(2) by (simp add: store_mem_def)
  qed
qed

text \<open>The free blocks of the disk; block 0 to 34 are never among them.\<close>

definition free_blocks :: "sfs \<Rightarrow> nat set" where
  "free_blocks s = free_set (free_bit_map s) \<inter> {..<1024}"

lemma alloc_loop_ok:
  assumes "length m = 129" and "free_set m \<inter> {..<35} = {}" and "n \<le> card (free_set m \<inter> {..<1024})"
    and "4 * (x + n) \<le> length bn"
  shows "\<exists>ns m'. alloc_loop n x bn m = Inr (ns, True, overwrite bn (4 * x) (ints_bytes ns), m') \<and>
    length m' = 129 \<and> length ns = n \<and> distinct ns \<and> set ns \<subseteq> free_set m \<inter> {35..<1024} \<and>
    free_set m' = free_set m - set ns"
proof -
  have zero: "0 \<notin> free_set m" using assms(2) by auto
  obtain ns m' where a: "alloc_many get_index n m = Inr (ns, True, m')" "length m' = 129" "length ns = n"
    "distinct ns" "set ns \<subseteq> free_set m \<inter> {..<1024}" "free_set m' = free_set m - set ns"
    using bm.alloc_many_ok [OF assms(1) zero assms(3)] by blast
  have "set ns \<subseteq> free_set m \<inter> {35..<1024}"
  proof
    fix b assume "b \<in> set ns"
    then have "b \<in> free_set m" "b < 1024" using a(5) by auto
    moreover have "35 \<le> b"
    proof (rule ccontr)
      assume "\<not> 35 \<le> b"
      then have "b \<in> free_set m \<inter> {..<35}" using \<open>b \<in> free_set m\<close> by simp
      then show False by (simp only: assms(2) empty_iff)
    qed
    ultimately show "b \<in> free_set m \<inter> {35..<1024}" by simp
  qed
  then show ?thesis using alloc_loop_eq [OF a(1) assms(4)] a by blast
qed

subsection \<open>Changes that keep a file\<close>

definition agree :: "nat set \<Rightarrow> (nat \<Rightarrow> byte) \<Rightarrow> (nat \<Rightarrow> byte) \<Rightarrow> bool" where
  "agree B c c' \<longleftrightarrow> (\<forall>b\<in>B. \<forall>i<1024. c' (b * 1024 + i) = c (b * 1024 + i))"

lemma agree_refl [simp]: "agree B c c"
  by (simp add: agree_def)

lemma agree_mono: "agree B c c' \<Longrightarrow> A \<subseteq> B \<Longrightarrow> agree A c c'"
  by (auto simp: agree_def)

lemma agree_trans: "agree B c c' \<Longrightarrow> agree B c' c'' \<Longrightarrow> agree B c c''"
  by (simp add: agree_def)

lemma agree_put_at:
  assumes "b \<notin> B" and "off + length xs \<le> 1024"
  shows "agree B c (put_at c (b * 1024 + off) xs)"
  unfolding agree_def
proof (intro ballI allI impI)
  fix d i assume d: "d \<in> B" "i < (1024::nat)"
  then have "Suc d \<le> b \<or> Suc b \<le> d" using assms(1) by (metis Suc_leI linorder_neqE_nat)
  then have "d * 1024 + i < b * 1024 + off \<or> b * 1024 + off + length xs \<le> d * 1024 + i"
    using d(2) assms(2) by (elim disjE) linarith+
  then show "put_at c (b * 1024 + off) xs (d * 1024 + i) = c (d * 1024 + i)" by (auto simp: put_at_def)
qed

lemma agree_wrote:
  assumes "wrote b q xs c c'" and "\<And>i. i < length xs \<Longrightarrow> b ((q + i) div 1024) \<notin> B"
  shows "agree B c c'"
  unfolding agree_def
proof (intro ballI allI impI)
  fix d i assume d: "d \<in> B" "i < (1024::nat)"
  have "d * 1024 + i \<noteq> addr b (q + j)" if "j < length xs" for j
  proof
    assume "d * 1024 + i = addr b (q + j)"
    then have "(d * 1024 + i) div 1024 = addr b (q + j) div 1024" by simp
    then have "d = b ((q + j) div 1024)" using d(2) by (simp add: addr_def)
    then show False using d(1) assms(2) [OF that] by blast
  qed
  then show "c' (d * 1024 + i) = c (d * 1024 + i)" using assms(1) by (simp add: wrote_def)
qed

lemma block_of_agree:
  assumes "agree {indirectPointer n} c c'" and "j < 268"
  shows "block_of c' n j = block_of c n j"
proof (cases "j < 12")
  case True
  then show ?thesis by (simp add: block_of_def)
next
  case False
  have "bytes_at c' (indirectPointer n * 1024 + 4 * (j - 12)) 4 =
      bytes_at c (indirectPointer n * 1024 + 4 * (j - 12)) 4"
    using assms False by (intro nth_equalityI) (auto simp: agree_def add.assoc)
  then show ?thesis using False by (simp add: block_of_def)
qed

text \<open>A file whose indirect block did not change keeps its block map, \<dots>\<close>

lemma frame_map:
  assumes "blocks_ok c n" and "agree ({indirectPointer n} - {0}) c c'"
  shows "j < nblocks (isize n) \<Longrightarrow> block_of c' n j = block_of c n j" and "own c' n = own c n" and "blocks_ok c' n"
proof -
  note b = blocks_okD [OF assms(1)]
  have same: "block_of c' n j = block_of c n j" if "j < nblocks (isize n)" for j
  proof (cases "indirectPointer n = 0")
    case True
    then have "j < 12" using b(6) that by simp
    then show ?thesis by (simp add: block_of_def)
  next
    case False
    then have "agree {indirectPointer n} c c'" by (intro agree_mono [OF assms(2)]) simp
    then show ?thesis using that b(3) by (simp add: block_of_agree)
  qed
  have img: "block_of c' n ` {..<nblocks (isize n)} = block_of c n ` {..<nblocks (isize n)}"
    using same by (intro image_cong) auto
  then show own: "own c' n = own c n" by (simp add: own_def)
  have "inj_on (block_of c' n) {..<nblocks (isize n)} = inj_on (block_of c n) {..<nblocks (isize n)}"
    using same by (intro inj_on_cong) auto
  then show "blocks_ok c' n" using assms(1) own img by (simp add: blocks_ok_def)
  show "block_of c' n j = block_of c n j" if "j < nblocks (isize n)" using that by (rule same)
qed

text \<open>\<dots> and one none of whose blocks changed is the same file.\<close>

lemma frame_file:
  assumes "blocks_ok c n" and "agree (own c n) c c'"
  shows "own c' n = own c n" and "blocks_ok c' n" and "inode_data c' n = inode_data c n"
proof -
  have "agree ({indirectPointer n} - {0}) c c'" by (intro agree_mono [OF assms(2)]) (auto simp: own_def)
  note m = frame_map [OF assms(1) this]
  show "own c' n = own c n" "blocks_ok c' n" by (rule m(2), rule m(3))
  show "inode_data c' n = inode_data c n"
  proof (rule nth_equalityI)
    fix i assume "i < length (inode_data c' n)"
    then have i: "i < isize n" by (simp add: inode_data_def)
    then have j: "i div 1024 < nblocks (isize n)" by (rule byte_block)
    have "block_of c n (i div 1024) \<in> own c n" using j by (auto simp: own_def)
    then have "c' (block_of c n (i div 1024) * 1024 + i mod 1024) = c (block_of c n (i div 1024) * 1024 + i mod 1024)"
      using assms(2) by (simp add: agree_def)
    then show "inode_data c' n ! i = inode_data c n ! i" using i m(1) [OF j] by (simp add: inode_data_def addr_def)
  qed (simp add: inode_data_def)
qed

subsection \<open>Growing a file\<close>

lemma block_of_isize [simp]: "block_of c (n\<lparr>isize := x\<rparr>) = block_of c n"
  by (rule ext) (simp add: block_of_def)

text \<open>What all operations on the blocks of a file leave alone.\<close>

definition same_rest :: "sfs \<Rightarrow> sfs \<Rightarrow> bool" where
  "same_rest s s' \<longleftrightarrow> disk_ready s' = disk_ready s \<and> sem s' = sem s \<and> disk_access s' = disk_access s \<and>
     fd_table s' = fd_table s \<and> rootDir s' = rootDir s \<and> rootDir_ptr s' = rootDir_ptr s"

lemma same_rest_refl [simp]: "same_rest s s"
  by (simp add: same_rest_def)

lemma same_rest_trans: "same_rest s s' \<Longrightarrow> same_rest s' s'' \<Longrightarrow> same_rest s s''"
  by (simp add: same_rest_def)

lemma same_rest_upd [simp]:
  "same_rest s (upd_io u c f s)" "same_rest s (upd_inode k g s)" "same_rest s (s\<lparr>free_bit_map := m\<rparr>)"
  by (simp_all add: same_rest_def upd_io_def disk_ready_def upd_inode_def)

text \<open>
  \<open>grown s k e s'\<close>: from \<open>s\<close> to \<open>s'\<close> file \<open>k\<close> has received the blocks it needs to
  hold \<open>e\<close> bytes; its old blocks are the same, the new ones were free, and only the
  indirect block has been written.
\<close>

definition grown :: "sfs \<Rightarrow> nat \<Rightarrow> nat \<Rightarrow> sfs \<Rightarrow> bool" where
  "grown s k e s' \<longleftrightarrow> same_rest s s' \<and>
     (\<exists>n'. inode_table s' = (inode_table s)[k := n'] \<and>
       isize n' = isize (inode_table s ! k) \<and> mode n' = mode (inode_table s ! k) \<and>
       blocks_ok (content s') (n'\<lparr>isize := max (isize n') e\<rparr>) \<and>
       (\<forall>j<nblocks (isize n'). block_of (content s') n' j = block_of (content s) (inode_table s ! k) j) \<and>
       (\<forall>B. indirectPointer n' = 0 \<or> indirectPointer n' \<notin> B \<longrightarrow> agree B (content s) (content s')) \<and>
       own (content s') (n'\<lparr>isize := max (isize n') e\<rparr>) \<subseteq>
         own (content s) (inode_table s ! k) \<union> free_set (free_bit_map s) \<and>
       free_set (free_bit_map s') = free_set (free_bit_map s) - own (content s') (n'\<lparr>isize := max (isize n') e\<rparr>) \<and>
       length (free_bit_map s') = 129)"

text \<open>Block numbers that continue a block map.\<close>

lemma appended_blocks:
  assumes new: "\<And>j. j < length ns \<Longrightarrow> f (nb + j) = ns ! j"
  shows "f ` {nb..<nb + length ns} = set ns" and "distinct ns \<Longrightarrow> inj_on f {nb..<nb + length ns}"
proof -
  have "x \<in> (\<lambda>j. nb + j) ` {..<length ns}" if "nb \<le> x" "x < nb + length ns" for x
    using that by (intro image_eqI [of _ _ "x - nb"]) auto
  then have "{nb..<nb + length ns} = (\<lambda>j. nb + j) ` {..<length ns}" by auto
  then have "f ` {nb..<nb + length ns} = (\<lambda>j. ns ! j) ` {..<length ns}" using new by (auto simp: image_image)
  then show img: "f ` {nb..<nb + length ns} = set ns" using nth_image [of "length ns" ns] by (simp add: lessThan_atLeast0)
  show "inj_on f {nb..<nb + length ns}" if "distinct ns"
    by (rule eq_card_imp_inj_on) (simp_all add: img distinct_card that)
qed

text \<open>Blocks that were free make the block map of a longer file.\<close>

lemma blocks_ok_grow:
  assumes "blocks_ok c n" and "nb = nblocks (isize n)" and ne: "nblocks e = nb + length ns" and "e \<le> 274432"
    and old: "\<And>j. j < nb \<Longrightarrow> block_of c' n' j = block_of c n j"
    and new: "\<And>j. j < length ns \<Longrightarrow> block_of c' n' (nb + j) = ns ! j"
    and "distinct ns" and ns: "set ns \<subseteq> F \<inter> {35..<1024}" and F: "own c n \<inter> F = {}"
    and "length (data_ptrs n') = 12" and ip0: "indirectPointer n' = 0 \<longleftrightarrow> nblocks e \<le> 12"
    and ip: "indirectPointer n' = indirectPointer n \<or> indirectPointer n' \<in> F \<inter> {35..<1024} - set ns"
    and zero: "\<And>j. nblocks e \<le> j \<Longrightarrow> j < 12 \<Longrightarrow> data_ptrs n' ! j = 0"
  shows "blocks_ok c' (n'\<lparr>isize := e\<rparr>)" and "own c' (n'\<lparr>isize := e\<rparr>) \<subseteq> own c n \<union> F"
    and "F - own c' (n'\<lparr>isize := e\<rparr>) = F - set ns - ({indirectPointer n'} - {0})"
proof -
  note b = blocks_okD [OF assms(1)]
  let ?b = "block_of c' n'" and ?n = "n'\<lparr>isize := e\<rparr>"
  have split: "{..<nblocks e} = {..<nb} \<union> {nb..<nb + length ns}" using ne by auto
  have img_old: "?b ` {..<nb} = block_of c n ` {..<nb}" using old by (intro image_cong) auto
  have img_new: "?b ` {nb..<nb + length ns} = set ns" using new by (rule appended_blocks(1))
  have inj_new: "inj_on ?b {nb..<nb + length ns}" using new assms(7) by (rule appended_blocks(2))
  have img: "?b ` {..<nblocks e} = block_of c n ` {..<nb} \<union> set ns" by (simp add: split image_Un img_old img_new)
  have old_own: "block_of c n ` {..<nb} \<subseteq> own c n" by (auto simp: own_def assms(2))
  have "inj_on ?b {..<nb} = inj_on (block_of c n) {..<nb}" using old by (intro inj_on_cong) auto
  then have inj_old: "inj_on ?b {..<nb}" using b(5) assms(2) by simp
  have "?b ` {..<nb} \<inter> ?b ` {nb..<nb + length ns} = {}"
    unfolding img_old img_new using old_own ns F by blast
  then have "?b ` ({..<nb} - {nb..<nb + length ns}) \<inter> ?b ` ({nb..<nb + length ns} - {..<nb}) = {}" by blast
  then have inj: "inj_on ?b {..<nblocks e}" unfolding split using inj_old inj_new by (simp add: inj_on_Un)
  have ip_own: "indirectPointer n' = 0 \<or> indirectPointer n' = indirectPointer n \<and> indirectPointer n' \<in> own c n \<or>
      indirectPointer n' \<in> F \<inter> {35..<1024} - set ns" using ip by (auto simp: own_def)
  have own_n: "own c n \<subseteq> {35..<1024}" using assms(1) by (simp add: blocks_ok_def)
  have own_eq: "own c' ?n = block_of c n ` {..<nb} \<union> set ns \<union> (if indirectPointer n' = 0 then {} else {indirectPointer n'})"
    by (simp add: own_def img)
  have notin: "indirectPointer n' \<notin> ?b ` {..<nblocks e}"
  proof (cases "indirectPointer n' = 0")
    case True
    then show ?thesis unfolding img using old_own own_n ns by force
  next
    case False
    have "indirectPointer n \<notin> block_of c n ` {..<nb}" using assms(1,2) by (simp add: blocks_ok_def)
    then show ?thesis unfolding img Un_iff using False ip_own old_own ns F by (metis DiffE Int_iff disjoint_iff subsetD)
  qed
  show sub: "own c' ?n \<subseteq> own c n \<union> F" unfolding own_eq using old_own ns ip_own by auto
  have "own c' ?n \<subseteq> {35..<1024}" unfolding own_eq using old_own own_n ns ip_own by auto
  then show "blocks_ok c' ?n" using inj notin ip0 zero assms(4,10) by (simp add: blocks_ok_def)
  have "F \<inter> block_of c n ` {..<nb} = {}" using old_own F by blast
  then show "F - own c' ?n = F - set ns - ({indirectPointer n'} - {0})"
    unfolding own_eq by auto
qed

text \<open>
  \<open>linked k ns s s'\<close>: the block numbers \<open>ns\<close> have been appended to the block map of
  file \<open>k\<close>, with a new indirect block if it had none and needs one.
\<close>

definition linked :: "nat \<Rightarrow> nat list \<Rightarrow> sfs \<Rightarrow> sfs \<Rightarrow> bool" where
  "linked k ns s s' \<longleftrightarrow> same_rest s s' \<and>
     (\<exists>n'. inode_table s' = (inode_table s)[k := n'] \<and>
       isize n' = isize (inode_table s ! k) \<and> mode n' = mode (inode_table s ! k) \<and> length (data_ptrs n') = 12 \<and>
       (\<forall>j<nblocks (isize n'). block_of (content s') n' j = block_of (content s) (inode_table s ! k) j) \<and>
       (\<forall>i<length ns. block_of (content s') n' (nblocks (isize n') + i) = ns ! i) \<and>
       (\<forall>j<12. nblocks (isize n') + length ns \<le> j \<longrightarrow> data_ptrs n' ! j = 0) \<and>
       (\<forall>B. indirectPointer n' = 0 \<or> indirectPointer n' \<notin> B \<longrightarrow> agree B (content s) (content s')) \<and>
       (indirectPointer n' = 0 \<longleftrightarrow> nblocks (isize n') + length ns \<le> 12) \<and>
       length (free_bit_map s') = 129 \<and>
       (indirectPointer n' = indirectPointer (inode_table s ! k) \<and> free_bit_map s' = free_bit_map s \<or>
        indirectPointer n' \<in> free_set (free_bit_map s) \<inter> {35..<1024} \<and>
        free_set (free_bit_map s') = free_set (free_bit_map s) - {indirectPointer n'}))"

lemma linkedI:
  assumes "same_rest s s'" and "inode_table s' = (inode_table s)[k := n']"
    and "isize n' = isize (inode_table s ! k)" and "mode n' = mode (inode_table s ! k)"
    and "length (data_ptrs n') = 12" and "nblocks (isize n') = nb"
    and "\<And>j. j < nb \<Longrightarrow> block_of (content s') n' j = block_of (content s) (inode_table s ! k) j"
    and "\<And>i. i < length ns \<Longrightarrow> block_of (content s') n' (nb + i) = ns ! i"
    and "\<And>j. j < 12 \<Longrightarrow> nb + length ns \<le> j \<Longrightarrow> data_ptrs n' ! j = 0"
    and "\<And>B. indirectPointer n' = 0 \<or> indirectPointer n' \<notin> B \<Longrightarrow> agree B (content s) (content s')"
    and "indirectPointer n' = 0 \<longleftrightarrow> nb + length ns \<le> 12" and "length (free_bit_map s') = 129"
    and "indirectPointer n' = indirectPointer (inode_table s ! k) \<and> free_bit_map s' = free_bit_map s \<or>
      indirectPointer n' \<in> free_set (free_bit_map s) \<inter> {35..<1024} \<and>
      free_set (free_bit_map s') = free_set (free_bit_map s) - {indirectPointer n'}"
  shows "linked k ns s s'"
  unfolding linked_def
  by (intro conjI exI [of _ n'] allI impI) ((rule assms(3) | simp only: simp_thms assms(1,2,4-))+)

lemma data_ptrs_overwrite:
  assumes "length ps = 12" and "d + length xs \<le> 12" and "j < 12"
  shows "overwrite ps d xs ! j = (if d \<le> j \<and> j < d + length xs then xs ! (j - d) else ps ! j)"
  using assms by (simp add: nth_overwrite)

lemma disk_ready_bitmap [simp]: "disk_ready (s\<lparr>free_bit_map := m\<rparr>) = disk_ready s"
  by (simp add: disk_ready_def)

text \<open>The new numbers fit into the direct pointers.\<close>

lemma add_direct_short:
  assumes "blocks_ok (content s) (inode_table s ! k)" and "length (free_bit_map s) = 129"
    and "indirectPointer (inode_table s ! k) = 0"
    and "nblocks (isize (inode_table s ! k)) + length ns \<le> 12"
  shows "\<exists>s'. add_direct k (min 12 (nblocks (isize (inode_table s ! k)))) ns s = Inr s' \<and> linked k ns s s'"
proof -
  let ?n = "inode_table s ! k"
  let ?nb = "nblocks (isize ?n)"
  let ?g = "\<lambda>n. n\<lparr>data_ptrs := overwrite (data_ptrs n) ?nb ns\<rparr>"
  note b = blocks_okD [OF assms(1)]
  have nb: "min 12 ?nb = ?nb" "length ns \<le> 12 - ?nb" using assms(4) by simp_all
  then have run: "add_direct k (min 12 ?nb) ns s = Inr (upd_inode k ?g s)" by (simp add: add_direct_def)
  have "linked k ns s (upd_inode k ?g s)"
    by (rule linkedI [of _ _ _ "?g ?n" ?nb])
      (use assms b in \<open>auto simp: block_of_def data_ptrs_overwrite\<close>)
  then show ?thesis using run by blast
qed

text \<open>They do not: the rest goes to a new indirect block, the smallest free one.\<close>

lemma get_index_block:
  assumes "length (free_bit_map s) = 129" and "free_set (free_bit_map s) \<inter> {..<35} = {}" and "free_blocks s \<noteq> {}"
  shows "\<exists>ib m. get_index (free_bit_map s) = Inr (ib, m) \<and> length m = 129 \<and>
    free_set m = free_set (free_bit_map s) - {ib} \<and> ib \<in> free_set (free_bit_map s) \<inter> {35..<1024} \<and> s32 (int ib) = int ib"
proof -
  let ?F = "free_set (free_bit_map s)"
  obtain x where x: "x \<in> ?F" "x < 1024" using assms(3) by (auto simp: free_blocks_def)
  then have ne: "?F \<noteq> {}" by blast
  have "Min ?F \<le> x" using x(1) by (intro Min_le) simp_all
  moreover have M: "Min ?F \<in> ?F" using ne by (intro Min_in) simp_all
  moreover have "35 \<le> Min ?F"
  proof (rule ccontr)
    assume "\<not> 35 \<le> Min ?F"
    then have "Min ?F \<in> ?F \<inter> {..<35}" using M by simp
    then show False by (simp only: assms(2) empty_iff)
  qed
  ultimately have "Min ?F \<in> ?F \<inter> {35..<1024}" "s32 (int (Min ?F)) = int (Min ?F)" using x(2) by simp_all
  then show ?thesis using get_index_some [OF assms(1) ne] by blast
qed

text \<open>The numbers that were written to the indirect block are in the block map.\<close>

lemma block_of_indirect:
  assumes "indirectPointer n = ib" and "\<not> nb + i < 12" and "nb \<le> 12" and "i < length ns" and "ns ! i < 1024"
    and "length data = 1024" and "take (length wb) data = wb" and wb: "wb = ints_bytes (drop (12 - nb) ns)" "length wb \<le> 1024"
  shows "block_of (put_at c (ib * 1024) data) n (nb + i) = ns ! i"
proof -
  let ?j = "nb + i - 12"
  have j: "?j < length (drop (12 - nb) ns)" "(12 - nb) + ?j = i" using assms(2-4) by simp_all
  have len: "length wb = 4 * length (drop (12 - nb) ns)" by (simp add: wb(1))
  have "bytes_at (put_at c (ib * 1024) data) (ib * 1024 + 4 * ?j) 4 = slice data (4 * ?j) 4"
    using j(1) assms(6) len wb(2) by (simp add: bytes_at_put_at_inside)
  also have "\<dots> = slice (take (length wb) data) (4 * ?j) 4"
    using j(1) len by (simp add: slice_def take_drop min_def)
  also have "\<dots> = le_bytes 4 (ns ! i)" using j slice_ints_bytes [OF j(1)] by (simp add: assms(7)) (simp add: wb(1))
  finally have "bytes_at (put_at c (ib * 1024) data) (ib * 1024 + 4 * ?j) 4 = le_bytes 4 (ns ! i)" .
  then show ?thesis using assms(1,2,5) by (simp add: block_of_def)
qed

lemma add_direct_long_run:
  assumes "disk_ready s" and "length (free_bit_map s) = 129" and "k < length (inode_table s)" and "nb \<le> 12"
    and "12 < nb + length ns" and "nb + length ns \<le> 268"
    and "free_set (free_bit_map s) \<inter> {..<35} = {}" and "free_blocks s \<noteq> {}"
  obtains ib m data u where "length m = 129" and "free_set m = free_set (free_bit_map s) - {ib}"
    and "ib \<in> free_set (free_bit_map s) \<inter> {35..<1024}" and "length data = 1024"
    and "take (4 * (length ns + nb - 12)) data = ints_bytes (drop (12 - nb) ns)"
    and "add_direct k nb ns s = Inr (upd_io u (put_at (content s) (ib * 1024) data) (ib * 1024 + 1024)
      (s\<lparr>free_bit_map := m, inode_table := (inode_table s)[k := (inode_table s ! k)
        \<lparr>indirectPointer := ib, data_ptrs := overwrite (data_ptrs (inode_table s ! k)) nb (take (12 - nb) ns)\<rparr>]\<rparr>))"
proof -
  let ?n = "inode_table s ! k" and ?F = "free_set (free_bit_map s)"
  obtain ib m where m: "get_index (free_bit_map s) = Inr (ib, m)" "length m = 129" "free_set m = ?F - {ib}"
    and ib_F: "ib \<in> ?F \<inter> {35..<1024}" and ib32: "s32 (int ib) = int ib"
    using get_index_block [OF assms(2,7,8)] by blast
  then have ib: "ib < 1024" "ib \<noteq> 0" by simp_all
  define wb where "wb = ints_bytes (drop (12 - nb) ns)"
  define s2 where "s2 = upd_inode k (\<lambda>n. n\<lparr>data_ptrs := overwrite (data_ptrs n) nb (take (12 - nb) ns)\<rparr>)
      (upd_inode k (\<lambda>n. n\<lparr>indirectPointer := ib\<rparr>) (s\<lparr>free_bit_map := m\<rparr>))"
  have s2: "disk_ready s2" "content s2 = content s" using assms(1) by (simp_all add: s2_def)
  have eq: "s2 = s\<lparr>free_bit_map := m, inode_table := (inode_table s)[k := ?n
      \<lparr>indirectPointer := ib, data_ptrs := overwrite (data_ptrs ?n) nb (take (12 - nb) ns)\<rparr>]\<rparr>"
    using assms(3) by (simp add: s2_def upd_inode_def)
  have len: "length wb = 4 * (length ns + nb - 12)" "length wb \<le> 1024" using assms(4-6) by (simp_all add: wb_def)
  obtain data u where w: "write_blocks (int ib) 1 wb s2 =
      Inr (1, s2\<lparr>unk := u, content := put_at (content s) (ib * 1024) data, fpos := ib * 1024 + 1024\<rparr>)"
    and data: "length data = 1024" "take (length wb) data = wb"
    using write_blocks_step [OF s2(1), of ib 1 wb] ib(1) len(2) s2(2) by auto
  have "add_direct k nb ns s = Inr (upd_io u (put_at (content s) (ib * 1024) data) (ib * 1024 + 1024) s2)"
    using assms(4,5) w m(1) ib32 by (simp add: add_direct_def Let_def s2_def [symmetric] wb_def [symmetric] upd_io_def)
  moreover have "take (4 * (length ns + nb - 12)) data = ints_bytes (drop (12 - nb) ns)"
    using data(2) unfolding len(1) unfolding wb_def .
  ultimately show ?thesis using that [OF m(2,3) ib_F data(1)] unfolding eq by blast
qed

lemma add_direct_long:
  assumes "disk_ready s" and "blocks_ok (content s) (inode_table s ! k)" and "length (free_bit_map s) = 129"
    and "indirectPointer (inode_table s ! k) = 0" and "k < length (inode_table s)"
    and "12 < nblocks (isize (inode_table s ! k)) + length ns"
    and "nblocks (isize (inode_table s ! k)) + length ns \<le> 268" and "\<forall>b\<in>set ns. b < 1024"
    and "free_set (free_bit_map s) \<inter> {..<35} = {}" and "free_blocks s \<noteq> {}"
  shows "\<exists>s'. add_direct k (min 12 (nblocks (isize (inode_table s ! k)))) ns s = Inr s' \<and> linked k ns s s'"
proof -
  let ?n = "inode_table s ! k" and ?F = "free_set (free_bit_map s)"
  define nb where "nb = nblocks (isize ?n)"
  note b = blocks_okD [OF assms(2), folded nb_def]
  have nb: "nb \<le> 12" "min 12 nb = nb" using b(6) assms(4) by simp_all
  obtain ib m data u where m: "length m = 129" "free_set m = ?F - {ib}" "ib \<in> ?F \<inter> {35..<1024}"
    and data: "length data = 1024" "take (4 * (length ns + nb - 12)) data = ints_bytes (drop (12 - nb) ns)"
    and run: "add_direct k nb ns s = Inr (upd_io u (put_at (content s) (ib * 1024) data) (ib * 1024 + 1024)
      (s\<lparr>free_bit_map := m, inode_table := (inode_table s)[k := ?n
        \<lparr>indirectPointer := ib, data_ptrs := overwrite (data_ptrs ?n) nb (take (12 - nb) ns)\<rparr>]\<rparr>))" (is "_ = Inr ?s'")
    by (rule add_direct_long_run [OF assms(1,3,5) nb(1) assms(6,7) [folded nb_def] assms(9,10)])
  define n' where "n' = ?n\<lparr>indirectPointer := ib, data_ptrs := overwrite (data_ptrs ?n) nb (take (12 - nb) ns)\<rparr>"
  define s' where "s' = ?s'"
  have d': "data_ptrs n' ! j = (if nb \<le> j then ns ! (j - nb) else data_ptrs ?n ! j)" if "j < 12" for j
    using that nb b(1) assms(6) by (auto simp: n'_def data_ptrs_overwrite nb_def [symmetric])
  have n': "isize n' = isize ?n" "mode n' = mode ?n" "length (data_ptrs n') = 12" "indirectPointer n' = ib"
    using b(1) nb by (simp_all add: n'_def)
  have s': "content s' = put_at (content s) (ib * 1024) data" "inode_table s' = (inode_table s)[k := n']"
    "free_bit_map s' = m" by (simp_all add: s'_def n'_def)
  have new: "block_of (content s') n' (nb + i) = ns ! i" if i: "i < length ns" for i
  proof (cases "nb + i < 12")
    case True
    then show ?thesis using d' by (simp add: block_of_def)
  next
    case False
    then show ?thesis
      unfolding s'(1) using n'(4) nb(1) i assms(7,8) data
      by (intro block_of_indirect [where wb = "ints_bytes (drop (12 - nb) ns)"]) (simp_all add: nb_def [symmetric])
  qed
  have "linked k ns s s'"
  proof (rule linkedI [of s s' k n' nb])
    have "disk_ready (s\<lparr>free_bit_map := m, inode_table := it\<rparr>) = disk_ready s" for it by (simp add: disk_ready_def)
    then show "same_rest s s'" by (simp add: s'_def same_rest_def)
    show "block_of (content s') n' j = block_of (content s) ?n j" if "j < nb" for j
      using that nb d' by (simp add: block_of_def)
    show "data_ptrs n' ! j = 0" if "j < 12" "nb + length ns \<le> j" for j using that assms(6) by (simp add: nb_def)
    show "agree B (content s) (content s')" if "indirectPointer n' = 0 \<or> indirectPointer n' \<notin> B" for B
      using agree_put_at [of ib B 0 data] that data(1) m(3) by (simp add: s' n')
  qed (use n' s' new m assms(6) in \<open>auto simp: nb_def\<close>)
  then show ?thesis using run nb(2) by (auto simp: nb_def s'_def)
qed

lemma add_indirect_ok:
  assumes "disk_ready s" and "blocks_ok (content s) (inode_table s ! k)" and "length (free_bit_map s) = 129"
    and "indirectPointer (inode_table s ! k) \<noteq> 0"
    and "nblocks (isize (inode_table s ! k)) + length ns \<le> 268" and "\<forall>b\<in>set ns. b < 1024"
  shows "\<exists>s'. add_indirect k (nblocks (isize (inode_table s ! k)) - 12) ns s = Inr s' \<and> linked k ns s s'"
proof -
  let ?n = "inode_table s ! k" and ?c = "content s"
  let ?ip = "indirectPointer ?n"
  define nb where "nb = nblocks (isize ?n)"
  note b = blocks_okD [OF assms(2), folded nb_def]
  have nb: "12 < nb" using b(6) assms(4) by simp
  let ?off = "4 * (nb - 12)"
  have fit: "?off + length (ints_bytes ns) \<le> 1024" using nb assms(5) by (simp add: nb_def [symmetric])
  obtain u f where rd: "read_blocks (int ?ip) 1 (stake 1024 (unk s)) 0 (s\<lparr>unk := sdrop 1024 (unk s)\<rparr>) =
      Inr (1, block_bytes s ?ip, upd_io u ?c f s)"
    using read1_fresh [OF assms(1) b(8)] by blast
  let ?rb = "overwrite (block_bytes s ?ip) ?off (ints_bytes ns)"
  have "length ?rb = 1024" using fit by simp
  then obtain v g where wr: "write_blocks (int ?ip) 1 ?rb (upd_io u ?c f s) =
      Inr (1, upd_io v (put_at ?c (?ip * 1024) ?rb) g s)"
    using write1 [of "upd_io u ?c f s" ?ip ?rb] assms(1) b(8) by auto
  have put: "put_at ?c (?ip * 1024) ?rb = put_at ?c (?ip * 1024 + ?off) (ints_bytes ns)"
    using fit by (simp add: block_bytes_def put_at_overwrite_bytes_at)
  define s' where "s' = upd_io v (put_at ?c (?ip * 1024 + ?off) (ints_bytes ns)) g s"
  have run: "add_indirect k (nb - 12) ns s = Inr s'"
    using rd wr fit b(8) by (simp add: add_indirect_def indet_def store_mem_def put s'_def)
  have "linked k ns s s'"
  proof (rule linkedI [of s s' k ?n nb])
    fix j assume j: "j < nb"
    have "j < 12 \<or> ?ip * 1024 + 4 * (j - 12) + 4 \<le> ?ip * 1024 + ?off" using j nb by linarith
    then show "block_of (content s') ?n j = block_of ?c ?n j"
      by (auto simp: block_of_def s'_def bytes_at_put_at_other)
  next
    fix i assume i: "i < length ns"
    have "nb + i - 12 = nb - 12 + i" using nb by simp
    then have "bytes_at (content s') (?ip * 1024 + 4 * (nb + i - 12)) 4 = slice (ints_bytes ns) (4 * i) 4"
      using i by (simp add: s'_def bytes_at_put_at_inside add.assoc)
    also have "\<dots> = le_bytes 4 (ns ! i)" using i by (rule slice_ints_bytes)
    finally have "bytes_at (content s') (?ip * 1024 + 4 * (nb + i - 12)) 4 = le_bytes 4 (ns ! i)" .
    moreover have "ns ! i < 1024" using i assms(6) by simp
    ultimately show "block_of (content s') ?n (nb + i) = ns ! i" using nb by (simp add: block_of_def)
  next
    show "agree B ?c (content s')" if "?ip = 0 \<or> ?ip \<notin> B" for B
      using agree_put_at [OF _ fit] that assms(4) by (simp add: s'_def)
  qed (use assms(3,4) nb b(1) in \<open>simp_all add: s'_def nb_def\<close>)
  then show ?thesis using run by (auto simp: nb_def)
qed

subsection \<open>The growth of a file in \<open>sfs_fwrite\<close>\<close>

definition blocks_needed :: "inode \<Rightarrow> nat \<Rightarrow> nat" where
  "blocks_needed n e = nblocks e - nblocks (isize n) +
     (if indirectPointer n = 0 \<and> 12 < nblocks e then 1 else 0)"

lemma maps_grow:
  assumes "maps_to bn b K" and "K \<subseteq> {..<nb}" and "\<And>j. j < nb \<Longrightarrow> b' j = b j"
    and "\<And>i. i < length ns \<Longrightarrow> b' (nb + i) = ns ! i" and "\<forall>x\<in>set ns. x < 1024"
    and "4 * (nb + length ns) \<le> length bn"
  shows "maps_to (overwrite bn (4 * nb) (ints_bytes ns)) b' (K \<union> {nb..<nb + length ns})"
  unfolding maps_to_def
proof (intro ballI)
  fix j assume "j \<in> K \<union> {nb..<nb + length ns}"
  then consider "j \<in> K" "j < nb" | i where "j = nb + i" "i < length ns"
    using assms(2) by (metis Un_iff atLeastLessThan_iff le_Suc_ex lessThan_iff nat_add_left_cancel_less subsetD)
  then show "int_at (overwrite bn (4 * nb) (ints_bytes ns)) (int j) = Inr (int (b' j)) \<and> b' j < 1024"
  proof cases
    case 1
    then have "int_at (overwrite bn (4 * nb) (ints_bytes ns)) (int j) = int_at bn (int j)"
      using assms(6) by (intro int_at_kept) simp_all
    then show ?thesis using 1 assms(1,3) by (simp add: maps_to_def)
  next
    case (2 i)
    then have "b' j = ns ! i" "ns ! i < 1024" using assms(4,5) by simp_all
    then show ?thesis using int_at_stored [of nb ns bn j] 2 assms(6) by simp
  qed
qed

lemma same_size_ok:
  assumes "blocks_ok c n" and "nblocks x = nblocks (isize n)" and "x \<le> 274432"
  shows "blocks_ok c (n\<lparr>isize := x\<rparr>)" and "own c (n\<lparr>isize := x\<rparr>) = own c n"
proof -
  show own: "own c (n\<lparr>isize := x\<rparr>) = own c n" using assms(2) by (simp add: own_def)
  show "blocks_ok c (n\<lparr>isize := x\<rparr>)" using assms own by (simp add: blocks_ok_def)
qed

text \<open>Linking the new blocks is growing, seen from before they were taken.\<close>

lemma linked_grown:
  assumes "linked k ns (s\<lparr>free_bit_map := m\<rparr>) s'" and "blocks_ok (content s) (inode_table s ! k)"
    and "own (content s) (inode_table s ! k) \<inter> free_set (free_bit_map s) = {}"
    and "k < length (inode_table s)" and "isize (inode_table s ! k) < e"
    and ne: "nblocks e = nblocks (isize (inode_table s ! k)) + length ns" and "e \<le> 274432"
    and "distinct ns" and "set ns \<subseteq> free_set (free_bit_map s) \<inter> {35..<1024}"
    and "free_set m = free_set (free_bit_map s) - set ns"
  shows "grown s k e s'"
proof -
  let ?n = "inode_table s ! k" and ?c = "content s" and ?c' = "content s'" and ?F = "free_set (free_bit_map s)"
  note b = blocks_okD [OF assms(2)]
  obtain n' where n': "same_rest (s\<lparr>free_bit_map := m\<rparr>) s'" "inode_table s' = (inode_table s)[k := n']"
      "isize n' = isize ?n" "mode n' = mode ?n" "length (data_ptrs n') = 12"
    and old: "\<forall>j<nblocks (isize ?n). block_of ?c' n' j = block_of ?c ?n j"
    and new: "\<forall>i<length ns. block_of ?c' n' (nblocks (isize ?n) + i) = ns ! i"
    and zero: "\<forall>j<12. nblocks (isize ?n) + length ns \<le> j \<longrightarrow> data_ptrs n' ! j = 0"
    and agr: "\<forall>B. indirectPointer n' = 0 \<or> indirectPointer n' \<notin> B \<longrightarrow> agree B ?c ?c'"
    and ip: "indirectPointer n' = 0 \<longleftrightarrow> nblocks (isize ?n) + length ns \<le> 12" "length (free_bit_map s') = 129"
      "indirectPointer n' = indirectPointer ?n \<and> free_bit_map s' = m \<or>
       indirectPointer n' \<in> free_set m \<inter> {35..<1024} \<and> free_set (free_bit_map s') = free_set m - {indirectPointer n'}"
    using assms(1) unfolding linked_def by auto
  have ip': "indirectPointer n' = indirectPointer ?n \<or> indirectPointer n' \<in> ?F \<inter> {35..<1024} - set ns"
    using ip(3) assms(10) by auto
  have ip0: "indirectPointer n' = 0 \<longleftrightarrow> nblocks e \<le> 12" using ip(1) ne by simp
  note g = blocks_ok_grow [OF assms(2) refl ne assms(7) old [rule_format] new [rule_format] assms(8,9,3) n'(5) ip0 ip'
      zero [rule_format, folded ne], simplified]
  let ?n' = "n'\<lparr>isize := e\<rparr>"
  have free: "free_set (free_bit_map s') = ?F - own ?c' ?n'"
  proof (cases "indirectPointer n' = indirectPointer ?n \<and> free_bit_map s' = m")
    case True
    have "indirectPointer n' \<noteq> 0 \<Longrightarrow> indirectPointer n' \<in> own ?c ?n" using True by (simp add: own_def)
    then have "?F - set ns - ({indirectPointer n'} - {0}) = ?F - set ns" using assms(3) by blast
    then show ?thesis using g(3) True assms(10) by simp
  next
    case False
    then have n: "indirectPointer n' \<in> free_set m \<inter> {35..<1024}"
      "free_set (free_bit_map s') = free_set m - {indirectPointer n'}" using ip(3) by blast+
    then have "{indirectPointer n'} - {0} = {indirectPointer n'}" by auto
    then show ?thesis by (simp only: g(3) n(2) assms(10))
  qed
  have max: "max (isize ?n) e = e" using assms(5) by simp
  have "same_rest s s'" using n'(1) by (simp add: same_rest_def)
  then show ?thesis unfolding grown_def
    by (intro conjI exI [of _ n']) (simp_all add: n' old agr g(1,2) max free ip(2))
qed

text \<open>A file that has the blocks for \<open>e\<close> bytes already grows by nothing.\<close>

lemma grown_same:
  assumes "blocks_ok (content s) (inode_table s ! k)" and "length (free_bit_map s) = 129"
    and "own (content s) (inode_table s ! k) \<inter> free_set (free_bit_map s) = {}"
    and "nblocks e \<le> nblocks (isize (inode_table s ! k))" and "e \<le> 274432"
  shows "grown s k e s"
proof -
  let ?n = "inode_table s ! k" and ?c = "content s"
  have "nblocks (max (isize ?n) e) = nblocks (isize ?n)"
    using nblocks_mono [of "isize ?n" e] assms(4) by (auto simp: max_def)
  then have same: "blocks_ok ?c (?n\<lparr>isize := max (isize ?n) e\<rparr>)" "own ?c (?n\<lparr>isize := max (isize ?n) e\<rparr>) = own ?c ?n"
    using same_size_ok [OF assms(1), of "max (isize ?n) e"] assms(5) blocks_okD(2) [OF assms(1)] by simp_all
  have "free_set (free_bit_map s) - own ?c ?n = free_set (free_bit_map s)" using assms(3) by blast
  then show ?thesis unfolding grown_def using same assms(2) by (intro conjI exI [of _ ?n]) simp_all
qed

text \<open>The three ways new blocks are linked to a file.\<close>

lemma link_blocks:
  fixes s :: sfs and k :: nat
  defines "n \<equiv> inode_table s ! k"
  defines "nb \<equiv> nblocks (isize n)"
  assumes "disk_ready s" and "blocks_ok (content s) n" and "length (free_bit_map s) = 129"
    and "k < length (inode_table s)" and "nb + length ns \<le> 268" and "\<forall>x\<in>set ns. x < 1024"
    and "free_set (free_bit_map s) \<inter> {..<35} = {}"
    and "indirectPointer n = 0 \<Longrightarrow> 12 < nb + length ns \<Longrightarrow> free_blocks s \<noteq> {}"
  shows "\<exists>s'. (if indirectPointer n \<noteq> 0 then add_indirect k (nb - 12) ns s else add_direct k (min 12 nb) ns s) = Inr s' \<and>
    linked k ns s s'"
proof (cases "indirectPointer n = 0")
  case False
  then show ?thesis using add_indirect_ok [of s k ns] assms by simp
next
  case True
  then show ?thesis using add_direct_short [of s k ns] add_direct_long [of s k ns] assms by (cases "nb + length ns \<le> 12") simp_all
qed

lemma block_left:
  assumes "distinct ns" and "free_set m = free_set (free_bit_map s) - set ns" and "length ns + 1 \<le> card (free_blocks s)"
  shows "free_blocks (s\<lparr>free_bit_map := m\<rparr>) \<noteq> {}"
proof -
  have "card (set ns) = length ns" using assms(1) by (rule distinct_card)
  then have "\<not> free_set (free_bit_map s) \<inter> {..<1024} \<subseteq> set ns"
    using assms(3) card_mono [of "set ns" "free_set (free_bit_map s) \<inter> {..<1024}"] by (auto simp: free_blocks_def)
  then show ?thesis using assms(2) by (auto simp: free_blocks_def)
qed

lemma fwrite_grow_more:
  assumes "disk_ready s" and "k < length (inode_table s)" and "length (free_bit_map s) = 129"
    and "free_set (free_bit_map s) \<inter> {..<35} = {}"
    and "blocks_ok (content s) (inode_table s ! k)"
    and "own (content s) (inode_table s ! k) \<inter> free_set (free_bit_map s) = {}"
    and "e \<le> 274432" and "blocks_needed (inode_table s ! k) e \<le> card (free_blocks s)"
    and "maps_to bn (block_of (content s) (inode_table s ! k)) K" and "K \<subseteq> {..<nblocks (isize (inode_table s ! k))}"
    and "length bn = 1072"
    and True: "nblocks (isize (inode_table s ! k)) * 1024 < e"
  defines "nb \<equiv> nblocks (isize (inode_table s ! k))"
  shows "\<exists>bn' s'. fwrite_grow k e bn nb (nb - 12) (min 12 nb) (indirectPointer (inode_table s ! k) \<noteq> 0) s =
      Inr (Some bn', s') \<and> grown s k e s' \<and>
    maps_to bn' (block_of (content s') (inode_table s' ! k)) (K \<union> {nb..<nblocks e})"
proof -
  let ?n = "inode_table s ! k" and ?c = "content s" and ?F = "free_set (free_bit_map s)"
  note True = True [folded nb_def]
  have e268: "nblocks e \<le> 268" using nblocks_mono [OF assms(7)] by (simp add: nblocks_def)
  let ?need = "new_blocks e nb"
  have need: "nb + ?need = nblocks e" using new_blocks_eq [OF True] .
  have sz: "isize ?n < e" using True nblocks_bounds(1) [of "isize ?n"] by (simp add: nb_def)
  have room: "?need \<le> card (?F \<inter> {..<1024})" using assms(8) need
    by (simp add: blocks_needed_def free_blocks_def nb_def [symmetric])
  have "4 * (nb + ?need) \<le> length bn" using need e268 assms(11) by simp
  then obtain ns m where al: "alloc_loop ?need nb bn (free_bit_map s) =
      Inr (ns, True, overwrite bn (4 * nb) (ints_bytes ns), m)" "length m = 129" "length ns = ?need"
      "distinct ns" "set ns \<subseteq> ?F \<inter> {35..<1024}" "free_set m = ?F - set ns"
    using alloc_loop_ok [OF assms(3,4) room] by blast
  have ne: "nblocks e = nb + length ns" using need al(3) by simp
  have ns: "\<forall>x\<in>set ns. x < 1024" using al(5) by auto
  let ?s = "s\<lparr>free_bit_map := m\<rparr>"
  have ready: "disk_ready ?s" "blocks_ok (content ?s) (inode_table ?s ! k)" "length (free_bit_map ?s) = 129"
    using assms(1,5) al(2) by simp_all
  have left: "free_blocks ?s \<noteq> {}" if "indirectPointer ?n = 0" "12 < nb + length ns"
  proof (rule block_left [OF al(4,6)])
    show "length ns + 1 \<le> card (free_blocks s)" using assms(8) that ne by (simp add: blocks_needed_def nb_def [symmetric])
  qed
  have "free_set (free_bit_map ?s) \<inter> {..<35} = {}" using assms(4) al(6) by auto
  then obtain s' where run: "(if indirectPointer ?n \<noteq> 0 then add_indirect k (nb - 12) ns ?s
      else add_direct k (min 12 nb) ns ?s) = Inr s'" and link: "linked k ns ?s s'"
    using link_blocks [of ?s k ns] assms(1,2,5) al(2) ns ne e268 left by (auto simp: nb_def cong: if_cong)
  have gr: "grown s k e s'"
    using linked_grown [OF link assms(5,6,2) sz] ne al(4-6) assms(7) by (simp add: nb_def)
  have it: "isize (inode_table s' ! k) = isize ?n"
    "\<And>j. j < nb \<Longrightarrow> block_of (content s') (inode_table s' ! k) j = block_of ?c ?n j"
    "\<And>i. i < length ns \<Longrightarrow> block_of (content s') (inode_table s' ! k) (nb + i) = ns ! i"
    using link assms(2) unfolding linked_def by (auto simp: nb_def)
  have "maps_to (overwrite bn (4 * nb) (ints_bytes ns)) (block_of (content s') (inode_table s' ! k))
      (K \<union> {nb..<nb + length ns})"
    using assms(10,11) ne e268 by (intro maps_grow [OF assms(9) _ it(2,3) ns]) (simp_all add: nb_def)
  moreover have "fwrite_grow k e bn nb (nb - 12) (min 12 nb) (indirectPointer ?n \<noteq> 0) s =
      Inr (Some (overwrite bn (4 * nb) (ints_bytes ns)), s')"
    using True al(1) run by (auto simp: fwrite_grow_def Let_def split: if_splits)
  ultimately show ?thesis using gr ne by auto
qed

lemma fwrite_grow_ok:
  assumes "disk_ready s" and "k < length (inode_table s)" and "length (free_bit_map s) = 129"
    and "free_set (free_bit_map s) \<inter> {..<35} = {}"
    and "blocks_ok (content s) (inode_table s ! k)"
    and "own (content s) (inode_table s ! k) \<inter> free_set (free_bit_map s) = {}"
    and "e \<le> 274432" and "blocks_needed (inode_table s ! k) e \<le> card (free_blocks s)"
    and "maps_to bn (block_of (content s) (inode_table s ! k)) K" and "K \<subseteq> {..<nblocks (isize (inode_table s ! k))}"
    and "length bn = 1072"
  defines "nb \<equiv> nblocks (isize (inode_table s ! k))"
  shows "\<exists>bn' s'. fwrite_grow k e bn nb (nb - 12) (min 12 nb) (indirectPointer (inode_table s ! k) \<noteq> 0) s =
      Inr (Some bn', s') \<and> grown s k e s' \<and>
    maps_to bn' (block_of (content s') (inode_table s' ! k)) (K \<union> {nb..<nblocks e})"
proof (cases "nb * 1024 < e")
  case False
  then have le: "nblocks e \<le> nb" using nblocks_mono [of e "nb * 1024"] nblocks_unique [of "nb * 1024" nb] by simp
  then have "grown s k e s" using grown_same [OF assms(5,3,6) _ assms(7)] by (simp add: nb_def)
  moreover have "K \<union> {nb..<nblocks e} = K" using le by simp
  ultimately show ?thesis using False assms(9) by (simp add: fwrite_grow_def)
next
  case True
  then show ?thesis unfolding nb_def by (rule fwrite_grow_more [OF assms(1-11)])
qed

subsection \<open>Writing a file\<close>

lemma inode_data_isize: "length (inode_data c n) = isize n"
  by (simp add: inode_data_def)

text \<open>A byte of the file that is not written.\<close>

lemma kept_byte:
  assumes N: "blocks_ok c3 N" "i < isize n" "isize n \<le> isize N" "q + length data \<le> isize N"
    and old: "\<forall>j<nblocks (isize n). block_of c3 N j = block_of c n j"
    and agr: "\<forall>B. indirectPointer N = 0 \<or> indirectPointer N \<notin> B \<longrightarrow> agree B c c3"
    and w: "wrote (block_of c3 N) q data c3 c4" and out: "i < q \<or> q + length data \<le> i"
  shows "c4 (addr (block_of c3 N) i) = c (addr (block_of c n) i)"
proof -
  let ?b = "block_of c3 N"
  have bi: "i div 1024 < nblocks (isize N)" using N(2,3) by (intro byte_block) simp
  have "addr ?b i \<noteq> addr ?b (q + t)" if "t < length data" for t
  proof -
    have "(q + t) div 1024 < nblocks (isize N)" using that N(4) by (intro byte_block) simp
    then show ?thesis using addr_inj [OF _ blocks_okD(5) [OF N(1)], of i "q + t"] bi out that by auto
  qed
  then have same: "c4 (addr ?b i) = c3 (addr ?b i)" using w by (simp add: wrote_def)
  have "i div 1024 < nblocks (isize n)" using N(2) by (rule byte_block)
  then have eq: "?b (i div 1024) = block_of c n (i div 1024)" using old by simp
  have "indirectPointer N \<notin> {?b (i div 1024)}" using N(1) bi by (auto simp: blocks_ok_def)
  then have "agree {?b (i div 1024)} c c3" using agr by blast
  then show ?thesis using same by (simp add: eq agree_def addr_def)
qed

text \<open>The file that was grown and written, byte by byte.\<close>

lemma written_data:
  assumes N: "blocks_ok c3 N" "isize N = max (isize n) (q + length data)"
    and old: "\<forall>j<nblocks (isize n). block_of c3 N j = block_of c n j"
    and agr: "\<forall>B. indirectPointer N = 0 \<or> indirectPointer N \<notin> B \<longrightarrow> agree B c c3"
    and w: "wrote (block_of c3 N) q data c3 c4" and "q \<le> isize n"
  shows "inode_data c4 N = overwrite (inode_data c n) q data" and "blocks_ok c4 N" and "own c4 N = own c3 N"
    and "\<And>B. B \<inter> own c3 N = {} \<Longrightarrow> agree B c3 c4"
proof -
  let ?b = "block_of c3 N"
  note b = blocks_okD [OF N(1)]
  have blk: "(q + i) div 1024 < nblocks (isize N)" if "i < length data" for i
    using that N(2) by (intro byte_block) simp
  have hit: "?b ((q + i) div 1024) \<in> ?b ` {..<nblocks (isize N)}" if "i < length data" for i
    using blk [OF that] by auto
  have ip: "indirectPointer N \<notin> ?b ` {..<nblocks (isize N)}" using N(1) by (simp add: blocks_ok_def)
  show outside: "agree B c3 c4" if "B \<inter> own c3 N = {}" for B
    using w hit that by (intro agree_wrote [OF w]) (auto simp: own_def)
  have "agree ({indirectPointer N} - {0}) c3 c4" using hit ip by (intro agree_wrote [OF w]) (metis DiffD1 singletonD)
  note m = frame_map [OF N(1) this]
  show "blocks_ok c4 N" "own c4 N = own c3 N" by (rule m(3), rule m(2))
  show "inode_data c4 N = overwrite (inode_data c n) q data"
  proof (rule nth_equalityI)
    show "length (inode_data c4 N) = length (overwrite (inode_data c n) q data)"
      using N(2) assms(6) by (simp add: inode_data_isize overwrite_def)
  next
    fix i assume "i < length (inode_data c4 N)"
    then have i: "i < isize N" by (simp add: inode_data_isize)
    have bi: "i div 1024 < nblocks (isize N)" using i by (rule byte_block)
    have lhs: "inode_data c4 N ! i = c4 (addr ?b i)" using i m(1) [OF bi] by (simp add: inode_data_def addr_def)
    show "inode_data c4 N ! i = overwrite (inode_data c n) q data ! i"
    proof (cases "q \<le> i \<and> i < q + length data")
      case True
      then obtain t where t: "i = q + t" "t < length data" by (metis le_Suc_ex nat_add_left_cancel_less)
      then have "c4 (addr ?b i) = data ! t" using w by (simp add: wrote_def)
      moreover have "overwrite (inode_data c n) q data ! i = data ! t"
        using t assms(6) by (simp add: overwrite_def nth_append inode_data_isize min_absorb2)
      ultimately show ?thesis using lhs by simp
    next
      case False
      then have sz: "i < isize n" using i N(2) assms(6) by auto
      have rhs: "overwrite (inode_data c n) q data ! i = inode_data c n ! i"
        using False sz assms(6) by (auto simp: overwrite_def nth_append inode_data_isize min_absorb2)
      have "c4 (addr ?b i) = c (addr (block_of c n) i)"
        using kept_byte [OF N(1) sz _ _ old agr w] N(2) False by auto
      then show ?thesis using lhs rhs sz by (simp add: inode_data_def)
    qed
  qed
qed

lemma fs_invD:
  assumes "fs_inv s"
  shows "disk_ready s" and "globals_ok s" and "length (inode_table s) = 100" and "length (fd_table s) = 100"
    and "length (free_bit_map s) = 129"
    and "\<And>k. k < 100 \<Longrightarrow> blocks_ok (content s) (inode_table s ! k)"
    and "\<And>k. k < 100 \<Longrightarrow> own (content s) (inode_table s ! k) \<inter> free_set (free_bit_map s) = {}"
    and "\<And>j k. j < 100 \<Longrightarrow> k < 100 \<Longrightarrow> j \<noteq> k \<Longrightarrow>
      own (content s) (inode_table s ! j) \<inter> own (content s) (inode_table s ! k) = {}"
    and "free_set (free_bit_map s) \<inter> {..<35} = {}"
  using assms unfolding fs_inv_def globals_ok_def by blast+

text \<open>A file whose blocks are replaced by some of its own and of the free ones leaves the other files alone.\<close>

lemma fs_inv_replace:
  assumes "fs_inv s" and k: "k < 100" and it: "inode_table s' = (inode_table s)[k := N]" and N: "blocks_ok (content s') N"
    and own: "own (content s') N \<subseteq> own (content s) (inode_table s ! k) \<union> free_set (free_bit_map s)"
    and agr: "\<And>B. B \<inter> own (content s') N = {} \<Longrightarrow> agree B (content s) (content s')"
    and F: "free_set (free_bit_map s') = free_set (free_bit_map s) - own (content s') N"
    and rest: "length (free_bit_map s') = 129" "rootDir s' = rootDir s" "length (fd_table s') = 100" "disk_ready s'"
  shows "fs_inv s'" and "\<And>j. j < 100 \<Longrightarrow> j \<noteq> k \<Longrightarrow> file_data s' j = file_data s j"
proof -
  note inv = fs_invD [OF assms(1)]
  let ?c = "content s" and ?c' = "content s'" and ?own = "\<lambda>j. own (content s) (inode_table s ! j)"
  have disj: "?own j \<inter> own ?c' N = {}" if "j < 100" "j \<noteq> k" for j
    using inv(7) [OF that(1)] inv(8) [OF that(1) k that(2)] own by blast
  note frame = agr [OF disj]
  have ino: "inode_table s' ! k = N" "\<And>j. j \<noteq> k \<Longrightarrow> inode_table s' ! j = inode_table s ! j"
    using inv(3) k by (simp_all add: it)
  have own': "own ?c' (inode_table s' ! j) = (if j = k then own ?c' N else ?own j)" if "j < 100" for j
    using that ino frame_file(1) [OF inv(6) frame] by simp
  show "file_data s' j = file_data s j" if "j < 100" "j \<noteq> k" for j
    using frame_file(3) [OF inv(6) frame] that ino by (simp add: file_data_def)
  show "fs_inv s'" unfolding fs_inv_def
  proof (intro conjI allI impI)
    show "globals_ok s'" using inv(2) rest(1-3) by (simp add: globals_ok_def it)
    show "free_set (free_bit_map s') \<inter> {..<35} = {}" using inv(9) by (auto simp: F)
    fix j assume j: "j < (100::nat)"
    show "blocks_ok ?c' (inode_table s' ! j)"
      using j N ino frame_file(2) [OF inv(6) frame] by (cases "j = k") simp_all
    show "own ?c' (inode_table s' ! j) \<inter> free_set (free_bit_map s') = {}"
      using inv(7) [OF j] own' [OF j] by (auto simp: F)
    fix i assume i: "i < (100::nat)" "j \<noteq> i"
    show "own ?c' (inode_table s' ! j) \<inter> own ?c' (inode_table s' ! i) = {}"
      using inv(8) [OF j i] disj [OF j] disj [OF i(1)] own' [OF j] own' [OF i(1)] i(2) by (auto simp: Int_commute)
  qed (rule rest(4))
qed

text \<open>A direct file keeps its blocks.\<close>

lemma own_grows:
  assumes "indirectPointer n = 0" and "isize n \<le> isize N" and "\<forall>j<nblocks (isize n). block_of c3 N j = block_of c n j"
  shows "own c n \<subseteq> own c3 N"
proof -
  have "block_of c n ` {..<nblocks (isize n)} = block_of c3 N ` {..<nblocks (isize n)}"
    using assms(3) by (intro image_cong) auto
  also have "\<dots> \<subseteq> block_of c3 N ` {..<nblocks (isize N)}"
    using nblocks_mono [OF assms(2)] by (intro image_mono) auto
  also have "\<dots> \<subseteq> own c3 N" by (auto simp: own_def)
  finally show ?thesis using assms(1) by (simp add: own_def)
qed

text \<open>
  The whole file system after the write: the invariant holds and no other file has
  changed.
\<close>

lemma written_fs:
  assumes "fs_inv s" and k: "k < 100" and gr: "grown s k (q + length data) s3"
    and w: "wrote (block_of (content s3) (inode_table s3 ! k)) q data (content s3) (content s')"
    and "q \<le> isize (inode_table s ! k)"
    and it: "inode_table s' = (inode_table s3)[k := (inode_table s3 ! k)\<lparr>isize := max (isize (inode_table s3 ! k)) (q + length data)\<rparr>]"
    and fm: "free_bit_map s' = free_bit_map s3"
    and "rootDir s' = rootDir s" and "length (fd_table s') = 100" and "disk_ready s'"
  shows "fs_inv s'" and "file_data s' k = overwrite (file_data s k) q data"
    and "\<And>j. j < 100 \<Longrightarrow> j \<noteq> k \<Longrightarrow> file_data s' j = file_data s j"
    and "agree {..<35} (content s) (content s')"
    and "free_set (free_bit_map s') = free_set (free_bit_map s) - own (content s') (inode_table s' ! k)"
    and "indirectPointer (inode_table s ! k) = 0 \<Longrightarrow> own (content s) (inode_table s ! k) \<subseteq> own (content s') (inode_table s' ! k)"
proof -
  note inv = fs_invD [OF assms(1)]
  let ?n = "inode_table s ! k" and ?c = "content s" and ?c3 = "content s3" and ?c' = "content s'"
  let ?F = "free_set (free_bit_map s)" and ?own = "\<lambda>j. own ?c (inode_table s ! j)"
  obtain n' where n': "inode_table s3 = (inode_table s)[k := n']" "isize n' = isize ?n"
      "blocks_ok ?c3 (n'\<lparr>isize := max (isize n') (q + length data)\<rparr>)"
    and old: "\<forall>j<nblocks (isize n'). block_of ?c3 n' j = block_of ?c ?n j"
    and agr: "\<forall>B. indirectPointer n' = 0 \<or> indirectPointer n' \<notin> B \<longrightarrow> agree B ?c ?c3"
    and sub: "own ?c3 (n'\<lparr>isize := max (isize n') (q + length data)\<rparr>) \<subseteq> ?own k \<union> ?F"
    and free: "free_set (free_bit_map s3) = ?F - own ?c3 (n'\<lparr>isize := max (isize n') (q + length data)\<rparr>)"
      "length (free_bit_map s3) = 129"
    using gr unfolding grown_def by blast
  define N where "N = n'\<lparr>isize := max (isize n') (q + length data)\<rparr>"
  have n3: "inode_table s3 ! k = n'" using n'(1) inv(3) k by simp
  have it': "inode_table s' = (inode_table s)[k := N]" unfolding it n3 by (simp add: n'(1) N_def)
  have N: "blocks_ok ?c3 N" "isize N = max (isize ?n) (q + length data)" using n'(2,3) by (simp_all add: N_def)
  have oldN: "\<forall>j<nblocks (isize ?n). block_of ?c3 N j = block_of ?c ?n j" using old n'(2) by (simp add: N_def)
  have agrN: "\<forall>B. indirectPointer N = 0 \<or> indirectPointer N \<notin> B \<longrightarrow> agree B ?c ?c3" using agr by (simp add: N_def)
  have wN: "wrote (block_of ?c3 N) q data ?c3 ?c'" using w by (simp add: n3 N_def)
  note wd = written_data [OF N oldN agrN wN assms(5)]
  have ownN: "own ?c3 N \<subseteq> ?own k \<union> ?F" using sub by (simp add: N_def)
  have outside: "agree B ?c ?c'" if "B \<inter> own ?c3 N = {}" for B
  proof -
    have "indirectPointer N = 0 \<or> indirectPointer N \<notin> B" using that by (auto simp: own_def)
    then have "agree B ?c ?c3" using agrN by blast
    then show ?thesis using wd(4) [OF that] by (rule agree_trans)
  qed
  have "own ?c3 N \<subseteq> {35..<1024}" using N(1) by (simp add: blocks_ok_def)
  then show "agree {..<35} ?c ?c'" by (intro outside) auto
  have ino: "inode_table s' ! k = N" using inv(3) k by (simp add: it')
  show "file_data s' k = overwrite (file_data s k) q data" by (simp add: file_data_def ino wd(1))
  have F': "free_set (free_bit_map s') = ?F - own ?c' N" by (simp add: fm free N_def [symmetric] wd(3))
  then show "free_set (free_bit_map s') = ?F - own ?c' (inode_table s' ! k)" by (simp add: ino)
  show "own ?c ?n \<subseteq> own ?c' (inode_table s' ! k)" if "indirectPointer ?n = 0"
    using own_grows [OF that _ oldN] N(2) by (simp add: ino wd(3))
  have len: "length (free_bit_map s') = 129" using fm free(2) by simp
  show "fs_inv s'"
    by (rule fs_inv_replace(1) [OF assms(1) k it' wd(2) _ _ F' len assms(8-10)]) (use ownN outside wd(3) in auto)
  show "file_data s' j = file_data s j" if "j < 100" "j \<noteq> k" for j
    by (rule fs_inv_replace(2) [OF assms(1) k it' wd(2) _ _ F' len assms(8-10) that]) (use ownN outside wd(3) in auto)
qed

lemma fs_inv_io: "fs_inv s \<Longrightarrow> fs_inv (upd_fd k g (upd_io u (content s) f s))"
  by (simp add: fs_inv_def globals_ok_def)

lemma file_data_io: "content s' = content s \<Longrightarrow> inode_table s' = inode_table s \<Longrightarrow> file_data s' k = file_data s k"
  by (simp add: file_data_def)

text \<open>
  A write inside the limits: the block numbers it goes through must be among those the
  code has right, which excludes only part of the blocks behind the indirect pointer.
\<close>

definition writable :: "sfs \<Rightarrow> nat \<Rightarrow> nat \<Rightarrow> bool" where
  "writable s k len \<longleftrightarrow>
     (let n = inode_table s ! k; q = rwptr (fd_table s ! k) in
      k < 100 \<and> mode n \<noteq> 1 \<and> 0 < len \<and> q \<le> isize n \<and> q + len \<le> 274432 \<and>
      blocks_needed n (q + len) \<le> card (free_blocks s) \<and>
      touched q len \<subseteq> known n \<union> {nblocks (isize n)..})"

text \<open>The parts of a write put together: what the function returns and its last updates.\<close>

lemma fwrite_run:
  assumes "sem s = Some (Suc v)" and "sem_wait s = Inr (s\<lparr>sem := Some v\<rparr>)" and "k < 100"
    and "mode (inode_table s ! k) \<noteq> 1" and "rwptr (fd_table s ! k) + len \<le> 274432"
    and "fwrite_blocknums k (s\<lparr>sem := Some v\<rparr>) = Inr (bn, nb, ip, dp, s2)"
    and "fwrite_grow k (rwptr (fd_table s ! k) + len) bn nb ip dp (indirectPointer (inode_table s ! k) \<noteq> 0) s2 = Inr (Some bn', s3)"
    and "write_helper buf (int len) bn' (rwptr (fd_table s ! k) mod 1024) (int (rwptr (fd_table s ! k) div 1024)) s3 = Inr (len, s4)"
    and "sem s4 = Some v" and "disk_access s4"
  shows "sfs_fwrite (int k) buf (int len) s = Inr (int len,
    (upd_fd k (\<lambda>d. d\<lparr>rwptr := rwptr (fd_table s ! k) + len\<rparr>)
      (upd_inode k (\<lambda>n. n\<lparr>isize := max (isize n) (rwptr (fd_table s ! k) + len)\<rparr>) s4))\<lparr>sem := Some (Suc v)\<rparr>)"
proof -
  let ?q = "rwptr (fd_table s ! k)"
  let ?e = "?q + len"
  define s5 where "s5 = upd_inode k (\<lambda>n. n\<lparr>isize := max (isize n) ?e\<rparr>) s4"
  define s6 where "s6 = upd_fd k (\<lambda>d. d\<lparr>rwptr := ?e\<rparr>) s5"
  have e: "u64 (int len + int ?q) = ?e" "u32 (int ?e) = ?e" using assms(5) by (simp_all add: nat_add_distrib)
  have "u64 (int ?q + int len) = ?e" using e(1) by (simp only: add.commute)
  moreover have "?q div 1024 < 2147483648" using assms(5) by (intro le_less_trans [OF div_le_dividend]) simp
  moreover have "(if ?e > isize (inode_table s4 ! k) then upd_inode k (\<lambda>n. n\<lparr>isize := u32 (int ?e)\<rparr>) s4 else s4) = s5"
  proof (cases "?e > isize (inode_table s4 ! k)")
    case True
    then have "max (isize (inode_table s4 ! k)) ?e = ?e" by simp
    then show ?thesis using True by (simp only: s5_def upd_inode_def if_True e(2))
  next
    case False
    then have "max (isize (inode_table s4 ! k)) ?e = isize (inode_table s4 ! k)" by simp
    then show ?thesis using False by (simp only: s5_def upd_inode_def if_False) simp
  qed
  moreover have "post_return (int len) s6 = Inr (int len, s6\<lparr>sem := Some (Suc v)\<rparr>)"
    using assms(9,10) by (simp add: s6_def s5_def)
  moreover have "table_index (int k) = Inr k" using assms(3) by (simp add: table_index_def)
  ultimately show ?thesis
    using assms(4-8) by (simp add: sfs_fwrite_def assms(2) e(1) Let_def s6_def s5_def [symmetric] split: if_split_asm)
qed

text \<open>The first half of a write: the file has grown and the array has the block numbers that will be used.\<close>

lemma fwrite_prepared:
  assumes "fs_inv s" and wr: "writable s k len" and s1: "s1 = s\<lparr>sem := v\<rparr>"
  defines "n \<equiv> inode_table s ! k" and "q \<equiv> rwptr (fd_table s ! k)"
  obtains bn bn' u f s3 where
    "fwrite_blocknums k s1 = Inr (bn, nblocks (isize n), nblocks (isize n) - 12, min 12 (nblocks (isize n)), upd_io u (content s) f s1)"
    and "fwrite_grow k (q + len) bn (nblocks (isize n)) (nblocks (isize n) - 12) (min 12 (nblocks (isize n)))
      (indirectPointer n \<noteq> 0) (upd_io u (content s) f s1) = Inr (Some bn', s3)"
    and "grown (upd_io u (content s) f s1) k (q + len) s3"
    and "maps_to bn' (block_of (content s3) (inode_table s3 ! k)) (touched q len)"
    and "inj_on (block_of (content s3) (inode_table s3 ! k)) (touched q len)"
proof -
  let ?n = "inode_table s ! k" and ?e = "q + len"
  define nb where "nb = nblocks (isize ?n)"
  note inv = fs_invD [OF assms(1)]
  have k: "k < 100" and len: "0 < len" "q \<le> isize ?n" "?e \<le> 274432"
    and room: "blocks_needed ?n ?e \<le> card (free_blocks s)"
    and tch: "touched q len \<subseteq> known ?n \<union> {nb..}" using wr by (simp_all add: writable_def Let_def nb_def q_def)
  have s1': "disk_ready s1" "blocks_ok (content s1) (inode_table s1 ! k)" "inode_table s1 = inode_table s"
    "content s1 = content s" using inv(1) inv(6) [OF k] by (simp_all add: s1)
  obtain bn u f where bn: "fwrite_blocknums k s1 = Inr (bn, nb, nb - 12, min 12 nb, upd_io u (content s) f s1)"
      "maps_to bn (block_of (content s) ?n) (known ?n)" "length bn = 1072"
    using fwrite_blocknums_ok [OF s1'(1,2)] by (auto simp: s1' nb_def)
  define s2 where "s2 = upd_io u (content s) f s1"
  have s2: "disk_ready s2" "inode_table s2 = inode_table s" "content s2 = content s"
    "free_bit_map s2 = free_bit_map s" "free_blocks s2 = free_blocks s"
    using s1'(1) by (simp_all add: s2_def free_blocks_def) (simp_all add: s1)
  have kn: "known ?n \<subseteq> {..<nblocks (isize ?n)}" by (auto simp: known_def)
      (use blocks_okD(6) [OF inv(6) [OF k]] in auto)
  obtain bn' s3 where gr: "fwrite_grow k ?e bn nb (nb - 12) (min 12 nb) (indirectPointer ?n \<noteq> 0) s2 = Inr (Some bn', s3)"
      "grown s2 k ?e s3" "maps_to bn' (block_of (content s3) (inode_table s3 ! k)) (known ?n \<union> {nb..<nblocks ?e})"
    using fwrite_grow_ok [of s2 k ?e bn "known ?n"] inv(3,5,9) inv(6,7) [OF k] k len(3) room bn kn s2
    by (auto simp: nb_def)
  have t: "touched q len \<subseteq> {..<nblocks ?e}" using len(1) by (intro touched_nblocks) simp_all
  then have "touched q len \<subseteq> known ?n \<union> {nb..<nblocks ?e}" using tch by auto
  then have m: "maps_to bn' (block_of (content s3) (inode_table s3 ! k)) (touched q len)" by (rule maps_to_mono [OF gr(3)])
  have N: "blocks_ok (content s3) ((inode_table s3 ! k)\<lparr>isize := max (isize ?n) ?e\<rparr>)"
    using gr(2) inv(3) k s2(2) unfolding grown_def by auto
  have "nblocks ?e \<le> nblocks (max (isize ?n) ?e)" by (intro nblocks_mono) simp
  then have le: "touched q len \<subseteq> {..<nblocks (max (isize ?n) ?e)}" using t by (auto simp: subset_iff)
  have "inj_on (block_of (content s3) (inode_table s3 ! k)) (touched q len)"
    using inj_on_subset [OF blocks_okD(5) [OF N]] le by simp
  then show ?thesis using that bn(1) gr(1,2) m unfolding n_def nb_def s2_def by blast
qed

text \<open>The second half: the data is written, then the size and the position.\<close>

lemma written_update:
  assumes "fs_inv s" and k: "k < 100" and gr: "grown s k (q + length data) s3" and q: "q \<le> isize (inode_table s ! k)"
    and w: "wrote (block_of (content s3) (inode_table s3 ! k)) q data (content s3) c'"
    and s': "s' = (upd_fd k g (upd_inode k (\<lambda>n. n\<lparr>isize := max (isize n) (q + length data)\<rparr>) (upd_io u c' f s3)))\<lparr>sem := v\<rparr>"
  shows "fs_inv s'" and "file_data s' k = overwrite (file_data s k) q data"
    and "\<And>j. j < 100 \<Longrightarrow> j \<noteq> k \<Longrightarrow> file_data s' j = file_data s j" and "agree {..<35} (content s) (content s')"
    and "free_set (free_bit_map s') = free_set (free_bit_map s) - own (content s') (inode_table s' ! k)"
    and "indirectPointer (inode_table s ! k) = 0 \<Longrightarrow> own (content s) (inode_table s ! k) \<subseteq> own (content s') (inode_table s' ! k)"
    and "mode (inode_table s' ! k) = mode (inode_table s ! k)" and "\<And>j. j \<noteq> k \<Longrightarrow> inode_table s' ! j = inode_table s ! j"
    and "rootDir s' = rootDir s" and "fd_table s' = (fd_table s)[k := g (fd_table s ! k)]"
proof -
  note inv = fs_invD [OF assms(1)]
  have s3: "disk_ready s3" "fd_table s3 = fd_table s" "rootDir s3 = rootDir s" "mode (inode_table s3 ! k) = mode (inode_table s ! k)"
    "length (inode_table s3) = 100" "\<And>j. j \<noteq> k \<Longrightarrow> inode_table s3 ! j = inode_table s ! j"
    using gr inv(1,3) k unfolding grown_def same_rest_def by auto
  have f: "content s' = c'" "free_bit_map s' = free_bit_map s3" "rootDir s' = rootDir s" "disk_ready s'"
    "inode_table s' = (inode_table s3)[k := (inode_table s3 ! k)\<lparr>isize := max (isize (inode_table s3 ! k)) (q + length data)\<rparr>]"
    "fd_table s' = (fd_table s)[k := g (fd_table s ! k)]" "length (fd_table s') = 100"
    using s3 inv(4) by (simp_all add: s')
  note fin = written_fs [OF assms(1) k gr w [folded f(1)] q f(5,2,3,7,4)]
  show "fs_inv s'" "file_data s' k = overwrite (file_data s k) q data" "agree {..<35} (content s) (content s')"
    "free_set (free_bit_map s') = free_set (free_bit_map s) - own (content s') (inode_table s' ! k)" by (fact fin(1,2,4,5))+
  show "\<And>j. j < 100 \<Longrightarrow> j \<noteq> k \<Longrightarrow> file_data s' j = file_data s j"
    "indirectPointer (inode_table s ! k) = 0 \<Longrightarrow> own (content s) (inode_table s ! k) \<subseteq> own (content s') (inode_table s' ! k)"
    by (fact fin(3,6))+
  show "mode (inode_table s' ! k) = mode (inode_table s ! k)" using s3(4,5) k by (simp add: f(5))
  show "\<And>j. j \<noteq> k \<Longrightarrow> inode_table s' ! j = inode_table s ! j" using s3(6) by (simp add: f(5))
  show "rootDir s' = rootDir s" "fd_table s' = (fd_table s)[k := g (fd_table s ! k)]" by (fact f(3,6))+
qed

lemma sfs_fwrite_core:
  assumes "fs_inv s" and "sem_ready s" and wr: "writable s k len" and "len \<le> length buf"
  shows "\<exists>s'. sfs_fwrite (int k) buf (int len) s = Inr (int len, s') \<and> fs_inv s' \<and>
    file_data s' k = overwrite (file_data s k) (rwptr (fd_table s ! k)) (take len buf) \<and>
    (\<forall>j<100. j \<noteq> k \<longrightarrow> file_data s' j = file_data s j) \<and>
    fd_table s' = (fd_table s)[k := (fd_table s ! k)\<lparr>rwptr := rwptr (fd_table s ! k) + len\<rparr>] \<and>
    rootDir s' = rootDir s \<and> sem_ready s' \<and> mode (inode_table s' ! k) = mode (inode_table s ! k) \<and>
    (\<forall>j. j \<noteq> k \<longrightarrow> inode_table s' ! j = inode_table s ! j) \<and> agree {..<35} (content s) (content s') \<and>
    free_set (free_bit_map s') = free_set (free_bit_map s) - own (content s') (inode_table s' ! k) \<and>
    (indirectPointer (inode_table s ! k) = 0 \<longrightarrow> own (content s) (inode_table s ! k) \<subseteq> own (content s') (inode_table s' ! k))"
proof -
  let ?n = "inode_table s ! k" and ?q = "rwptr (fd_table s ! k)"
  let ?e = "?q + len"
  define nb where "nb = nblocks (isize ?n)"
  note inv = fs_invD [OF assms(1)]
  have k: "k < 100" and open_: "mode ?n \<noteq> 1" and len: "0 < len" "?q \<le> isize ?n" "?e \<le> 274432" using wr by (simp_all add: writable_def Let_def)
  obtain v where v: "disk_access s" "sem s = Some (Suc v)" "sem_wait s = Inr (s\<lparr>sem := Some v\<rparr>)"
    using assms(2) by (rule sem_readyE)
  define s1 where "s1 = s\<lparr>sem := Some v\<rparr>"
  obtain bn bn' u f s3 where bn: "fwrite_blocknums k s1 = Inr (bn, nb, nb - 12, min 12 nb, upd_io u (content s) f s1)"
    and gr: "fwrite_grow k ?e bn nb (nb - 12) (min 12 nb) (indirectPointer ?n \<noteq> 0) (upd_io u (content s) f s1) = Inr (Some bn', s3)"
      "grown (upd_io u (content s) f s1) k ?e s3"
    and m: "maps_to bn' (block_of (content s3) (inode_table s3 ! k)) (touched ?q len)"
    and inj: "inj_on (block_of (content s3) (inode_table s3 ! k)) (touched ?q len)"
    unfolding nb_def by (rule fwrite_prepared [OF assms(1) wr s1_def])
  define s2 where "s2 = upd_io u (content s) f s1"
  have s2: "disk_ready s2" "inode_table s2 = inode_table s" "content s2 = content s" "free_bit_map s2 = free_bit_map s"
    "fd_table s2 = fd_table s" "rootDir s2 = rootDir s" "sem s2 = Some v" "disk_access s2"
    using inv(1) v(1) by (simp_all add: s2_def s1_def)
  note gr = gr [folded s2_def]
  have fs2: "fs_inv s2" using assms(1) s2 inv(1) by (simp add: fs_inv_def globals_ok_def)
  have s3: "disk_ready s3" "sem s3 = Some v" "disk_access s3"
    using gr(2) s2 unfolding grown_def same_rest_def by auto
  obtain u' f' c' where wh: "write_helper buf (int len) bn' (?q mod 1024) (int (?q div 1024)) s3 =
      Inr (len, upd_io u' c' f' s3)" "wrote (block_of (content s3) (inode_table s3 ! k)) ?q (take len buf) (content s3) c'"
    using write_helper_ok [OF s3(1) len(1) assms(4) m inj] by blast
  define s4 where "s4 = upd_io u' c' f' s3"
  define s' where "s' = (upd_fd k (\<lambda>d. d\<lparr>rwptr := ?e\<rparr>) (upd_inode k (\<lambda>n. n\<lparr>isize := max (isize n) ?e\<rparr>) s4))\<lparr>sem := Some (Suc v)\<rparr>"
  have s4: "sem s4 = Some v" "disk_access s4" using s3 by (simp_all add: s4_def)
  have run: "sfs_fwrite (int k) buf (int len) s = Inr (int len, s')"
    unfolding s'_def
    by (rule fwrite_run [OF v(2,3) k open_ len(3) bn [unfolded s1_def] gr(1) [unfolded s2_def s1_def]
          wh(1) [folded s4_def] s4])
  have l: "length (take len buf) = len" using assms(4) by simp
  note fin = written_update [OF fs2 k, where q = ?q and data = "take len buf" and s' = s', unfolded l s2,
      OF gr(2) len(2) wh(2) s'_def [unfolded s4_def]]
  have "file_data s2 j = file_data s j" for j using s2 by (intro file_data_io)
  moreover have "sem_ready s'" using s4 by (simp add: sem_ready_def s'_def)
  ultimately show ?thesis using run fin by auto
qed

subsection \<open>The error branches\<close>

lemma fread_closed:
  assumes "sem_ready s" and "k < 100" and "mode (inode_table s ! k) = 1"
  shows "sfs_fread (int k) buf len s = Inr (-1, buf, s)"
proof -
  obtain v where "disk_access s" "sem s = Some (Suc v)" "sem_wait s = Inr (s\<lparr>sem := Some v\<rparr>)"
    using assms(1) by (rule sem_readyE)
  then show ?thesis using assms(2,3) by (simp add: sfs_fread_def)
qed

lemma fread_beyond:
  assumes "sem_ready s" and "k < 100" and "isize (inode_table s ! k) < rwptr (fd_table s ! k) + len"
    and "rwptr (fd_table s ! k) + len < 2 ^ 64"
  shows "sfs_fread (int k) buf (int len) s = Inr (-1, buf, s)"
proof -
  obtain v where "disk_access s" "sem s = Some (Suc v)" "sem_wait s = Inr (s\<lparr>sem := Some v\<rparr>)"
    using assms(1) by (rule sem_readyE)
  moreover have "u64 (int (rwptr (fd_table s ! k)) + int len) = rwptr (fd_table s ! k) + len"
    using assms(4) by (simp add: nat_add_distrib)
  ultimately show ?thesis using assms(2,3) by (simp add: sfs_fread_def Let_def)
qed

lemma fwrite_too_big:
  assumes "sem_ready s" and "k < 100" and "274432 < rwptr (fd_table s ! k) + len"
    and "rwptr (fd_table s ! k) + len < 2 ^ 64"
  shows "sfs_fwrite (int k) buf (int len) s = Inr (-1, s)"
proof -
  obtain v where "disk_access s" "sem s = Some (Suc v)" "sem_wait s = Inr (s\<lparr>sem := Some v\<rparr>)"
    using assms(1) by (rule sem_readyE)
  moreover have "u64 (int len + int (rwptr (fd_table s ! k))) = rwptr (fd_table s ! k) + len"
    using assms(4) by (simp add: nat_add_distrib)
  ultimately show ?thesis using assms(2,3) by (simp add: sfs_fwrite_def Let_def)
qed

lemma fwrite_closed:
  assumes "sem_ready s" and "k < 100" and "mode (inode_table s ! k) = 1"
  shows "sfs_fwrite (int k) buf len s = Inr (-1, s)"
proof -
  obtain v where "disk_access s" "sem s = Some (Suc v)" "sem_wait s = Inr (s\<lparr>sem := Some v\<rparr>)"
    using assms(1) by (rule sem_readyE)
  then show ?thesis using assms(2,3) by (simp add: sfs_fwrite_def Let_def)
qed

text \<open>
  A write that needs more blocks than there are returns -1 but keeps every block it had
  taken before: they belong to no file and are no longer free.
\<close>

lemma fwrite_full:
  assumes "fs_inv s" and "sem_ready s" and k: "k < 100" and "mode (inode_table s ! k) \<noteq> 1"
    and "rwptr (fd_table s ! k) + len \<le> 274432"
    and "card (free_set (free_bit_map s)) < new_blocks (rwptr (fd_table s ! k) + len) (nblocks (isize (inode_table s ! k)))"
    and "nblocks (isize (inode_table s ! k)) * 1024 < rwptr (fd_table s ! k) + len"
  shows "\<exists>u f m. sfs_fwrite (int k) buf (int len) s = Inr (-1, (upd_io u (content s) f s)\<lparr>free_bit_map := m\<rparr>) \<and>
    length m = 129 \<and> free_set m = {}"
proof -
  let ?n = "inode_table s ! k" and ?q = "rwptr (fd_table s ! k)"
  let ?e = "?q + len"
  define nb where "nb = nblocks (isize ?n)"
  note inv = fs_invD [OF assms(1)]
  obtain v where v: "disk_access s" "sem s = Some (Suc v)" "sem_wait s = Inr (s\<lparr>sem := Some v\<rparr>)"
    using assms(2) by (rule sem_readyE)
  define s1 where "s1 = s\<lparr>sem := Some v\<rparr>"
  have s1: "disk_ready s1" "blocks_ok (content s1) (inode_table s1 ! k)" "inode_table s1 = inode_table s"
    "fd_table s1 = fd_table s" "content s1 = content s" "free_bit_map s1 = free_bit_map s"
    using inv(1) inv(6) [OF k] by (simp_all add: s1_def)
  obtain bn u f where bn: "fwrite_blocknums k s1 = Inr (bn, nb, nb - 12, min 12 nb, upd_io u (content s) f s1)"
      "length bn = 1072"
    using fwrite_blocknums_ok [OF s1(1,2)] by (auto simp: s1 nb_def)
  define s2 where "s2 = upd_io u (content s) f s1"
  have s2: "free_bit_map s2 = free_bit_map s" "disk_access s2" "sem s2 = Some v" "inode_table s2 = inode_table s"
    "content s2 = content s" "fd_table s2 = fd_table s"
    using v(1) by (simp_all add: s2_def s1_def)
  have zero: "0 \<notin> free_set (free_bit_map s)" using inv(9) by auto
  obtain ns m where al: "alloc_many get_index (new_blocks ?e nb) (free_bit_map s) = Inr (ns, False, m)"
      "free_set m = {}" "length m = 129"
    using bm.alloc_many_exhausted [OF inv(5) zero assms(6) [folded nb_def]] by blast
  have "nb + new_blocks ?e nb = nblocks ?e" using assms(7) by (intro new_blocks_eq) (simp add: nb_def)
  moreover have "nblocks ?e \<le> 268" using nblocks_mono [OF assms(5)] by (simp add: nblocks_def)
  ultimately have "4 * (nb + new_blocks ?e nb) \<le> length bn" using bn(2) by simp
  from alloc_loop_eq [OF al(1) this]
  have gr: "fwrite_grow k ?e bn nb (nb - 12) (min 12 nb) b s2 = Inr (None, s2\<lparr>free_bit_map := m\<rparr>)" for b
    using assms(7) by (simp add: fwrite_grow_def s2 nb_def [symmetric])
  have "u64 (int len + int ?q) = ?e" using assms(5) by (simp add: nat_add_distrib)
  then have "sfs_fwrite (int k) buf (int len) s = Inr (-1, s2\<lparr>free_bit_map := m, sem := Some (Suc v)\<rparr>)"
    using assms(4,5) k bn(1) s2
    by (simp add: sfs_fwrite_def v(3) s1_def [symmetric] s1(3,4) Let_def s2_def [symmetric] gr)
  moreover have "s2\<lparr>free_bit_map := m, sem := Some (Suc v)\<rparr> = (upd_io u (content s) f s)\<lparr>free_bit_map := m\<rparr>"
    using v(2) by (simp add: s2_def s1_def upd_io_def)
  ultimately show ?thesis using al(2,3) by auto
qed

end
