(* ===== verification/Sfs_Spec.thy ===== *)
theory Sfs_Spec
  imports Sfs_File
begin

text \<open>
  The abstract file system and the refinement: what a client of \<^verbatim>\<open>sfs_api.h\<close> sees.
  An abstract state is the list of the files in the order of their creation, each with
  its name, its bytes, the position of its descriptor and whether it is open; a
  descriptor is an index of that list. \<open>abs_fs\<close> maps the state of the program to it,
  \<open>sys_inv\<close> is the invariant, and the theorems show that every command that is
  \<open>admissible\<close> returns what the abstract command returns and leads to the abstract
  result, hence that whole sequences of commands do.
\<close>

subsection \<open>The abstract file system\<close>

record afile =
  aname :: "byte list"
  adata :: "byte list"
  apos :: nat
  aopen :: bool

type_synonym afs = "afile list"

datatype fs_cmd =
    Open "byte list"
  | Close nat
  | Seek nat nat
  | Read nat nat
  | Write nat "byte list"
  | Size "byte list"

definition MAX_FILE_SIZE :: nat where
  "MAX_FILE_SIZE = 274432"

definition names :: "afs \<Rightarrow> byte list list" where
  "names fs = map aname fs"

text \<open>The index of the first file of that name.\<close>

definition lookup :: "afs \<Rightarrow> byte list \<Rightarrow> nat" where
  "lookup fs n = length (takeWhile (\<lambda>m. m \<noteq> n) (names fs))"

definition aopen_cmd :: "byte list \<Rightarrow> afs \<Rightarrow> int \<times> afs" where
  "aopen_cmd n fs =
     (if \<not> legal_name n then (-1, fs)
      else if n \<in> set (names fs)
      then (int (lookup fs n), fs[lookup fs n := (fs ! lookup fs n)\<lparr>apos := length (adata (fs ! lookup fs n)), aopen := True\<rparr>])
      else if length fs < 100
      then (int (length fs), fs @ [\<lparr>aname = n, adata = [], apos = 0, aopen = True\<rparr>])
      else (-1, fs))"

definition is_open :: "afs \<Rightarrow> nat \<Rightarrow> bool" where
  "is_open fs k \<longleftrightarrow> k < length fs \<and> aopen (fs ! k)"

definition aclose_cmd :: "nat \<Rightarrow> afs \<Rightarrow> int \<times> afs" where
  "aclose_cmd k fs = (if is_open fs k then (0, fs[k := (fs ! k)\<lparr>aopen := False\<rparr>]) else (-1, fs))"

definition aread_cmd :: "nat \<Rightarrow> nat \<Rightarrow> afs \<Rightarrow> int \<times> byte list \<times> afs" where
  "aread_cmd k len fs =
     (let f = fs ! k in
      if is_open fs k \<and> apos f + len \<le> length (adata f)
      then (int len, slice (adata f) (apos f) len, fs[k := f\<lparr>apos := apos f + len\<rparr>])
      else (-1, replicate len 0, fs))"

definition awrite_cmd :: "nat \<Rightarrow> byte list \<Rightarrow> afs \<Rightarrow> int \<times> afs" where
  "awrite_cmd k bs fs =
     (let f = fs ! k in
      if is_open fs k \<and> apos f + length bs \<le> MAX_FILE_SIZE
      then (int (length bs), fs[k := f\<lparr>adata := overwrite (adata f) (apos f) bs, apos := apos f + length bs\<rparr>])
      else (-1, fs))"

definition asize_cmd :: "byte list \<Rightarrow> afs \<Rightarrow> int" where
  "asize_cmd n fs = (if n \<in> set (names fs) then int (length (adata (fs ! lookup fs n))) else -1)"

text \<open>
  A command and its outcome: the returned number and the bytes that arrived in the
  caller's buffer. The number \<open>sfs_fseek\<close> returns means nothing and is left out.
\<close>

fun aexec :: "fs_cmd \<Rightarrow> afs \<Rightarrow> (int \<times> byte list) \<times> afs" where
  "aexec (Open n) fs = (let (r, fs') = aopen_cmd n fs in ((r, []), fs'))"
| "aexec (Close k) fs = (let (r, fs') = aclose_cmd k fs in ((r, []), fs'))"
| "aexec (Seek k p) fs = ((0, []), fs[k := (fs ! k)\<lparr>apos := p\<rparr>])"
| "aexec (Read k len) fs = (let (r, bs, fs') = aread_cmd k len fs in ((r, bs), fs'))"
| "aexec (Write k bs) fs = (let (r, fs') = awrite_cmd k bs fs in ((r, []), fs'))"
| "aexec (Size n) fs = ((asize_cmd n fs, []), fs)"

subsection \<open>The same commands on the program\<close>

text \<open>
  Names are passed in a zeroed array of 21 bytes (longer names in a terminated one),
  reads go to a zeroed buffer of the requested size.
\<close>

definition name_arg :: "byte list \<Rightarrow> byte list" where
  "name_arg n = n @ 0 # replicate (20 - length n) 0"

fun exec :: "fs_cmd \<Rightarrow> sfs \<Rightarrow> ((int \<times> byte list) \<times> sfs) result" where
  "exec (Open n) s = rbind (sfs_fopen (name_arg n) s) (\<lambda>(r, s'). Inr ((r, []), s'))"
| "exec (Close k) s = rbind (sfs_fclose (int k) s) (\<lambda>(r, s'). Inr ((r, []), s'))"
| "exec (Seek k p) s = rbind (sfs_fseek (int k) (int p) s) (\<lambda>(r, s'). Inr ((0, []), s'))"
| "exec (Read k len) s =
     rbind (sfs_fread (int k) (replicate len 0) (int len) s) (\<lambda>(r, bs, s'). Inr ((r, bs), s'))"
| "exec (Write k bs) s = rbind (sfs_fwrite (int k) bs (int (length bs)) s) (\<lambda>(r, s'). Inr ((r, []), s'))"
| "exec (Size n) s = rbind (sfs_getfilesize (name_arg n) s) (\<lambda>(r, s'). Inr ((r, []), s'))"

subsection \<open>Abstraction and invariant\<close>

definition abs_file :: "sfs \<Rightarrow> nat \<Rightarrow> afile" where
  "abs_file s i = \<lparr>aname = dir_names s ! i, adata = file_data s i, apos = rwptr (fd_table s ! i),
     aopen = (mode (inode_table s ! i) \<noteq> 1)\<rparr>"

definition abs_fs :: "sfs \<Rightarrow> afs" where
  "abs_fs s = map (abs_file s) [0..<length (dir_names s)]"

definition sys_inv :: "sfs \<Rightarrow> bool" where
  "sys_inv s \<longleftrightarrow> fs_inv s \<and> dir_ok s \<and> sem_ready s \<and>
     (\<forall>i<100. rwptr (fd_table s ! i) < 4294967296) \<and>
     (\<forall>i<100. length (dir_names s) \<le> i \<longrightarrow>
        isize (inode_table s ! i) = 0 \<and> mode (inode_table s ! i) = 1 \<and> rwptr (fd_table s ! i) = 0)"

text \<open>
  The commands the refinement is about. A seek must be on a file and within what an
  \<open>int\<close> holds; a write that is not refused must be \<open>writable\<close>: no gap behind the end
  of the file, room on the disk, and no block that the code loses.
\<close>

fun admissible :: "fs_cmd \<Rightarrow> sfs \<Rightarrow> bool" where
  "admissible (Open n) s \<longleftrightarrow> 0 \<notin> set n"
| "admissible (Close k) s \<longleftrightarrow> k < 100"
| "admissible (Seek k p) s \<longleftrightarrow> k < length (dir_names s) \<and> p < 2147483648"
| "admissible (Read k len) s \<longleftrightarrow> k < 100 \<and> 0 < len \<and> len < 2147483648"
| "admissible (Write k bs) s \<longleftrightarrow> k < 100 \<and> length bs < 2147483648 \<and>
     (mode (inode_table s ! k) \<noteq> 1 \<and> rwptr (fd_table s ! k) + length bs \<le> MAX_FILE_SIZE \<longrightarrow>
      writable s k (length bs))"
| "admissible (Size n) s \<longleftrightarrow> 0 \<notin> set n \<and> n \<noteq> []"

subsection \<open>Facts about the abstraction\<close>

lemma sys_invD:
  assumes "sys_inv s"
  shows "fs_inv s" and "dir_ok s" and "sem_ready s"
    and "\<And>i. i < 100 \<Longrightarrow> rwptr (fd_table s ! i) < 4294967296"
    and "\<And>i. i < 100 \<Longrightarrow> length (dir_names s) \<le> i \<Longrightarrow>
      isize (inode_table s ! i) = 0 \<and> mode (inode_table s ! i) = 1 \<and> rwptr (fd_table s ! i) = 0"
  using assms unfolding sys_inv_def by blast+

lemma length_abs_fs [simp]: "length (abs_fs s) = length (dir_names s)"
  by (simp add: abs_fs_def)

lemma nth_abs_fs [simp]: "i < length (dir_names s) \<Longrightarrow> abs_fs s ! i = abs_file s i"
  by (simp add: abs_fs_def)

lemma names_abs_fs [simp]: "names (abs_fs s) = dir_names s"
  by (rule nth_equalityI) (simp_all add: names_def abs_file_def)

lemma open_index: "sys_inv s \<Longrightarrow> k < 100 \<Longrightarrow> mode (inode_table s ! k) \<noteq> 1 \<Longrightarrow> k < length (dir_names s)"
  using sys_invD(5) [of s k] by (meson not_le)

lemma is_open_abs: "sys_inv s \<Longrightarrow> k < 100 \<Longrightarrow> is_open (abs_fs s) k \<longleftrightarrow> mode (inode_table s ! k) \<noteq> 1"
proof -
  assume "sys_inv s" "k < 100"
  note idx = open_index [OF this]
  show ?thesis using idx by (cases "k < length (dir_names s)") (auto simp: is_open_def abs_file_def)
qed

lemma abs_fs_eqI:
  assumes "dir_names s' = dir_names s" and "\<And>i. i < length (dir_names s) \<Longrightarrow> i \<noteq> k \<Longrightarrow> abs_file s' i = abs_file s i"
    and "k < length (dir_names s) \<Longrightarrow> abs_file s' k = f"
  shows "abs_fs s' = (abs_fs s)[k := f]"
proof (rule nth_equalityI)
  fix i assume "i < length (abs_fs s')"
  then have i: "i < length (dir_names s)" by (simp add: assms(1))
  then show "abs_fs s' ! i = (abs_fs s)[k := f] ! i"
    using assms by (cases "i = k") simp_all
qed (simp add: assms(1))

lemma blocks_ok_mode [simp]: "blocks_ok c (n\<lparr>mode := m\<rparr>) = blocks_ok c n" "own c (n\<lparr>mode := m\<rparr>) = own c n"
proof -
  have b: "block_of c (n\<lparr>mode := m\<rparr>) = block_of c n" by (rule ext) (simp add: block_of_def)
  then show o: "own c (n\<lparr>mode := m\<rparr>) = own c n" by (simp add: own_def)
  show "blocks_ok c (n\<lparr>mode := m\<rparr>) = blocks_ok c n" unfolding blocks_ok_def o b by simp
qed

text \<open>Changes of a mode, of a position, of the directory and of indeterminate bytes keep the files.\<close>

lemma inode_data_mode [simp]: "inode_data c (n\<lparr>mode := m\<rparr>) = inode_data c n"
proof -
  have "block_of c (n\<lparr>mode := m\<rparr>) = block_of c n" by (rule ext) (simp add: block_of_def)
  then show ?thesis by (simp add: inode_data_def)
qed

lemma fs_inv_mode:
  assumes "fs_inv s" and "k < 100"
  shows "fs_inv (upd_inode k (\<lambda>n. n\<lparr>mode := m\<rparr>) s)"
    and "file_data (upd_inode k (\<lambda>n. n\<lparr>mode := m\<rparr>) s) j = file_data s j"
proof -
  note inv = fs_invD [OF assms(1)]
  let ?t = "inode_table (upd_inode k (\<lambda>n. n\<lparr>mode := m\<rparr>) s)"
  have t: "blocks_ok c (?t ! j) = blocks_ok c (inode_table s ! j)" "own c (?t ! j) = own c (inode_table s ! j)"
    "inode_data c (?t ! j) = inode_data c (inode_table s ! j)" for c j
    using inv(3) assms(2) by (cases "j = k"; simp)+
  show "file_data (upd_inode k (\<lambda>n. n\<lparr>mode := m\<rparr>) s) j = file_data s j"
    unfolding file_data_def t by simp
  show "fs_inv (upd_inode k (\<lambda>n. n\<lparr>mode := m\<rparr>) s)"
    using assms(1) unfolding fs_inv_def t by (simp add: globals_ok_fields)
qed

lemma fs_inv_cong:
  assumes "fs_inv s" and "content s' = content s" and "inode_table s' = inode_table s"
    and "free_bit_map s' = free_bit_map s" and "disk_ready s'" and "globals_ok s'"
  shows "fs_inv s'"
  using assms by (simp add: fs_inv_def)

lemma name_arg [simp]:
  assumes "0 \<notin> set n"
  shows "terminated (name_arg n)" and "cstr (name_arg n) = n"
  using assms by (simp_all add: name_arg_def)

lemma name_arg_mem:
  assumes "0 \<notin> set n"
  shows "load_mem 21 (name_arg n) s = (take 21 (name_arg n), s)"
    and "46 \<notin> set (drop (length n) (take 20 (take 21 (name_arg n))))"
proof -
  show "load_mem 21 (name_arg n) s = (take 21 (name_arg n), s)" by (simp add: name_arg_def)
  have "drop (length n) (name_arg n) = 0 # replicate (20 - length n) 0" by (simp add: name_arg_def)
  then have "drop (length n) (take 20 (take 21 (name_arg n))) = take (20 - length n) (0 # replicate (20 - length n) 0)"
    by (simp add: drop_take)
  then show "46 \<notin> set (drop (length n) (take 20 (take 21 (name_arg n))))"
    by (auto dest!: in_set_takeD split: if_splits)
qed

subsection \<open>One command at a time\<close>

text \<open>
  The command returns what the abstract command returns, in a state that represents the
  abstract result; the blocks of the tables on the disk stay as they are, and a command
  that does not write keeps every block with its file.
\<close>

fun is_write :: "fs_cmd \<Rightarrow> bool" where
  "is_write (Write k bs) = True"
| "is_write _ = False"

definition same_blocks :: "sfs \<Rightarrow> sfs \<Rightarrow> bool" where
  "same_blocks s s' \<longleftrightarrow> content s' = content s \<and> free_bit_map s' = free_bit_map s \<and>
     map data_ptrs (inode_table s') = map data_ptrs (inode_table s) \<and>
     map indirectPointer (inode_table s') = map indirectPointer (inode_table s)"

lemma map_upd_id: "f v = f (xs ! k) \<Longrightarrow> map f (xs[k := v]) = map f xs"
  by (cases "k < length xs") (simp_all add: list_update_same_conv map_update list_update_beyond)

lemma same_blocks_upd [simp]:
  "same_blocks s s" "same_blocks s (upd_inode k (\<lambda>n. n\<lparr>mode := m\<rparr>) s') = same_blocks s s'"
  "same_blocks s (upd_inode k (\<lambda>n. n\<lparr>isize := z, mode := m\<rparr>) s') = same_blocks s s'"
  "same_blocks s (upd_fd k g s') = same_blocks s s'" "same_blocks s (upd_dir k h s') = same_blocks s s'"
  "same_blocks s (s'\<lparr>unk := u\<rparr>) = same_blocks s s'" "same_blocks s (upd_io u (content s) f s)"
  by (simp_all add: same_blocks_def upd_inode_def upd_fd_def upd_dir_def map_upd_id upd_io_def)

definition simulates :: "fs_cmd \<Rightarrow> sfs \<Rightarrow> bool" where
  "simulates c s \<longleftrightarrow> (\<exists>out s'. exec c s = Inr (out, s') \<and> sys_inv s' \<and> aexec c (abs_fs s) = (out, abs_fs s') \<and>
     agree {..<35} (content s) (content s') \<and> (\<not> is_write c \<longrightarrow> same_blocks s s'))"

lemma sys_inv_step:
  assumes "sys_inv s" and "fs_inv s'" and "dir_ok s'" and "sem_ready s'" and "dir_names s' = dir_names s"
    and "\<And>i. i < 100 \<Longrightarrow> i \<noteq> k \<Longrightarrow> fd_table s' ! i = fd_table s ! i \<and> inode_table s' ! i = inode_table s ! i"
    and "k < length (dir_names s)" and "rwptr (fd_table s' ! k) < 4294967296"
  shows "sys_inv s'"
  unfolding sys_inv_def
proof (intro conjI allI impI)
  show "rwptr (fd_table s' ! i) < 4294967296" if "i < 100" for i
    using that assms(6,8) sys_invD(4) [OF assms(1) that] by (cases "i = k") simp_all
  fix i assume i: "i < (100::nat)" "length (dir_names s') \<le> i"
  then have "i \<noteq> k" using assms(5,7) by simp
  then show "isize (inode_table s' ! i) = 0" "mode (inode_table s' ! i) = 1" "rwptr (fd_table s' ! i) = 0"
    using sys_invD(5) [OF assms(1) i(1)] assms(5,6) i by simp_all
qed (rule assms)+

lemma simulates_close:
  assumes "sys_inv s" and "k < 100"
  shows "simulates (Close k) s"
proof (cases "mode (inode_table s ! k) = 1")
  case True
  then have "sfs_fclose (int k) s = Inr (-1, s)" using fclose_closed sys_invD(3) assms by simp
  then show ?thesis
    using assms True is_open_abs [OF assms] by (simp add: simulates_def aclose_cmd_def)
next
  case False
  let ?s = "upd_inode k (\<lambda>n. n\<lparr>mode := 1\<rparr>) s"
  note inv = sys_invD [OF assms(1)]
  have k: "k < length (dir_names s)" using open_index [OF assms False] .
  have len: "length (inode_table s) = 100" using dir_okD(2) [OF inv(2)] .
  have run: "sfs_fclose (int k) s = Inr (0, ?s)" using fclose_open [OF inv(3) assms(2) False] .
  have "sys_inv ?s"
  proof (rule sys_inv_step [OF assms(1) fs_inv_mode(1) [OF inv(1) assms(2)], where k = k])
    show "sem_ready ?s" using inv(3) by (simp add: sem_ready_def)
  qed (use inv(2,4) assms(2) k in \<open>simp_all add: dir_names_fields\<close>)
  moreover have "abs_fs ?s = (abs_fs s)[k := (abs_fs s ! k)\<lparr>aopen := False\<rparr>]"
    using k len assms(2) fs_inv_mode(2) [OF inv(1) assms(2)]
    by (intro abs_fs_eqI) (simp_all add: abs_file_def dir_names_fields)
  moreover have "is_open (abs_fs s) k" using is_open_abs [OF assms] False by simp
  ultimately show ?thesis using run by (simp add: simulates_def aclose_cmd_def)
qed

lemma simulates_seek:
  assumes "sys_inv s" and k: "k < length (dir_names s)" and "p < 2147483648"
  shows "simulates (Seek k p) s"
proof -
  note inv = sys_invD [OF assms(1)]
  have k100: "k < 100" using k length_dir_names [OF inv(2)] by simp
  obtain r u where run: "sfs_fseek (int k) (int p) s = Inr (r, (upd_fd k (\<lambda>f. f\<lparr>rwptr := p\<rparr>) s)\<lparr>unk := u\<rparr>)"
    using fseek_ok [OF inv(3) k100, of "int p"] assms(3) by auto
  let ?s = "(upd_fd k (\<lambda>f. f\<lparr>rwptr := p\<rparr>) s)\<lparr>unk := u\<rparr>"
  have len: "length (fd_table s) = 100" using dir_okD(3) [OF inv(2)] .
  have fs: "fs_inv ?s"
    using inv(1) fs_invD(1,2) [OF inv(1)] by (intro fs_inv_cong [OF inv(1)]) (simp_all add: globals_ok_fields)
  have "sys_inv ?s"
    by (rule sys_inv_step [OF assms(1) fs, where k = k])
      (use inv(2,3) k100 k len assms(3) in \<open>simp_all add: dir_names_fields sem_ready_def\<close>)
  moreover have "abs_fs ?s = (abs_fs s)[k := (abs_fs s ! k)\<lparr>apos := p\<rparr>]"
    using k len k100 file_data_io [of ?s s]
    by (intro abs_fs_eqI) (simp_all add: abs_file_def dir_names_fields)
  ultimately show ?thesis using run by (simp add: simulates_def)
qed

lemma simulates_read:
  assumes "sys_inv s" and "k < 100" and "0 < len" and "len < 2147483648"
  shows "simulates (Read k len) s"
proof -
  note inv = sys_invD [OF assms(1)]
  let ?q = "rwptr (fd_table s ! k)"
  have opn: "is_open (abs_fs s) k \<longleftrightarrow> mode (inode_table s ! k) \<noteq> 1" using is_open_abs [OF assms(1,2)] .
  consider "mode (inode_table s ! k) = 1" | "mode (inode_table s ! k) \<noteq> 1" "isize (inode_table s ! k) < ?q + len"
    | "mode (inode_table s ! k) \<noteq> 1" "?q + len \<le> isize (inode_table s ! k)" by linarith
  then show ?thesis
  proof cases
    case 1
    then have "sfs_fread (int k) (replicate len 0) (int len) s = Inr (-1, replicate len 0, s)"
      using fread_closed [OF inv(3) assms(2)] by simp
    then show ?thesis using 1 assms(1) opn by (simp add: simulates_def aread_cmd_def)
  next
    case 2
    then have "sfs_fread (int k) (replicate len 0) (int len) s = Inr (-1, replicate len 0, s)"
      using fread_beyond [OF inv(3) assms(2)] inv(4) [OF assms(2)] assms(4) by simp
    moreover have "k < length (dir_names s)" using open_index [OF assms(1,2) 2(1)] .
    ultimately show ?thesis using 2 assms(1) by (simp add: simulates_def aread_cmd_def abs_file_def)
  next
    case 3
    note fs = fs_invD [OF inv(1)]
    have k: "k < length (dir_names s)" using open_index [OF assms(1,2) 3(1)] .
    let ?data = "slice (file_data s k) ?q len"
    have ld: "length ?data = len" using 3(2) by simp
    obtain u f where run: "sfs_fread (int k) (replicate len 0) (int len) s = Inr (int len, ?data,
        upd_fd k (\<lambda>d. d\<lparr>rwptr := rwptr d + len\<rparr>) (upd_io u (content s) f s))"
      using sfs_fread_core [OF fs(1) fs(6) [OF assms(2)] inv(3) assms(2) 3(1) assms(3) _ 3(2), of "replicate len 0"]
        ld by auto
    let ?s = "upd_fd k (\<lambda>d. d\<lparr>rwptr := rwptr d + len\<rparr>) (upd_io u (content s) f s)"
    have names: "dir_names ?s = dir_names s" by (simp add: dir_names_def)
    have "dir_ok ?s" using inv(2) by (simp add: dir_ok_def dir_names_def globals_ok_def)
    moreover have "isize (inode_table s ! k) \<le> 274432" using fs(6) [OF assms(2)] by (rule blocks_okD(2))
    ultimately have "sys_inv ?s"
      using inv(3) k assms(2) fs(4) 3(2) names
      by (intro sys_inv_step [OF assms(1) fs_inv_io [OF inv(1)], where k = k]) (simp_all add: sem_ready_def)
    moreover have "abs_fs ?s = (abs_fs s)[k := (abs_fs s ! k)\<lparr>apos := ?q + len\<rparr>]"
      using k fs(4) assms(2) file_data_io [of ?s s] names
      by (intro abs_fs_eqI) (simp_all add: abs_file_def)
    moreover have "abs_fs s ! k = abs_file s k" using k by simp
    ultimately show ?thesis using run 3 opn by (simp add: simulates_def aread_cmd_def abs_file_def)
  qed
qed

lemma simulates_write:
  assumes "sys_inv s" and "admissible (Write k bs) s"
  shows "simulates (Write k bs) s"
proof -
  note inv = sys_invD [OF assms(1)]
  let ?q = "rwptr (fd_table s ! k)" and ?len = "length bs"
  have k: "k < 100" and small: "?len < 2147483648"
    and ok: "mode (inode_table s ! k) \<noteq> 1 \<Longrightarrow> ?q + ?len \<le> 274432 \<Longrightarrow> writable s k ?len"
    using assms(2) by (simp_all add: MAX_FILE_SIZE_def)
  have opn: "is_open (abs_fs s) k \<longleftrightarrow> mode (inode_table s ! k) \<noteq> 1" using is_open_abs [OF assms(1) k] .
  consider "mode (inode_table s ! k) = 1" | "mode (inode_table s ! k) \<noteq> 1" "274432 < ?q + ?len"
    | "mode (inode_table s ! k) \<noteq> 1" "?q + ?len \<le> 274432" by linarith
  then show ?thesis
  proof cases
    case 1
    then have "sfs_fwrite (int k) bs (int ?len) s = Inr (-1, s)" using fwrite_closed [OF inv(3) k] by simp
    then show ?thesis using 1 assms(1) opn by (simp add: simulates_def awrite_cmd_def)
  next
    case 2
    then have "sfs_fwrite (int k) bs (int ?len) s = Inr (-1, s)"
      using fwrite_too_big [OF inv(3) k] inv(4) [OF k] small by simp
    moreover have "k < length (dir_names s)" using open_index [OF assms(1) k 2(1)] .
    ultimately show ?thesis
      using 2 assms(1) by (simp add: simulates_def awrite_cmd_def abs_file_def MAX_FILE_SIZE_def)
  next
    case 3
    have kn: "k < length (dir_names s)" using open_index [OF assms(1) k 3(1)] .
    obtain s' where run: "sfs_fwrite (int k) bs (int ?len) s = Inr (int ?len, s')"
      and s': "fs_inv s'" "file_data s' k = overwrite (file_data s k) ?q bs"
        "\<And>j. j < 100 \<Longrightarrow> j \<noteq> k \<Longrightarrow> file_data s' j = file_data s j"
        "fd_table s' = (fd_table s)[k := (fd_table s ! k)\<lparr>rwptr := ?q + ?len\<rparr>]"
        "rootDir s' = rootDir s" "sem_ready s'" "mode (inode_table s' ! k) = mode (inode_table s ! k)"
        "\<And>j. j \<noteq> k \<Longrightarrow> inode_table s' ! j = inode_table s ! j" "agree {..<35} (content s) (content s')"
      using sfs_fwrite_core [OF inv(1,3) ok [OF 3] order_refl] by auto
    have names: "dir_names s' = dir_names s" by (simp add: dir_names_def s'(5))
    have "dir_ok s'" using inv(2) fs_invD(2) [OF s'(1)] names by (simp add: dir_ok_def s'(5))
    then have "sys_inv s'"
      using k kn fs_invD(4) [OF inv(1)] 3(2) s'
      by (intro sys_inv_step [OF assms(1) s'(1) _ s'(6) names, where k = k]) simp_all
    moreover have "abs_fs s' = (abs_fs s)[k := (abs_fs s ! k)\<lparr>adata := overwrite (file_data s k) ?q bs, apos := ?q + ?len\<rparr>]"
      using k kn fs_invD(4) [OF inv(1)] s' names length_dir_names [OF inv(2)]
      by (intro abs_fs_eqI) (simp_all add: abs_file_def)
    moreover have "abs_fs s ! k = abs_file s k" using kn by simp
    ultimately show ?thesis
      using run 3 opn s'(9) by (simp add: simulates_def awrite_cmd_def abs_file_def MAX_FILE_SIZE_def)
  qed
qed

lemma lookup_index: "n \<in> set (names fs) \<Longrightarrow> lookup fs n < length fs \<and> names fs ! lookup fs n = n"
  using first_index [of n "names fs"] by (simp add: lookup_def names_def)

lemma simulates_size:
  assumes "sys_inv s" and "0 \<notin> set n" and "n \<noteq> []"
  shows "simulates (Size n) s"
proof -
  note inv = sys_invD [OF assms(1)]
  note arg = name_arg [OF assms(2)]
  show ?thesis
  proof (cases "n \<in> set (dir_names s)")
    case True
    then have i: "lookup (abs_fs s) n < length (dir_names s)" "dir_names s ! lookup (abs_fs s) n = n"
      using lookup_index [of n "abs_fs s"] by simp_all
    let ?i = "lookup (abs_fs s) n"
    have "?i < 100" using i(1) length_dir_names [OF inv(2)] by simp
    then have "isize (inode_table s ! ?i) \<le> 274432"
      using fs_invD(6) [OF inv(1), of ?i] by (intro blocks_okD(2)) simp
    then have "sfs_getfilesize (name_arg n) s = Inr (int (isize (inode_table s ! ?i)), s)"
      using getfilesize_ok [OF inv(2,3) arg(1) i(1)] i(2) arg(2) by simp
    then show ?thesis using True i(1) assms(1) by (simp add: simulates_def asize_cmd_def abs_file_def)
  next
    case False
    then have "sfs_getfilesize (name_arg n) s = Inr (-1, s)"
      using getfilesize_none [OF inv(2,3) arg(1)] arg(2) assms(3) by simp
    then show ?thesis using False assms(1) by (simp add: simulates_def asize_cmd_def)
  qed
qed

lemma sys_inv_unk: "sys_inv (s\<lparr>unk := u\<rparr>) = sys_inv s" "abs_fs (s\<lparr>unk := u\<rparr>) = abs_fs s"
  by (simp_all add: sys_inv_def fs_inv_def globals_ok_fields dir_names_fields sem_ready_def
      abs_fs_def abs_file_def file_data_def cong: map_cong)

lemma open_existing:
  assumes "sys_inv s" and k: "k < length (dir_names s)"
  defines "s' \<equiv> upd_inode k (\<lambda>n. n\<lparr>mode := 0\<rparr>) (upd_fd k (\<lambda>f. f\<lparr>rwptr := isize (inode_table s ! k)\<rparr>) s)"
  shows "sys_inv s'"
    and "abs_fs s' = (abs_fs s)[k := (abs_fs s ! k)\<lparr>apos := length (adata (abs_fs s ! k)), aopen := True\<rparr>]"
proof -
  note inv = sys_invD [OF assms(1)]
  have k100: "k < 100" using k length_dir_names [OF inv(2)] by simp
  note len = dir_okD(2,3) [OF inv(2)]
  let ?s1 = "upd_fd k (\<lambda>f. f\<lparr>rwptr := isize (inode_table s ! k)\<rparr>) s"
  have fs1: "fs_inv ?s1"
    using fs_invD(1,2) [OF inv(1)] by (intro fs_inv_cong [OF inv(1)]) (simp_all add: globals_ok_fields)
  have "isize (inode_table s ! k) \<le> 274432" using fs_invD(6) [OF inv(1) k100] by (rule blocks_okD(2))
  then show "sys_inv s'" unfolding s'_def
    using inv(2,3) k100 k len
    by (intro sys_inv_step [OF assms(1) fs_inv_mode(1) [OF fs1 k100], where k = k])
      (simp_all add: dir_names_fields sem_ready_def)
  show "abs_fs s' = (abs_fs s)[k := (abs_fs s ! k)\<lparr>apos := length (adata (abs_fs s ! k)), aopen := True\<rparr>]"
    unfolding s'_def
    using k k100 len fs_inv_mode(2) [OF fs1 k100] file_data_io [of ?s1 s]
    by (intro abs_fs_eqI) (simp_all add: abs_file_def dir_names_fields)
qed

lemma open_new:
  assumes "sys_inv s" and k: "length (dir_names s) = k" "k < 100" and "length mem = 21" and "terminated mem"
    and "cstr mem \<noteq> []" and "cstr mem \<notin> set (dir_names s)"
  defines "s' \<equiv> upd_inode k (\<lambda>n. n\<lparr>isize := 0, mode := 0\<rparr>) (upd_dir k (\<lambda>d. d\<lparr>name := mem\<rparr>) s)"
  shows "sys_inv s'" and "abs_fs s' = abs_fs s @ [\<lparr>aname = cstr mem, adata = [], apos = 0, aopen = True\<rparr>]"
proof -
  note inv = sys_invD [OF assms(1)]
  note len = dir_okD(2,3) [OF inv(2)]
  let ?s1 = "upd_dir k (\<lambda>d. d\<lparr>name := mem\<rparr>) s"
  note new = dir_new_entry [OF inv(2) assms(2-7)]
  have empty: "isize (inode_table s ! k) = 0" "rwptr (fd_table s ! k) = 0" using inv(5) [OF k(2)] k(1) by simp_all
  have "(inode_table s ! k)\<lparr>isize := 0\<rparr> = inode_table s ! k" using empty(1) by simp
  then have s': "s' = upd_inode k (\<lambda>n. n\<lparr>mode := 0\<rparr>) ?s1" by (simp add: s'_def upd_inode_def)
  have "globals_ok ?s1" using new(1) by (simp add: dir_ok_def)
  then have fs1: "fs_inv ?s1" using fs_invD(1) [OF inv(1)] by (intro fs_inv_cong [OF inv(1)]) simp_all
  note fs' = fs_inv_mode [OF fs1 k(2), of 0, folded s']
  have names: "dir_names s' = dir_names s @ [cstr mem]" using new(2) by (simp add: s' dir_names_fields)
  have data: "file_data s' i = file_data s i" for i using fs'(2) file_data_io [of ?s1 s] by simp
  show "sys_inv s'" unfolding sys_inv_def
  proof (intro conjI allI impI)
    show "dir_ok s'" using new(1) by (simp add: s')
    show "sem_ready s'" using inv(3) by (simp add: s' sem_ready_def)
    show "rwptr (fd_table s' ! i) < 4294967296" if "i < 100" for i using that inv(4) by (simp add: s')
    fix i assume i: "i < (100::nat)" "length (dir_names s') \<le> i"
    then have "i \<noteq> k" "length (dir_names s) \<le> i" using names k(1) by simp_all
    then show "isize (inode_table s' ! i) = 0" "mode (inode_table s' ! i) = 1" "rwptr (fd_table s' ! i) = 0"
      using inv(5) [OF i(1)] by (simp_all add: s')
  qed (rule fs'(1))
  show "abs_fs s' = abs_fs s @ [\<lparr>aname = cstr mem, adata = [], apos = 0, aopen = True\<rparr>]"
  proof (rule nth_equalityI)
    fix i assume "i < length (abs_fs s')"
    then have i: "i < Suc k" using names k(1) by simp
    show "abs_fs s' ! i = (abs_fs s @ [\<lparr>aname = cstr mem, adata = [], apos = 0, aopen = True\<rparr>]) ! i"
    proof (cases "i = k")
      case True
      have "length (file_data s k) = 0" using empty(1) by (simp only: length_file_data)
      then have "file_data s k = []" by (simp only: length_0_conv)
      then show ?thesis
        using True names k(1) data [of k] empty(2) len k(2) by (simp add: abs_file_def nth_append s')
    next
      case False
      then show ?thesis using i names k(1) data [of i] by (simp add: abs_file_def nth_append s')
    qed
  qed (simp add: names)
qed

text \<open>
  Opening refines the abstract command for every string argument, whatever memory it
  lies in, if no period shows among the bytes behind its end that the checks look at.
\<close>

lemma sfs_fopen_abs:
  assumes "sys_inv s" and arg: "terminated nm" and load: "load_mem 21 nm s = (mem, s0)"
    and dot: "46 \<notin> set (drop (length (cstr nm)) (take 20 mem))"
  shows "\<exists>r s'. sfs_fopen nm s = Inr (r, s') \<and> sys_inv s' \<and> aopen_cmd (cstr nm) (abs_fs s) = (r, abs_fs s') \<and>
    content s' = content s \<and> free_bit_map s' = free_bit_map s \<and> same_blocks s s'"
proof (cases "legal_name (cstr nm)")
  case False
  then obtain u where "sfs_fopen nm s = Inr (-1, s\<lparr>unk := u\<rparr>)" using fopen_illegal [OF arg load] dot by blast
  then show ?thesis using False assms(1) by (simp add: aopen_cmd_def sys_inv_unk)
next
  case True
  have run: "sfs_fopen nm s = fopen_locked nm mem s0" using fopen_legal [OF arg load True dot] .
  obtain u where s0: "s0 = s\<lparr>unk := u\<rparr>" using load by (auto simp: load_mem_eq)
  have sys0: "sys_inv s0" and same: "abs_fs s0 = abs_fs s" "dir_names s0 = dir_names s" "content s0 = content s"
    "free_bit_map s0 = free_bit_map s" "same_blocks s s0" using assms(1) by (simp_all add: s0 sys_inv_unk dir_names_fields)
  note inv = sys_invD [OF sys0]
  have n: "cstr nm \<noteq> []" "length (cstr nm) < 21" using True by (auto simp: legal_name_def MAX_FILE_NAME_def)
  note mem = take20_name(1-3) [OF arg n(2) load]
  show ?thesis
  proof (cases "cstr nm \<in> set (dir_names s0)")
    case old: True
    let ?i = "lookup (abs_fs s0) (cstr nm)"
    have i: "?i < length (dir_names s0)" "dir_names s0 ! ?i = cstr nm"
      using old lookup_index [of "cstr nm" "abs_fs s0"] by simp_all
    then show ?thesis
      using fopen_locked_existing [OF inv(2,3) arg i] run True old open_existing [OF sys0 i(1)] same
      by (simp add: aopen_cmd_def)
  next
    case new: False
    show ?thesis
    proof (cases "length (dir_names s0) < 100")
      case room: True
      then show ?thesis
        using fopen_locked_new [OF inv(2,3) arg new n(1) refl room] run True new n(1)
          open_new [OF sys0 refl room mem(1,2)] mem(3) same
        by (simp add: aopen_cmd_def)
    next
      case False
      then have full: "length (dir_names s0) = 100" using length_dir_names [OF inv(2)] by simp
      then show ?thesis
        using fopen_locked_full [OF inv(2,3) arg new n(1) full] run True new sys0 same by (simp add: aopen_cmd_def)
    qed
  qed
qed

lemma simulates_open:
  assumes "sys_inv s" and "0 \<notin> set n"
  shows "simulates (Open n) s"
  using sfs_fopen_abs [OF assms(1) name_arg(1) [OF assms(2)] name_arg_mem(1) [OF assms(2)]]
    name_arg_mem(2) [OF assms(2)] name_arg(2) [OF assms(2)]
  by (auto simp: simulates_def)

lemma simulates_admissible:
  assumes "sys_inv s" and "admissible c s"
  shows "simulates c s"
  using assms
  by (cases c) (simp_all add: simulates_open simulates_close simulates_seek simulates_read simulates_write
      simulates_size del: admissible.simps(5))

subsection \<open>Sequences of commands\<close>

fun exec_all :: "fs_cmd list \<Rightarrow> sfs \<Rightarrow> ((int \<times> byte list) list \<times> sfs) result" where
  "exec_all [] s = Inr ([], s)"
| "exec_all (c # cs) s =
     rbind (exec c s) (\<lambda>(out, s'). rbind (exec_all cs s') (\<lambda>(outs, s''). Inr (out # outs, s'')))"

fun aexec_all :: "fs_cmd list \<Rightarrow> afs \<Rightarrow> (int \<times> byte list) list \<times> afs" where
  "aexec_all [] fs = ([], fs)"
| "aexec_all (c # cs) fs =
     (let (out, fs') = aexec c fs; (outs, fs'') = aexec_all cs fs' in (out # outs, fs''))"

text \<open>Every command of the sequence is admissible in the state in which it is run.\<close>

fun admissible_all :: "fs_cmd list \<Rightarrow> sfs \<Rightarrow> bool" where
  "admissible_all [] s \<longleftrightarrow> True"
| "admissible_all (c # cs) s \<longleftrightarrow> admissible c s \<and>
     (case exec c s of Inr (_, s') \<Rightarrow> admissible_all cs s' | Inl _ \<Rightarrow> True)"

lemma exec_all_refines:
  "sys_inv s \<Longrightarrow> admissible_all cs s \<Longrightarrow>
   \<exists>outs s'. exec_all cs s = Inr (outs, s') \<and> sys_inv s' \<and> aexec_all cs (abs_fs s) = (outs, abs_fs s') \<and>
     agree {..<35} (content s) (content s')"
proof (induction cs arbitrary: s)
  case Nil
  then show ?case by simp
next
  case (Cons c cs)
  obtain out s1 where c: "exec c s = Inr (out, s1)" "sys_inv s1" "aexec c (abs_fs s) = (out, abs_fs s1)"
    "agree {..<35} (content s) (content s1)"
    using simulates_admissible [of s c] Cons.prems by (auto simp: simulates_def)
  then obtain outs s2 where "exec_all cs s1 = Inr (outs, s2)" "sys_inv s2" "aexec_all cs (abs_fs s1) = (outs, abs_fs s2)"
    "agree {..<35} (content s1) (content s2)"
    using Cons.IH [of s1] Cons.prems by auto
  then show ?case using c agree_trans [OF c(4)] by simp
qed

subsection \<open>The formatted file system\<close>

lemma fresh_inode_empty: "blocks_ok c fresh_inode" "own c fresh_inode = {}"
  by (simp_all add: blocks_ok_def own_def fresh_inode_def)

lemma entry_names_fresh:
  assumes "\<forall>d\<in>set ds. dirent_fits d"
  shows "entry_names (fresh_dir ds) = replicate (length ds) []" and "\<forall>d\<in>set (fresh_dir ds). terminated (name d)"
proof -
  have c: "cstr (name (fresh_dir ds ! i)) = [] \<and> terminated (name (fresh_dir ds ! i))" if "i < length ds" for i
  proof -
    have "length (name (ds ! i)) = 21" using assms that by (simp add: dirent_fits_def)
    then obtain b bs where "name (ds ! i) = b # bs" by (cases "name (ds ! i)") auto
    then show ?thesis using that by simp
  qed
  show "entry_names (fresh_dir ds) = replicate (length ds) []"
    using c by (intro nth_equalityI) (simp_all add: nth_entry_names)
  show "\<forall>d\<in>set (fresh_dir ds). terminated (name d)" using c by (auto simp: in_set_conv_nth)
qed

lemma mksfs_sys_inv:
  assumes "globals_ok s" and "can_create s" and "sem s \<noteq> Some 0"
  shows "\<exists>s'. mksfs 1 s = Inr s' \<and> sys_inv s' \<and> abs_fs s' = [] \<and>
    free_set (free_bit_map s') = free_set (free_bit_map s) - {..<35} \<and>
    image_on_disk (content s') (inode_table s') (rootDir s') (free_bit_map s')"
proof -
  obtain s' n where s': "mksfs_fresh s = Inr s'" "disk_ready s'" "globals_ok s'" "disk_access s'"
    "inode_table s' = replicate 100 fresh_inode" "fd_table s' = fresh_fds (fd_table s)"
    "rootDir s' = fresh_dir (rootDir s)" "free_set (free_bit_map s') = free_set (free_bit_map s) - {..<35}"
    "image_on_disk (content s') (inode_table s') (rootDir s') (free_bit_map s')" and sm: "sem s' = Some (Suc n)"
    using mksfs_fresh_formats [OF assms] format_enter [OF assms(2,3)] by metis
  have fits: "\<forall>d\<in>set (rootDir s). dirent_fits d" and len: "length (rootDir s) = 100" "length (fd_table s) = 100"
    using assms(1) by (simp_all add: globals_ok_def)
  note e = entry_names_fresh [OF fits]
  have names: "dir_names s' = []" using e(1) len by (simp add: dir_names_def s'(7))
  have "fs_inv s'" unfolding fs_inv_def using s'(2,3,8) fresh_inode_empty by (auto simp: s'(5))
  moreover have "dir_ok s'" unfolding dir_ok_def using s'(3) names e len by (simp add: s'(7))
  moreover have "sem_ready s'" using s'(4) sm by (simp add: sem_ready_def)
  ultimately have "sys_inv s'" unfolding sys_inv_def
    using len s'(5,6) by (simp add: names fresh_inode_def)
  then show ?thesis using s' names by (auto simp: mksfs_def abs_fs_def)
qed

lemma free_set_boot: "free_set (replicate 128 255 @ [0]) = {..<1024}"
proof (rule set_eqI)
  fix n :: nat
  show "n \<in> free_set (replicate 128 255 @ [0]) \<longleftrightarrow> n \<in> {..<1024}"
  proof (cases "n < 1024")
    case True
    then have "n div 8 < 128" by (simp add: div_less_iff_less_mult)
    moreover have "bit (255 :: byte) (n mod 8)"
    proof -
      have "(255 :: byte) = mask 8" by (simp add: mask_eq_exp_minus_1)
      then show ?thesis by (simp only: bit_mask_iff) simp
    qed
    ultimately show ?thesis using True by (simp add: free_set_def nth_append)
  next
    case False
    then have "128 \<le> n div 8" using div_le_mono [of 1024 n 8] by simp
    then show ?thesis using False by (auto simp: free_set_def nth_append)
  qed
qed

lemma boot_globals: "globals_ok (boot u a v ex c n cr)"
  by (simp add: globals_ok_def boot_def dirent_fits_def)

text \<open>A disk that has been formatted by the program at its start, for examples.\<close>

definition demo_boot :: sfs where
  "demo_boot = boot (sconst 64) 0 None False (\<lambda>_. 0) 0 True"

definition demo_disk :: sfs where
  "demo_disk = (case mksfs 1 demo_boot of Inr s \<Rightarrow> s | Inl _ \<Rightarrow> demo_boot)"

lemma demo_disk:
  shows "sys_inv demo_disk" and "abs_fs demo_disk = []" and "free_set (free_bit_map demo_disk) = {35..<1024}"
    and "mksfs 1 demo_boot = Inr demo_disk"
proof -
  have b: "globals_ok demo_boot" "can_create demo_boot" "sem demo_boot \<noteq> Some 0"
    "free_set (free_bit_map demo_boot) = {..<1024}"
    by (simp_all add: demo_boot_def boot_globals) (simp_all add: boot_def free_set_boot)
  obtain s' where s': "mksfs 1 demo_boot = Inr s'" "sys_inv s'" "abs_fs s' = []"
    "free_set (free_bit_map s') = {..<1024} - {..<35}"
    using mksfs_sys_inv [OF b(1-3)] b(4) by auto
  have "{..<1024::nat} - {..<35} = {35..<1024}" by auto
  then show "sys_inv demo_disk" "abs_fs demo_disk = []" "free_set (free_bit_map demo_disk) = {35..<1024}"
    "mksfs 1 demo_boot = Inr demo_disk" using s' by (simp_all add: demo_disk_def)
qed

text \<open>A file that stays within its direct pointers can be written without further conditions.\<close>

lemma writable_direct:
  assumes "sys_inv s" and "k < 100" and "mode (inode_table s ! k) \<noteq> 1" and "0 < len"
    and "rwptr (fd_table s ! k) \<le> isize (inode_table s ! k)" and "isize (inode_table s ! k) \<le> 12288"
    and "rwptr (fd_table s ! k) + len \<le> 12288" and "12 \<le> card (free_blocks s)"
  shows "writable s k len"
proof -
  let ?n = "inode_table s ! k"
  have "fs_inv s" using assms(1) by (rule sys_invD(1))
  then have b: "blocks_ok (content s) ?n" using assms(2) by (rule fs_invD(6))
  have "nblocks (isize ?n) \<le> 12" "nblocks (rwptr (fd_table s ! k) + len) \<le> 12"
    using nblocks_mono [OF assms(6)] nblocks_mono [OF assms(7)] by (simp_all add: nblocks_def)
  moreover from this(1) have "indirectPointer ?n = 0" using blocks_okD(6) [OF b] by simp
  ultimately show ?thesis
    using assms by (auto simp: writable_def Let_def blocks_needed_def known_def)
qed

subsection \<open>A run on the formatted disk\<close>

lemma abs_fsD:
  assumes "abs_fs s = fs" and "k < length fs"
  shows "isize (inode_table s ! k) = length (adata (fs ! k))" and "rwptr (fd_table s ! k) = apos (fs ! k)"
    and "mode (inode_table s ! k) \<noteq> 1 \<longleftrightarrow> aopen (fs ! k)" and "dir_names s ! k = aname (fs ! k)"
    and "file_data s k = adata (fs ! k)" and "length (dir_names s) = length fs"
proof -
  show l: "length (dir_names s) = length fs" using assms(1) length_abs_fs [of s] by simp
  have "fs ! k = abs_file s k" using assms l by (metis nth_abs_fs)
  then show "isize (inode_table s ! k) = length (adata (fs ! k))" "rwptr (fd_table s ! k) = apos (fs ! k)"
    "mode (inode_table s ! k) \<noteq> 1 \<longleftrightarrow> aopen (fs ! k)" "dir_names s ! k = aname (fs ! k)"
    "file_data s k = adata (fs ! k)" by (simp_all add: abs_file_def)
qed

definition demo_name :: "byte list" where
  "demo_name = bytes_of ''a.txt''"

definition demo_data :: "byte list" where
  "demo_data = bytes_of ''hello''"

lemma length_demo_data [simp]: "length demo_data = 5"
  by code_simp

definition run_cmd :: "fs_cmd \<Rightarrow> sfs \<Rightarrow> sfs" where
  "run_cmd c s = (case exec c s of Inr (_, s') \<Rightarrow> s' | Inl _ \<Rightarrow> s)"

definition demo_open :: sfs where
  "demo_open = run_cmd (Open demo_name) demo_disk"

lemma run_cmd:
  assumes "sys_inv s" and "admissible c s"
  shows "sys_inv (run_cmd c s)" and "aexec c (abs_fs s) = (fst (aexec c (abs_fs s)), abs_fs (run_cmd c s))"
    and "exec c s = Inr (fst (aexec c (abs_fs s)), run_cmd c s)"
  using simulates_admissible [OF assms] by (auto simp: simulates_def run_cmd_def)

lemma demo_name: "0 \<notin> set demo_name" "legal_name demo_name" "demo_name \<noteq> []" "length demo_name = 5"
  by (code_simp, code_simp, code_simp, code_simp)

lemma demo_open:
  shows "sys_inv demo_open" and "abs_fs demo_open = [\<lparr>aname = demo_name, adata = [], apos = 0, aopen = True\<rparr>]"
    and "free_blocks demo_open = {35..<1024}"
proof -
  have adm: "admissible (Open demo_name) demo_disk" using demo_name(1) by simp
  note r = run_cmd [OF demo_disk(1) adm]
  show inv: "sys_inv demo_open" using r(1) by (simp add: demo_open_def)
  show "abs_fs demo_open = [\<lparr>aname = demo_name, adata = [], apos = 0, aopen = True\<rparr>]"
    using r(2) demo_name(2) by (simp add: demo_open_def demo_disk(2) aopen_cmd_def names_def)
  note d = sys_invD [OF demo_disk(1)]
  have no: "length (dir_names demo_disk) = 0" using length_abs_fs [of demo_disk] by (simp add: demo_disk(2))
  note arg = name_arg [OF demo_name(1)]
  have "sfs_fopen (name_arg demo_name) demo_disk = fopen_locked (name_arg demo_name) (take 21 (name_arg demo_name)) demo_disk"
    using fopen_legal [OF arg(1) name_arg_mem(1) [OF demo_name(1)]] name_arg_mem(2) [OF demo_name(1)] arg(2) demo_name(2)
    by simp
  then have "free_bit_map demo_open = free_bit_map demo_disk"
    using fopen_locked_new [OF d(2,3) arg(1) _ _ no] arg(2) no demo_name(3)
    by (simp add: demo_open_def run_cmd_def)
  then show "free_blocks demo_open = {35..<1024}" by (auto simp: free_blocks_def demo_disk(3))
qed

lemma demo_open_fields:
  shows "isize (inode_table demo_open ! 0) = 0" and "rwptr (fd_table demo_open ! 0) = 0"
    and "mode (inode_table demo_open ! 0) \<noteq> 1" and "file_data demo_open 0 = []"
    and "dir_names demo_open = [demo_name]"
proof -
  note a = abs_fsD [OF demo_open(2), of 0, simplified]
  then show "isize (inode_table demo_open ! 0) = 0" "rwptr (fd_table demo_open ! 0) = 0"
    "mode (inode_table demo_open ! 0) \<noteq> 1" "file_data demo_open 0 = []" by simp_all
  have "names (abs_fs demo_open) = [demo_name]" unfolding demo_open(2) by (simp add: names_def)
  then show "dir_names demo_open = [demo_name]" by simp
qed

lemma demo_writable: "writable demo_open 0 5"
  using demo_open_fields demo_open(3) by (intro writable_direct [OF demo_open(1)]) simp_all

definition demo_file :: sfs where
  "demo_file = run_cmd (Write 0 demo_data) demo_open"

lemma demo_file:
  shows "sys_inv demo_file" and "abs_fs demo_file = [\<lparr>aname = demo_name, adata = demo_data, apos = 5, aopen = True\<rparr>]"
    and "exec (Write 0 demo_data) demo_open = Inr ((5, []), demo_file)"
proof -
  have adm: "admissible (Write 0 demo_data) demo_open" using demo_writable by simp
  note r = run_cmd [OF demo_open(1) adm]
  show "sys_inv demo_file" using r(1) by (simp add: demo_file_def)
  have a: "aexec (Write 0 demo_data) (abs_fs demo_open) =
      ((5, []), [\<lparr>aname = demo_name, adata = demo_data, apos = 5, aopen = True\<rparr>])"
    by (simp add: demo_open(2) awrite_cmd_def is_open_def MAX_FILE_SIZE_def overwrite_def)
  then show "abs_fs demo_file = [\<lparr>aname = demo_name, adata = demo_data, apos = 5, aopen = True\<rparr>]"
    using r(2) by (simp add: demo_file_def)
  show "exec (Write 0 demo_data) demo_open = Inr ((5, []), demo_file)" using r(3) a by (simp add: demo_file_def)
qed

lemma demo_free: "12 \<le> card (free_blocks demo_file)"
proof -
  note inv = sys_invD [OF demo_open(1)]
  have w: "writable demo_open 0 (length demo_data)" using demo_writable by simp
  obtain s' where s': "sfs_fwrite (int 0) demo_data (int (length demo_data)) demo_open = Inr (int (length demo_data), s')"
    "free_set (free_bit_map s') = free_set (free_bit_map demo_open) - own (content s') (inode_table s' ! 0)"
    using sfs_fwrite_core [OF inv(1,3) w order_refl] by blast
  have e: "s' = demo_file" using s'(1) demo_file(3) by simp
  have a: "isize (inode_table demo_file ! 0) = 5" using abs_fsD(1) [OF demo_file(2), of 0] by simp
  have "blocks_ok (content demo_file) (inode_table demo_file ! 0)"
    using fs_invD(6) [OF sys_invD(1) [OF demo_file(1)], of 0] by simp
  then have "indirectPointer (inode_table demo_file ! 0) = 0" using blocks_okD(6) a by (simp add: nblocks_def)
  then have own: "own (content demo_file) (inode_table demo_file ! 0) \<subseteq> {block_of (content demo_file) (inode_table demo_file ! 0) 0}"
    using a by (auto simp: own_def nblocks_def)
  let ?b = "block_of (content demo_file) (inode_table demo_file ! 0) 0"
  have "{35..<1024} - {?b} \<subseteq> free_blocks demo_file"
    using s'(2) own demo_open(3) unfolding e free_blocks_def by blast
  then have "card ({35..<1024} - {?b}) \<le> card (free_blocks demo_file)"
    by (rule card_mono [rotated]) (simp add: free_blocks_def)
  moreover have "card {35..<1024::nat} - 1 \<le> card ({35..<1024} - {?b})"
    using diff_card_le_card_Diff [of "{?b}" "{35..<1024}"] by simp
  ultimately show ?thesis by simp
qed

definition demo_cmds :: "fs_cmd list" where
  "demo_cmds = [Open demo_name, Write 0 demo_data, Seek 0 1, Read 0 3, Close 0, Size demo_name]"

lemma demo_admissible: "admissible_all demo_cmds demo_disk"
proof -
  have o: "exec (Open demo_name) demo_disk = Inr (fst (aexec (Open demo_name) (abs_fs demo_disk)), demo_open)"
    using run_cmd(3) [OF demo_disk(1), of "Open demo_name"] demo_name(1) by (simp add: demo_open_def)
  have names: "length (dir_names demo_file) = 1" using length_abs_fs [of demo_file] by (simp add: demo_file(2))
  define s3 where "s3 = run_cmd (Seek 0 1) demo_file"
  have a3: "admissible (Seek 0 1) demo_file" using names by simp
  note r3 = run_cmd [OF demo_file(1) a3, folded s3_def]
  define s4 where "s4 = run_cmd (Read 0 3) s3"
  have a4: "admissible (Read 0 3) s3" by simp
  note r4 = run_cmd [OF r3(1) a4, folded s4_def]
  define s5 where "s5 = run_cmd (Close 0) s4"
  have a5: "admissible (Close 0) s4" by simp
  note r5 = run_cmd [OF r4(1) a5, folded s5_def]
  have "admissible (Size demo_name) s5" using demo_name by simp
  moreover have "admissible (Write 0 demo_data) demo_open" using demo_writable by simp
  ultimately show ?thesis
    using o demo_file(3) r3(3) r4(3) r5(3) a3 a4 a5 demo_name(1)
    by (simp add: demo_cmds_def del: exec.simps admissible.simps) (auto simp del: exec.simps split: sum.splits)
qed

subsection \<open>Properties\<close>

text \<open>
  C2: After \<open>mksfs(1)\<close> every sequence of open, close, seek, read, write and size calls that
  is admissible runs to its end without a memory error, returns to its caller in every call
  exactly what the abstract file system returns, and ends in a state that represents the
  abstract result and satisfies the invariant.
\<close>

theorem commands_refine:
  assumes "globals_ok s0" and "can_create s0" and "sem s0 \<noteq> Some 0" and "mksfs 1 s0 = Inr s"
    and "admissible_all cs s"
  shows "\<exists>outs s'. exec_all cs s = Inr (outs, s') \<and> sys_inv s' \<and> aexec_all cs [] = (outs, abs_fs s')"
proof -
  have "sys_inv s" "abs_fs s = []" using mksfs_sys_inv [OF assms(1-3)] assms(4) by auto
  then show ?thesis using exec_all_refines [of s cs] assms(5) by auto
qed

lemma demo_boot_ok: "globals_ok demo_boot" "can_create demo_boot" "sem demo_boot \<noteq> Some 0"
  by (simp_all add: demo_boot_def boot_globals) (simp_all add: boot_def)

theorem commands_refine_witness:
  "\<exists>outs s'. exec_all demo_cmds demo_disk = Inr (outs, s') \<and> sys_inv s' \<and>
     aexec_all demo_cmds [] = (outs, abs_fs s')"
  using commands_refine [OF demo_boot_ok demo_disk(4) demo_admissible] .

end
