(* ===== verification/Fuse.thy ===== *)
theory Fuse
  imports Sfs_Spec
begin

text \<open>
  The FUSE callbacks of \<^verbatim>\<open>file_system/fuse_wrappers.c\<close>. A path is the object the kernel
  passes. \<open>maxfn\<close> stands for \<open>MAXFILENAME\<close>, which no file of the repository defines,
  \<open>err\<close> for the value of \<open>errno\<close> when a callback fails (nothing in the file system sets
  it), \<open>filler\<close> for the function FUSE passes to \<open>fuse_readdir\<close>. A parameter of type
  \<open>size_t\<close> or \<open>off_t\<close> is converted to \<open>int\<close> where it is passed on.

  The lemmas show what each callback does to the file system of \<open>Sfs_Spec\<close>, that the loop
  of \<open>fuse_readdir\<close> ends, and which files it lists.
\<close>

subsection \<open>The callbacks\<close>

record stat =
  st_mode :: nat
  st_nlink :: nat
  st_size :: int

definition S_IFDIR_0755 :: nat where
  "S_IFDIR_0755 = 16877"

definition S_IFREG_0666 :: nat where
  "S_IFREG_0666 = 33206"

definition ENOENT :: int where
  "ENOENT = 2"

definition root_path :: "byte list" where
  "root_path = [47, 0]"

definition fuse_getattr :: "byte list \<Rightarrow> sfs \<Rightarrow> (int \<times> stat \<times> sfs) result" where
  "fuse_getattr path s =
     (let st = \<lparr>st_mode = 0, st_nlink = 0, st_size = 0\<rparr> in
      rbind (c_streq path root_path) (\<lambda>root.
      if root then Inr (0, st\<lparr>st_mode := S_IFDIR_0755, st_nlink := 2\<rparr>, s)
      else rbind (sfs_getfilesize path s) (\<lambda>(sz, s1).
      if sz \<noteq> -1 then Inr (0, st\<lparr>st_mode := S_IFREG_0666, st_nlink := 1, st_size := sz\<rparr>, s1)
      else Inr (- ENOENT, st, s1))))"

function readdir_loop :: "('b \<Rightarrow> byte list \<Rightarrow> 'b) \<Rightarrow> 'b \<Rightarrow> byte list \<Rightarrow> sfs \<Rightarrow> ('b \<times> sfs) result" where
  "readdir_loop filler buf file_name s =
     rbind (sfs_getnextfilename file_name s) (\<lambda>(r, file_name', s').
     if r = 0 then Inr (buf, s')
     else readdir_loop filler (filler buf (drop 1 file_name')) file_name' s')"
  by pat_completeness auto
termination
proof (relation "measure (\<lambda>(filler, buf, file_name, s). nat (100 - c_mod (rootDir_ptr s) 100))", goal_cases)
  case 1
  then show ?case by simp
next
  case (2 filler buf file_name s x r y file_name' s')
  then have "sfs_getnextfilename file_name s = Inr (r, file_name', s')" "r \<noteq> 0" by simp_all
  from getnextfilename_progress [OF this] show ?case by simp
qed

declare readdir_loop.simps [simp del]

definition fuse_readdir :: "nat \<Rightarrow> byte list \<Rightarrow> ('b \<Rightarrow> byte list \<Rightarrow> 'b) \<Rightarrow> 'b \<Rightarrow> sfs \<Rightarrow> (int \<times> 'b \<times> sfs) result" where
  "fuse_readdir maxfn path filler buf s =
     (let (file_name, s0) = indet maxfn s in
      rbind (c_streq path root_path) (\<lambda>root.
      if \<not> root then Inr (- ENOENT, buf, s0)
      else rbind (readdir_loop filler (filler (filler buf [46, 0]) [46, 46, 0]) file_name s0) (\<lambda>(buf', s1).
      Inr (0, buf', s1))))"

text \<open>\<open>char filename[MAXFILENAME]; strcpy(filename, path);\<close>\<close>

definition copy_path :: "nat \<Rightarrow> byte list \<Rightarrow> sfs \<Rightarrow> (byte list \<times> sfs) result" where
  "copy_path maxfn path s =
     (let (filename, s0) = indet maxfn s in rbind (c_strcpy filename path) (\<lambda>f. Inr (f, s0)))"

definition fuse_unlink :: "nat \<Rightarrow> int \<Rightarrow> byte list \<Rightarrow> sfs \<Rightarrow> (int \<times> sfs) result" where
  "fuse_unlink maxfn err path s =
     rbind (copy_path maxfn path s) (\<lambda>(filename, s0).
     rbind (sfs_remove filename s0) (\<lambda>(res, s1).
     if res = -1 then Inr (- err, s1) else Inr (0, s1)))"

definition fuse_open :: "nat \<Rightarrow> int \<Rightarrow> byte list \<Rightarrow> sfs \<Rightarrow> (int \<times> sfs) result" where
  "fuse_open maxfn err path s =
     rbind (copy_path maxfn path s) (\<lambda>(filename, s0).
     rbind (sfs_fopen filename s0) (\<lambda>(res, s1).
     if res = -1 then Inr (- err, s1)
     else rbind (sfs_fclose res s1) (\<lambda>(r, s2). Inr (0, s2))))"



definition fuse_truncate :: "nat \<Rightarrow> int \<Rightarrow> byte list \<Rightarrow> int \<Rightarrow> sfs \<Rightarrow> (int \<times> sfs) result" where
  "fuse_truncate maxfn err path sz s =
     rbind (copy_path maxfn path s) (\<lambda>(filename, s0).
     rbind (sfs_remove filename s0) (\<lambda>(fd, s1).
     if fd = -1 then Inr (- err, s1)
     else rbind (sfs_fopen filename s1) (\<lambda>(fd', s2).
     rbind (sfs_fclose fd' s2) (\<lambda>(r, s3). Inr (0, s3)))))"

definition fuse_access :: "byte list \<Rightarrow> int \<Rightarrow> sfs \<Rightarrow> (int \<times> sfs) result" where
  "fuse_access path msk s = Inr (0, s)"

definition fuse_mknod :: "byte list \<Rightarrow> nat \<Rightarrow> nat \<Rightarrow> sfs \<Rightarrow> (int \<times> sfs) result" where
  "fuse_mknod path md rdev s = Inr (0, s)"

definition fuse_create :: "nat \<Rightarrow> byte list \<Rightarrow> nat \<Rightarrow> sfs \<Rightarrow> (int \<times> sfs) result" where
  "fuse_create maxfn path md s =
     rbind (copy_path maxfn path s) (\<lambda>(filename, s0).
     rbind (sfs_fopen filename s0) (\<lambda>(fd, s1).
     rbind (sfs_fclose fd s1) (\<lambda>(r, s2). Inr (0, s2))))"

subsection \<open>Paths\<close>

text \<open>
  The path is a string in an object of its own; \<open>quiet\<close> says that the array it is copied
  to is large enough and has no period in its uninitialised bytes.
\<close>

definition path_arg :: "byte list \<Rightarrow> byte list" where
  "path_arg p = p @ [0]"

definition quiet :: "nat \<Rightarrow> byte list \<Rightarrow> sfs \<Rightarrow> bool" where
  "quiet maxfn p s \<longleftrightarrow> 0 \<notin> set p \<and> length p < maxfn \<and> 21 \<le> maxfn \<and> 46 \<notin> set (stake maxfn (unk s))"

lemma path_arg [simp]:
  assumes "0 \<notin> set p"
  shows "terminated (path_arg p)" and "cstr (path_arg p) = p"
  using assms by (simp_all add: path_arg_def)

lemma copy_path_ok:
  assumes "quiet maxfn p s"
  shows "\<exists>f. copy_path maxfn (path_arg p) s = Inr (f, s\<lparr>unk := sdrop maxfn (unk s)\<rparr>) \<and> terminated f \<and> cstr f = p \<and>
    21 \<le> length f \<and> 46 \<notin> set (drop (length p) (take 20 (take 21 f)))"
proof -
  have p: "0 \<notin> set p" "length p < maxfn" "21 \<le> maxfn" "46 \<notin> set (stake maxfn (unk s))"
    using assms by (simp_all add: quiet_def)
  let ?f = "p @ 0 # drop (Suc (length p)) (stake maxfn (unk s))"
  have run: "copy_path maxfn (path_arg p) s = Inr (?f, s\<lparr>unk := sdrop maxfn (unk s)\<rparr>)"
    using c_strcpy_ok [of "path_arg p" "stake maxfn (unk s)"] p by (simp add: copy_path_def indet_def)
  have "drop (length p) ?f = 0 # drop (Suc (length p)) (stake maxfn (unk s))" by simp
  then have "set (drop (length p) (take 20 (take 21 ?f))) \<subseteq> insert 0 (set (stake maxfn (unk s)))"
    by (auto simp: drop_take dest!: in_set_takeD in_set_dropD split: if_splits)
  then have "46 \<notin> set (drop (length p) (take 20 (take 21 ?f)))" using p(4) by auto
  moreover have "21 \<le> length ?f" using p(2,3) by simp
  ultimately show ?thesis using run terminated_append_nul cstr_append_nul [OF p(1)] by blast
qed

text \<open>
  The number that \<open>sfs_fseek\<close> and \<open>sfs_remove\<close> forget to return, when a callback asks for it: the
  indeterminate bytes behind those of the array of the path, as nothing in between uses any.
\<close>

definition leftover :: "nat \<Rightarrow> sfs \<Rightarrow> int" where
  "leftover maxfn s = s32 (int (le_nat (stake 4 (sdrop maxfn (unk s)))))"

lemma copy_path_unk: "copy_path maxfn p s = Inr (f, s0) \<Longrightarrow> length f = maxfn \<and> unk s0 = sdrop maxfn (unk s)"
  by (auto simp: copy_path_def indet_def rbind_Inr_iff c_strcpy_def store_mem_def split: if_splits)


lemma remove_leftover:
  assumes "copy_path maxfn p s = Inr (f, s0)" and "sfs_remove f s0 = Inr (r, s1)"
  shows "r = leftover maxfn s"
  using assms(2) copy_path_unk [OF assms(1)] by (auto simp: sfs_remove_def indet_int_def indet_def leftover_def)

text \<open>What every callback that opens the file does first.\<close>

lemma path_open:
  assumes "sys_inv s" and "quiet maxfn p s"
  shows "\<exists>f s0 r s1. copy_path maxfn (path_arg p) s = Inr (f, s0) \<and> sfs_fopen f s0 = Inr (r, s1) \<and> sys_inv s1 \<and>
    aopen_cmd p (abs_fs s) = (r, abs_fs s1) \<and> free_bit_map s1 = free_bit_map s \<and> same_blocks s s1"
proof -
  obtain f where f: "copy_path maxfn (path_arg p) s = Inr (f, s\<lparr>unk := sdrop maxfn (unk s)\<rparr>)" "terminated f" "cstr f = p"
    "21 \<le> length f" "46 \<notin> set (drop (length p) (take 20 (take 21 f)))"
    using copy_path_ok [OF assms(2)] by blast
  let ?s0 = "s\<lparr>unk := sdrop maxfn (unk s)\<rparr>"
  have "sys_inv ?s0" using assms(1) by (simp add: sys_inv_unk)
  from sfs_fopen_abs [OF this f(2) load_mem_full [OF f(4)]] f(3,5)
  obtain r s1 where "sfs_fopen f ?s0 = Inr (r, s1)" "sys_inv s1" "aopen_cmd p (abs_fs ?s0) = (r, abs_fs s1)"
    "free_bit_map s1 = free_bit_map ?s0" "same_blocks ?s0 s1" by auto
  moreover from this(5) have "same_blocks s s1" by (simp add: same_blocks_def)
  ultimately show ?thesis using f(1) by (auto simp: sys_inv_unk)
qed






lemma afile_swap [simp]:
  "f\<lparr>aopen := b, apos := x\<rparr> = f\<lparr>apos := x, aopen := b\<rparr>"
  "f\<lparr>aopen := b, adata := d, apos := x\<rparr> = f\<lparr>adata := d, apos := x, aopen := b\<rparr>"
  by (cases f; simp)+



subsection \<open>Listing the directory\<close>

lemma ptr_fields:
  "dir_names (s\<lparr>rootDir_ptr := p\<rparr>) = dir_names s" "dir_ok (s\<lparr>rootDir_ptr := p\<rparr>) = dir_ok s"
  "sem_ready (s\<lparr>rootDir_ptr := p\<rparr>) = sem_ready s" "sys_inv (s\<lparr>rootDir_ptr := p\<rparr>) = sys_inv s"
  "abs_fs (s\<lparr>rootDir_ptr := p\<rparr>) = abs_fs s"
  by (simp_all add: dir_names_def dir_ok_def globals_ok_def sem_ready_def sys_inv_def fs_inv_def disk_ready_def
      abs_fs_def abs_file_def file_data_def cong: map_cong)

lemma cstr_drop1: "0 \<notin> set n \<Longrightarrow> n \<noteq> [] \<Longrightarrow> cstr (drop 1 (n @ 0 # r)) = drop 1 n"
  by (cases n) auto

lemma dir_name_nonzero: "dir_ok s \<Longrightarrow> n \<in> set (dir_names s) \<Longrightarrow> 0 \<notin> set n"
  by (auto simp: dir_names_def entry_names_def dest!: set_takeWhileD)

lemma readdir_loop_lists:
  assumes "dir_ok s" and "sem_ready s" and "rootDir_ptr s = int p" and "p < length (dir_names s)"
    and "length (dir_names s) < 100" and "21 \<le> length f"
  shows "readdir_loop (\<lambda>b x. g b (cstr x)) buf f s =
    Inr (foldl g buf (map (drop 1) (butlast (drop p (dir_names s)))), s\<lparr>rootDir_ptr := int (length (dir_names s) - 1)\<rparr>)"
  using assms
proof (induction "length (dir_names s) - p" arbitrary: p s buf f)
  case 0
  then show ?case by simp
next
  case (Suc d)
  let ?ns = "dir_names s"
  show ?case
  proof (cases "Suc p < length ?ns")
    case False
    then have last: "length ?ns = Suc p" using Suc.prems(4) by simp
    then obtain f' where "sfs_getnextfilename f s = Inr (0, f', s)"
      using getnextfilename_last [OF Suc.prems(1-3) _ _ Suc.prems(6)] Suc.prems(5) by auto
    moreover have "butlast (drop p ?ns) = []" using last by (simp add: butlast_conv_take)
    moreover have "s\<lparr>rootDir_ptr := int p\<rparr> = s" using Suc.prems(3) by simp
    ultimately show ?thesis using last by (subst readdir_loop.simps) simp
  next
    case True
    let ?f' = "?ns ! p @ 0 # drop (Suc (length (?ns ! p))) f" and ?s' = "s\<lparr>rootDir_ptr := int (Suc p)\<rparr>"
    have nx: "sfs_getnextfilename f s = Inr (int (Suc p), ?f', ?s')"
      using getnextfilename_more [OF Suc.prems(1-3) True Suc.prems(6)] .
    have np: "?ns ! p \<in> set ?ns" "0 \<notin> set (?ns ! p)" "?ns ! p \<noteq> []"
      using Suc.prems(1,4) dir_name_nonzero Nil_notin_dir_names [of s] by (auto simp: in_set_conv_nth)
    have len: "21 \<le> length ?f'" using Suc.prems(6) by simp
    have "readdir_loop (\<lambda>b x. g b (cstr x)) (g buf (drop 1 (?ns ! p))) ?f' ?s' =
        Inr (foldl g (g buf (drop 1 (?ns ! p))) (map (drop 1) (butlast (drop (Suc p) (dir_names ?s')))),
          ?s'\<lparr>rootDir_ptr := int (length (dir_names ?s') - 1)\<rparr>)"
      using Suc.hyps(2) Suc.prems True len by (intro Suc.hyps(1)) (simp_all add: ptr_fields)
    moreover have "butlast (drop p ?ns) = ?ns ! p # butlast (drop (Suc p) ?ns)"
      using Suc.prems(4) True by (simp add: Cons_nth_drop_Suc [symmetric])
    ultimately show ?thesis
      using nx cstr_drop1 [OF np(2,3)] by (subst readdir_loop.simps) (simp add: ptr_fields)
  qed
qed

text \<open>With a full directory the index reaches 99 and the next call reads the entry -1.\<close>

lemma readdir_loop_full:
  assumes "dir_ok s" and "sem_ready s" and "rootDir_ptr s = int p" and "p < 100"
    and "length (dir_names s) = 100" and "21 \<le> length f"
  shows "readdir_loop flr buf f s = Inl OutOfBounds"
  using assms
proof (induction "99 - p" arbitrary: p s buf f)
  case 0
  then have p: "rootDir_ptr s = 99" by simp
  obtain n where n: "disk_access s" "sem s = Some (Suc n)" "sem_wait s = Inr (s\<lparr>sem := Some n\<rparr>)"
    using 0(3) by (rule sem_readyE)
  have "terminated (name (rootDir s ! 0))" using dir_okD(1,5) [OF 0(2)] by simp
  then have "sfs_getnextfilename f s = Inl OutOfBounds"
    using n p by (simp add: sfs_getnextfilename_def Let_def table_index_def c_streq_terminated)
  then show ?case by (subst readdir_loop.simps) simp
next
  case (Suc d)
  let ?ns = "dir_names s"
  have True: "Suc p < length ?ns" using Suc.hyps(2) Suc.prems(5) by simp
  have "readdir_loop flr b f' (s\<lparr>rootDir_ptr := int (Suc p)\<rparr>) = Inl OutOfBounds" if "21 \<le> length f'" for b f'
    using Suc.hyps(2) Suc.prems that by (intro Suc.hyps(1) [of "Suc p"]) (simp_all add: ptr_fields)
  then show ?case
    using getnextfilename_more [OF Suc.prems(1-3) True Suc.prems(6)] Suc.prems(6)
    by (subst readdir_loop.simps) simp
qed

subsection \<open>States for the examples\<close>

text \<open>The disk with one file, and one with 100 files.\<close>

lemma no_period_in_zeros: "46 \<notin> set (stake n (sconst (0 :: byte)))"
  by (auto simp: in_set_conv_nth)

definition demo_fuse :: sfs where
  "demo_fuse = demo_file\<lparr>unk := sconst 0, rootDir_ptr := 0\<rparr>"

lemma demo_fuse:
  shows "sys_inv demo_fuse" and "abs_fs demo_fuse = [\<lparr>aname = demo_name, adata = demo_data, apos = 5, aopen = True\<rparr>]"
    and "dir_names demo_fuse = [demo_name]" and "quiet 32 demo_name demo_fuse" and "rootDir_ptr demo_fuse = 0"
    and "lookup (abs_fs demo_fuse) demo_name = 0"
proof -
  have u: "demo_fuse = (demo_file\<lparr>rootDir_ptr := 0\<rparr>)\<lparr>unk := sconst 0\<rparr>" by (simp add: demo_fuse_def)
  show "sys_inv demo_fuse" unfolding u sys_inv_unk ptr_fields by (rule demo_file(1))
  show a: "abs_fs demo_fuse = [\<lparr>aname = demo_name, adata = demo_data, apos = 5, aopen = True\<rparr>]"
    unfolding u sys_inv_unk ptr_fields by (rule demo_file(2))
  have n: "names (abs_fs demo_fuse) = [demo_name]" by (simp add: a names_def)
  then show "dir_names demo_fuse = [demo_name]" by simp
  show "quiet 32 demo_name demo_fuse" using demo_name no_period_in_zeros [of 32] by (simp add: quiet_def demo_fuse_def)
  show "rootDir_ptr demo_fuse = 0" by (simp add: demo_fuse_def)
  show "lookup (abs_fs demo_fuse) demo_name = 0" unfolding lookup_def n by simp
qed

lemma open_many:
  "distinct (names fs @ ns) \<Longrightarrow> \<forall>n\<in>set ns. legal_name n \<Longrightarrow> length fs + length ns \<le> 100 \<Longrightarrow>
   names (snd (aexec_all (map Open ns) fs)) = names fs @ ns"
proof (induction ns arbitrary: fs)
  case Nil
  then show ?case by simp
next
  case (Cons n ns)
  let ?fs = "fs @ [\<lparr>aname = n, adata = [], apos = 0, aopen = True\<rparr>]"
  have open1: "aopen_cmd n fs = (int (length fs), ?fs)" using Cons.prems by (simp add: aopen_cmd_def)
  have nm: "names ?fs = names fs @ [n]" by (simp add: names_def)
  have "names (snd (aexec_all (map Open ns) ?fs)) = names ?fs @ ns"
    using Cons.prems by (intro Cons.IH) (simp_all add: nm)
  then show ?case using open1 nm by (cases "aexec_all (map Open ns) ?fs") simp
qed

definition demo_names :: "byte list list" where
  "demo_names = map (\<lambda>i. [97, 46, of_nat (Suc i)]) [0..<100]"

definition demo_full :: sfs where
  "demo_full = (case exec_all (map Open demo_names) demo_disk of Inr (_, s) \<Rightarrow> s | Inl _ \<Rightarrow> demo_disk)\<lparr>rootDir_ptr := 0\<rparr>"

lemma admissible_opens: "\<forall>n\<in>set ns. 0 \<notin> set n \<Longrightarrow> admissible_all (map Open ns) s"
  by (induction ns arbitrary: s) (auto split: sum.splits)

lemma demo_names: "distinct demo_names" "\<forall>n\<in>set demo_names. legal_name n \<and> 0 \<notin> set n" "length demo_names = 100"
proof -
  have u: "unat (word_of_nat (Suc i) :: byte) = Suc i" if "i < 100" for i
    using that by (simp only: unat_of_nat) simp
  have inj: "inj_on (\<lambda>i. [97, 46, word_of_nat (Suc i) :: byte]) {0..<100}"
  proof (rule inj_onI)
    fix i j :: nat assume ij: "i \<in> {0..<100}" "j \<in> {0..<100}"
      "[97, 46, word_of_nat (Suc i) :: byte] = [97, 46, word_of_nat (Suc j)]"
    then have "unat (word_of_nat (Suc i) :: byte) = unat (word_of_nat (Suc j) :: byte)" by simp
    then show "i = j" using u [of i] u [of j] ij(1,2) by simp
  qed
  then show "distinct demo_names" by (simp only: demo_names_def distinct_map) simp
  have "legal_name [97, 46, b]" for b :: byte
    by (simp add: legal_name_def MAX_FILE_NAME_def MAX_EXTENSION_NAME_def)
  moreover have "(word_of_nat (Suc i) :: byte) \<noteq> 0" if "i < 100" for i
    using u [OF that] by (metis unat_0 nat.distinct(1))
  ultimately show "\<forall>n\<in>set demo_names. legal_name n \<and> 0 \<notin> set n"
    by (auto simp: demo_names_def simp del: of_nat_Suc)
  show "length demo_names = 100" by (simp add: demo_names_def)
qed

lemma demo_full:
  shows "sys_inv demo_full" and "length (dir_names demo_full) = 100" and "rootDir_ptr demo_full = 0"
proof -
  obtain outs s where s: "exec_all (map Open demo_names) demo_disk = Inr (outs, s)" "sys_inv s"
    "aexec_all (map Open demo_names) [] = (outs, abs_fs s)"
    using exec_all_refines [OF demo_disk(1), of "map Open demo_names"] demo_names(2)
    by (auto simp: demo_disk(2) admissible_opens)
  have e: "demo_full = s\<lparr>rootDir_ptr := 0\<rparr>" by (simp add: demo_full_def s(1))
  show "sys_inv demo_full" "rootDir_ptr demo_full = 0" using s(2) by (simp_all add: e ptr_fields)
  have "names (abs_fs s) = demo_names"
    using open_many [of "[]" demo_names] demo_names s(3) by (simp add: names_def)
  then have "dir_names s = demo_names" by simp
  then show "length (dir_names demo_full) = 100" using demo_names(3) by (simp add: e ptr_fields)
qed

subsection \<open>Properties\<close>


text \<open>The uninitialised memory is zero, so that the number is 0.\<close>

lemma demo_leftover: "leftover 32 demo_fuse = 0"
  by (simp add: leftover_def demo_fuse_def) code_simp




text \<open>
  Listing the root directory ends, passes the entries "." and ".." and the names of the
  files from the current index on without their first character, but never the last file,
  and leaves the index at the last file, so that listing again passes no file at all.
\<close>

theorem fuse_readdir_drops_last:
  assumes "sys_inv s" and "rootDir_ptr s = int p" and "p < length (dir_names s)"
    and "length (dir_names s) < 100" and "21 \<le> maxfn"
  shows "\<exists>s'. fuse_readdir maxfn root_path (\<lambda>b x. g b (cstr x)) buf s =
      Inr (0, foldl g (g (g buf [46]) [46, 46]) (map (drop 1) (butlast (drop p (dir_names s)))), s') \<and>
    sys_inv s' \<and> abs_fs s' = abs_fs s \<and> rootDir_ptr s' = int (length (dir_names s) - 1)"
proof -
  let ?s0 = "s\<lparr>unk := sdrop maxfn (unk s)\<rparr>"
  note inv = sys_invD [OF assms(1)]
  have "dir_ok ?s0" "sem_ready ?s0" "dir_names ?s0 = dir_names s"
    using inv(2,3) by (simp_all add: sem_ready_def dir_names_fields)
  then have "readdir_loop (\<lambda>b x. g b (cstr x)) b (stake maxfn (unk s)) ?s0 =
      Inr (foldl g b (map (drop 1) (butlast (drop p (dir_names s)))), ?s0\<lparr>rootDir_ptr := int (length (dir_names s) - 1)\<rparr>)" for b
    using readdir_loop_lists [of ?s0 p "stake maxfn (unk s)"] assms(2-5) by simp
  then show ?thesis
    using assms(1) by (simp add: fuse_readdir_def indet_def root_path_def sys_inv_unk ptr_fields)
qed

theorem fuse_readdir_drops_last_witness:
  "\<exists>s'. fuse_readdir 32 root_path (\<lambda>b x. b @ [cstr x]) [] demo_fuse =
      Inr (0, foldl (\<lambda>b x. b @ [x]) (([] @ [[46]]) @ [[46, 46]]) (map (drop 1) (butlast (drop 0 (dir_names demo_fuse)))), s') \<and>
    sys_inv s' \<and> abs_fs s' = abs_fs demo_fuse \<and> rootDir_ptr s' = int (length (dir_names demo_fuse) - 1)"
  by (rule fuse_readdir_drops_last [OF demo_fuse(1), where g = "\<lambda>b x. b @ [x]"]) (simp_all add: demo_fuse(3,5))

text \<open>C37: With 100 files, listing the directory reads the directory entry of index -1.\<close>

theorem fuse_readdir_full_crash:
  assumes "sys_inv s" and "rootDir_ptr s = int p" and "p < 100" and "length (dir_names s) = 100" and "21 \<le> maxfn"
  shows "fuse_readdir maxfn root_path flr buf s = Inl OutOfBounds"
proof -
  let ?s0 = "s\<lparr>unk := sdrop maxfn (unk s)\<rparr>"
  note inv = sys_invD [OF assms(1)]
  have "dir_ok ?s0" "sem_ready ?s0" "dir_names ?s0 = dir_names s"
    using inv(2,3) by (simp_all add: sem_ready_def dir_names_fields)
  then show ?thesis
    using readdir_loop_full [of ?s0 p "stake maxfn (unk s)" flr] assms(2-5)
    by (simp add: fuse_readdir_def indet_def root_path_def)
qed

theorem fuse_readdir_full_witness:
  "fuse_readdir 32 root_path (\<lambda>b x. b @ [cstr x]) [] demo_full = Inl OutOfBounds"
  by (rule fuse_readdir_full_crash [OF demo_full(1), where p = 0]) (simp_all add: demo_full)

text \<open>
  \<open>fuse_unlink\<close> removes nothing: whatever the path, the directory, the contents of all
  files and the free blocks are the same afterwards, and the result is 0, or the negative
  \<open>errno\<close> if the number that \<open>sfs_remove\<close> forgets to return is -1.
\<close>

theorem fuse_unlink_keeps:
  assumes "0 \<notin> set p" and "length p < maxfn"
  shows "\<exists>u. fuse_unlink maxfn err (path_arg p) s = Inr (if leftover maxfn s = -1 then - err else 0, s\<lparr>unk := u\<rparr>)"
proof -
  have "copy_path maxfn (path_arg p) s =
      Inr (p @ 0 # drop (Suc (length p)) (stake maxfn (unk s)), s\<lparr>unk := sdrop maxfn (unk s)\<rparr>)"
    using c_strcpy_ok [of "path_arg p" "stake maxfn (unk s)"] assms by (simp add: copy_path_def indet_def)
  then show ?thesis by (auto simp: fuse_unlink_def sfs_remove_def indet_int_def indet_def leftover_def)
qed

theorem fuse_unlink_witness:
  "\<exists>u. fuse_unlink 32 5 (path_arg demo_name) demo_fuse = Inr (0, demo_fuse\<lparr>unk := u\<rparr>)"
  using fuse_unlink_keeps [OF demo_name(1), of 32 5 demo_fuse] by (simp add: demo_name(4) demo_leftover)

text \<open>
  \<open>fuse_create\<close> of a file whose name the file system refuses closes descriptor -1, an
  access in front of the inode table.
\<close>

theorem fuse_create_refused_crash:
  assumes "sys_inv s" and "quiet maxfn p s" and "\<not> legal_name p"
  shows "fuse_create maxfn (path_arg p) md s = Inl OutOfBounds"
proof -
  obtain f s0 r s1 where o: "copy_path maxfn (path_arg p) s = Inr (f, s0)" "sfs_fopen f s0 = Inr (r, s1)" "sys_inv s1"
    "aopen_cmd p (abs_fs s) = (r, abs_fs s1)"
    using path_open [OF assms(1,2)] by blast
  have r: "r = -1" using o(4) assms(3) by (simp add: aopen_cmd_def)
  obtain n where "sem_wait s1 = Inr (s1\<lparr>sem := Some n\<rparr>)" using sys_invD(3) [OF o(3)] by (rule sem_readyE)
  then show ?thesis using o(1,2) r by (simp add: fuse_create_def sfs_fclose_def table_index_def)
qed

theorem fuse_create_refused_witness:
  "fuse_create 32 (path_arg (bytes_of ''abc'')) 0 demo_fuse = Inl OutOfBounds"
proof (rule fuse_create_refused_crash [OF demo_fuse(1)])
  show "\<not> legal_name (bytes_of ''abc'')" by code_simp
  have "0 \<notin> set (bytes_of ''abc'')" "length (bytes_of ''abc'') < 32" by (code_simp, code_simp)
  then show "quiet 32 (bytes_of ''abc'') demo_fuse"
    using no_period_in_zeros [of 32] by (simp add: quiet_def demo_fuse_def)
qed

text \<open>
  \<open>fuse_getattr\<close> describes the root as a directory, an existing file as a regular file
  of the size of its contents, and answers \<open>ENOENT\<close> for every other path.
\<close>

theorem fuse_getattr_correct:
  assumes "sys_inv s" and "0 \<notin> set p" and "p \<noteq> []"
  shows "fuse_getattr (path_arg p) s =
    (if p = [47] then Inr (0, \<lparr>st_mode = S_IFDIR_0755, st_nlink = 2, st_size = 0\<rparr>, s)
     else if p \<in> set (dir_names s)
     then Inr (0, \<lparr>st_mode = S_IFREG_0666, st_nlink = 1,
        st_size = int (length (adata (abs_fs s ! lookup (abs_fs s) p)))\<rparr>, s)
     else Inr (- ENOENT, \<lparr>st_mode = 0, st_nlink = 0, st_size = 0\<rparr>, s))"
proof -
  note inv = sys_invD [OF assms(1)]
  note arg = path_arg [OF assms(2)]
  have root: "c_streq (path_arg p) root_path = Inr (p = [47])"
    using arg by (simp add: c_streq_terminated root_path_def)
  show ?thesis
  proof (cases "p \<in> set (dir_names s)")
    case True
    let ?i = "lookup (abs_fs s) p"
    have i: "?i < length (dir_names s)" "dir_names s ! ?i = p" using True lookup_index [of p "abs_fs s"] by simp_all
    have "?i < 100" using i(1) length_dir_names [OF inv(2)] by simp
    then have "isize (inode_table s ! ?i) \<le> 274432" by (intro blocks_okD(2) [OF fs_invD(6) [OF inv(1)]])
    then have "sfs_getfilesize (path_arg p) s = Inr (int (isize (inode_table s ! ?i)), s)"
      using getfilesize_ok [OF inv(2,3) arg(1) i(1)] i(2) arg(2) by simp
    then show ?thesis using True root i(1) by (simp add: fuse_getattr_def abs_file_def)
  next
    case False
    then have "sfs_getfilesize (path_arg p) s = Inr (-1, s)"
      using getfilesize_none [OF inv(2,3) arg(1)] arg(2) assms(3) by simp
    then show ?thesis using False root by (simp add: fuse_getattr_def)
  qed
qed

theorem fuse_getattr_witness:
  "fuse_getattr (path_arg demo_name) demo_fuse =
    (if demo_name = [47] then Inr (0, \<lparr>st_mode = S_IFDIR_0755, st_nlink = 2, st_size = 0\<rparr>, demo_fuse)
     else if demo_name \<in> set (dir_names demo_fuse)
     then Inr (0, \<lparr>st_mode = S_IFREG_0666, st_nlink = 1,
        st_size = int (length (adata (abs_fs demo_fuse ! lookup (abs_fs demo_fuse) demo_name)))\<rparr>, demo_fuse)
     else Inr (- ENOENT, \<lparr>st_mode = 0, st_nlink = 0, st_size = 0\<rparr>, demo_fuse))"
  by (rule fuse_getattr_correct [OF demo_fuse(1) demo_name(1,3)])

end
