(* ===== verification/Sfs_Space.thy ===== *)
theory Sfs_Space
  imports Sfs_Spec
begin

text \<open>
  When the disk is large enough: conditions on the calls of a client alone, read off the
  abstract file system, under which every call is \<open>admissible\<close>. The client keeps its files
  within the twelve direct blocks, does not seek behind the end of a file and does not
  ask for more than the 989 blocks there are. The invariant is that no block is lost: each of
  them is free or belongs to a file (\<open>accounted\<close>).
\<close>

subsection \<open>What the client does\<close>

definition blocks_used :: "afs \<Rightarrow> nat" where
  "blocks_used fs = sum_list (map (\<lambda>f. nblocks (length (adata f))) fs)"

fun client_ok :: "fs_cmd \<Rightarrow> afs \<Rightarrow> bool" where
  "client_ok (Open n) fs \<longleftrightarrow> 0 \<notin> set n"
| "client_ok (Close k) fs \<longleftrightarrow> k < 100"
| "client_ok (Seek k p) fs \<longleftrightarrow> k < length fs \<and> p \<le> length (adata (fs ! k))"
| "client_ok (Read k len) fs \<longleftrightarrow> k < 100 \<and> 0 < len \<and> len < 2147483648"
| "client_ok (Write k bs) fs \<longleftrightarrow> k < 100 \<and> length bs < 2147483648 \<and>
     (is_open fs k \<and> apos (fs ! k) + length bs \<le> MAX_FILE_SIZE \<longrightarrow>
      0 < length bs \<and> apos (fs ! k) + length bs \<le> 12288 \<and> blocks_used (snd (awrite_cmd k bs fs)) \<le> 989)"
| "client_ok (Size n) fs \<longleftrightarrow> 0 \<notin> set n \<and> n \<noteq> []"

fun client_all :: "fs_cmd list \<Rightarrow> afs \<Rightarrow> bool" where
  "client_all [] fs \<longleftrightarrow> True"
| "client_all (c # cs) fs \<longleftrightarrow> client_ok c fs \<and> client_all cs (snd (aexec c fs))"

definition small_file :: "afile \<Rightarrow> bool" where
  "small_file f \<longleftrightarrow> apos f \<le> length (adata f) \<and> length (adata f) \<le> 12288"

lemma small_update: "\<forall>f\<in>set fs. small_file f \<Longrightarrow> small_file g \<Longrightarrow> \<forall>f\<in>set (fs[k := g]). small_file f"
  using set_update_subset_insert [of fs k g] by auto

lemma small_step:
  assumes "\<forall>f\<in>set fs. small_file f" and "client_ok c fs"
  shows "\<forall>f\<in>set (snd (aexec c fs)). small_file f"
proof (cases c)
  case (Open n)
  show ?thesis
  proof (cases "n \<in> set (names fs)")
    case True
    then have "small_file (fs ! lookup fs n)" using lookup_index [of n fs] assms(1) by simp
    then have "small_file ((fs ! lookup fs n)\<lparr>apos := length (adata (fs ! lookup fs n)), aopen := True\<rparr>)"
      by (simp add: small_file_def)
    then show ?thesis using True assms(1) small_update [OF assms(1)] by (simp add: Open aopen_cmd_def)
  next
    case False
    have "small_file \<lparr>aname = n, adata = [], apos = 0, aopen = True\<rparr>" by (simp add: small_file_def)
    then show ?thesis using False assms(1) by (simp add: Open aopen_cmd_def)
  qed
next
  case (Close k)
  show ?thesis
  proof (cases "is_open fs k")
    case True
    then have "small_file ((fs ! k)\<lparr>aopen := False\<rparr>)" using assms(1) by (simp add: small_file_def is_open_def)
    then show ?thesis using True by (simp add: Close aclose_cmd_def small_update [OF assms(1)])
  qed (use assms(1) in \<open>simp add: Close aclose_cmd_def\<close>)
next
  case (Seek k p)
  then have "small_file ((fs ! k)\<lparr>apos := p\<rparr>)" using assms by (simp add: small_file_def)
  then show ?thesis using small_update [OF assms(1)] by (simp add: Seek)
next
  case (Read k len)
  show ?thesis
  proof (cases "is_open fs k \<and> apos (fs ! k) + len \<le> length (adata (fs ! k))")
    case True
    then have "small_file ((fs ! k)\<lparr>apos := apos (fs ! k) + len\<rparr>)" using assms(1) by (simp add: small_file_def is_open_def)
    then show ?thesis using True by (simp add: Read aread_cmd_def Let_def small_update [OF assms(1)])
  qed (use assms(1) in \<open>auto simp: Read aread_cmd_def Let_def\<close>)
next
  case (Write k bs)
  show ?thesis
  proof (cases "is_open fs k \<and> apos (fs ! k) + length bs \<le> MAX_FILE_SIZE")
    case True
    then have "small_file (fs ! k)" using assms(1) by (simp add: is_open_def)
    then have "small_file ((fs ! k)\<lparr>adata := overwrite (adata (fs ! k)) (apos (fs ! k)) bs, apos := apos (fs ! k) + length bs\<rparr>)"
      using assms(2) True by (auto simp: Write small_file_def overwrite_def)
    then show ?thesis using True by (simp add: Write awrite_cmd_def Let_def small_update [OF assms(1)])
  qed (use assms(1) in \<open>auto simp: Write awrite_cmd_def Let_def\<close>)
qed (use assms in simp)

text \<open>A command that does not write leaves the contents of the files alone.\<close>

lemma aexec_data:
  assumes "\<not> is_write c" and "k < length fs"
  shows "k < length (snd (aexec c fs)) \<and> adata (snd (aexec c fs) ! k) = adata (fs ! k)"
proof -
  have u: "adata (fs[j := g] ! k) = adata (fs ! k)" if "adata g = adata (fs ! j)" for j g
    using that assms(2) by (cases "j = k") simp_all
  show ?thesis
    using assms
    by (cases c) (auto simp: aopen_cmd_def aclose_cmd_def aread_cmd_def Let_def u nth_append)
qed

subsection \<open>Blocks of small files\<close>

definition accounted :: "sfs \<Rightarrow> bool" where
  "accounted s \<longleftrightarrow> {35..<1024} \<subseteq> free_set (free_bit_map s) \<union> (\<Union>k<100. own (content s) (inode_table s ! k))"

definition space_ok :: "sfs \<Rightarrow> bool" where
  "space_ok s \<longleftrightarrow> sys_inv s \<and> accounted s \<and> (\<forall>f\<in>set (abs_fs s). small_file f)"

lemma nblocks_12 [simp]: "x \<le> 12288 \<Longrightarrow> nblocks x \<le> 12"
  using nblocks_mono [of x 12288] by (simp add: nblocks_def)

lemma own_direct:
  assumes "indirectPointer n = 0" and "isize n \<le> 12288"
  shows "own c n = (\<lambda>j. data_ptrs n ! j) ` {..<nblocks (isize n)}"
proof -
  have "block_of c n j = data_ptrs n ! j" if "j < nblocks (isize n)" for j
    using that nblocks_12 [OF assms(2)] by (simp add: block_of_def)
  then have "block_of c n ` {..<nblocks (isize n)} = (\<lambda>j. data_ptrs n ! j) ` {..<nblocks (isize n)}"
    by (intro image_cong) auto
  then show ?thesis using assms(1) by (simp add: own_def)
qed

lemma small_inode:
  assumes "space_ok s" and "k < 100"
  shows "isize (inode_table s ! k) \<le> 12288" and "indirectPointer (inode_table s ! k) = 0"
    and "rwptr (fd_table s ! k) \<le> isize (inode_table s ! k)"
    and "own c (inode_table s ! k) = (\<lambda>j. data_ptrs (inode_table s ! k) ! j) ` {..<nblocks (isize (inode_table s ! k))}"
proof -
  have inv: "sys_inv s" and small: "\<forall>f\<in>set (abs_fs s). small_file f" using assms(1) by (simp_all add: space_ok_def)
  show sz: "isize (inode_table s ! k) \<le> 12288" and pos: "rwptr (fd_table s ! k) \<le> isize (inode_table s ! k)"
  proof (atomize (full), cases "k < length (dir_names s)")
    case True
    then have "small_file (abs_file s k)" using small by (auto simp: abs_fs_def)
    then show "isize (inode_table s ! k) \<le> 12288 \<and> rwptr (fd_table s ! k) \<le> isize (inode_table s ! k)"
      by (simp add: small_file_def abs_file_def)
  next
    case False
    then show "isize (inode_table s ! k) \<le> 12288 \<and> rwptr (fd_table s ! k) \<le> isize (inode_table s ! k)"
      using sys_invD(5) [OF inv assms(2)] by simp
  qed
  have "blocks_ok (content s) (inode_table s ! k)" using fs_invD(6) [OF sys_invD(1) [OF inv] assms(2)] .
  then show ip: "indirectPointer (inode_table s ! k) = 0" using blocks_okD(6) sz by simp
  show "own c (inode_table s ! k) = (\<lambda>j. data_ptrs (inode_table s ! k) ! j) ` {..<nblocks (isize (inode_table s ! k))}"
    by (rule own_direct [OF ip sz])
qed

lemma own_closed: "space_ok s \<Longrightarrow> k < 100 \<Longrightarrow> length (dir_names s) \<le> k \<Longrightarrow> own c (inode_table s ! k) = {}"
  using small_inode(4) [of s k c] sys_invD(5) [of s k] by (simp add: space_ok_def nblocks_def)

lemma blocks_used_abs: "blocks_used (abs_fs s) = (\<Sum>k<length (dir_names s). nblocks (isize (inode_table s ! k)))"
proof -
  have "map (\<lambda>f. nblocks (length (adata f))) (abs_fs s) = map (\<lambda>k. nblocks (isize (inode_table s ! k))) [0..<length (dir_names s)]"
    by (simp add: abs_fs_def abs_file_def)
  then show ?thesis by (simp only: blocks_used_def interv_sum_list_conv_sum_set_nat) (simp add: atLeast0LessThan)
qed

text \<open>The blocks that no file uses are free.\<close>

lemma free_count:
  assumes "space_ok s"
  shows "989 \<le> card (free_blocks s) + blocks_used (abs_fs s)"
proof -
  let ?own = "\<lambda>k. own (content s) (inode_table s ! k)" and ?I = "{..<length (dir_names s)}"
  have len: "length (dir_names s) \<le> 100" using assms length_dir_names sys_invD(2) by (simp add: space_ok_def)
  have fin: "finite (?own k)" if "k < 100" for k using small_inode(4) [OF assms that] by simp
  have "?own k \<subseteq> (\<Union>k\<in>?I. ?own k)" if "k < 100" for k
    using own_closed [OF assms that, of "content s"] by (cases "k < length (dir_names s)") auto
  then have "(\<Union>k<100. ?own k) \<subseteq> (\<Union>k\<in>?I. ?own k)" by blast
  moreover have "{35..<1024} \<subseteq> free_set (free_bit_map s) \<union> (\<Union>k<100. ?own k)" using assms by (simp add: space_ok_def accounted_def)
  ultimately have "{35..<1024} \<subseteq> free_set (free_bit_map s) \<union> (\<Union>k\<in>?I. ?own k)" by (meson Un_mono order_refl order_trans)
  then have "{35..<1024} \<subseteq> free_blocks s \<union> (\<Union>k\<in>?I. ?own k)" by (auto simp: free_blocks_def)
  then have "card {35..<1024::nat} \<le> card (free_blocks s \<union> (\<Union>k\<in>?I. ?own k))"
    using fin len by (intro card_mono finite_UnI finite_UN_I) (auto simp: free_blocks_def)
  also have "\<dots> \<le> card (free_blocks s) + card (\<Union>k\<in>?I. ?own k)" by (rule card_Un_le)
  also have "card (\<Union>k\<in>?I. ?own k) \<le> (\<Sum>k\<in>?I. card (?own k))" by (rule card_UN_le) simp
  also have "\<dots> \<le> (\<Sum>k\<in>?I. nblocks (isize (inode_table s ! k)))"
  proof (rule sum_mono)
    fix k assume "k \<in> ?I"
    then have "k < 100" using len by simp
    then show "card (?own k) \<le> nblocks (isize (inode_table s ! k))"
      using small_inode(4) [OF assms] card_image_le [of "{..<nblocks (isize (inode_table s ! k))}"] by simp
  qed
  finally show ?thesis by (simp add: blocks_used_abs)
qed

lemma blocks_used_update:
  assumes "k < length fs"
  shows "blocks_used (fs[k := g]) + nblocks (length (adata (fs ! k))) = blocks_used fs + nblocks (length (adata g))"
proof -
  let ?f = "\<lambda>f. nblocks (length (adata f))"
  have k: "?f (fs ! k) \<le> sum_list (map ?f fs)" using assms elem_le_sum_list [of k "map ?f fs"] by simp
  have "sum_list (map ?f (fs[k := g])) = sum_list (map ?f fs) + ?f g - ?f (fs ! k)"
    using assms by (simp add: map_update sum_list_update)
  then show ?thesis using k by (simp add: blocks_used_def)
qed

text \<open>There is room for what the client writes.\<close>

lemma client_writable:
  assumes "space_ok s" and "client_ok (Write k bs) (abs_fs s)" and "mode (inode_table s ! k) \<noteq> 1"
    and "rwptr (fd_table s ! k) + length bs \<le> MAX_FILE_SIZE"
  shows "writable s k (length bs)"
proof -
  let ?n = "inode_table s ! k" and ?e = "rwptr (fd_table s ! k) + length bs"
  have inv: "sys_inv s" using assms(1) by (simp add: space_ok_def)
  have k: "k < 100" using assms(2) by simp
  note small = small_inode [OF assms(1) k]
  have kn: "k < length (abs_fs s)" using open_index [OF inv k assms(3)] by simp
  have opn: "is_open (abs_fs s) k" using is_open_abs [OF inv k] assms(3) by simp
  have f: "abs_fs s ! k = abs_file s k" using kn by simp
  let ?g = "(abs_file s k)\<lparr>adata := overwrite (file_data s k) (rwptr (fd_table s ! k)) bs, apos := ?e\<rparr>"
  have pos: "apos (abs_fs s ! k) = rwptr (fd_table s ! k)" by (simp add: f abs_file_def)
  have "awrite_cmd k bs (abs_fs s) = (int (length bs), (abs_fs s)[k := ?g])"
    using opn assms(4) by (simp add: awrite_cmd_def Let_def f) (simp add: abs_file_def)
  then have c: "0 < length bs" "?e \<le> 12288" "blocks_used ((abs_fs s)[k := ?g]) \<le> 989"
    using assms(2,4) opn pos by simp_all
  have "length (adata ?g) = max (isize ?n) ?e" using small(3) by (simp add: overwrite_def)
  then have "blocks_used (abs_fs s) + nblocks (max (isize ?n) ?e) \<le> 989 + nblocks (isize ?n)"
    using blocks_used_update [OF kn, of ?g] c(3) by (simp add: f) (simp add: abs_file_def)
  then have "nblocks (max (isize ?n) ?e) \<le> card (free_blocks s) + nblocks (isize ?n)" using free_count [OF assms(1)] by simp
  moreover have "nblocks ?e \<le> nblocks (max (isize ?n) ?e)" by (intro nblocks_mono) simp
  moreover have "\<not> 12 < nblocks ?e" using nblocks_12 [OF c(2)] by simp
  ultimately have "blocks_needed ?n ?e \<le> card (free_blocks s)" by (simp add: blocks_needed_def)
  then show ?thesis
    using k assms(3) c small(2,3) by (auto simp: writable_def Let_def known_def)
qed

lemma client_admissible: "space_ok s \<Longrightarrow> client_ok c (abs_fs s) \<Longrightarrow> admissible c s"
proof (cases c)
  case (Write k bs)
  assume s: "space_ok s" and ok: "client_ok c (abs_fs s)"
  then show ?thesis using client_writable [of s k bs] unfolding Write by simp
next
  case (Seek k p)
  assume s: "space_ok s" and ok: "client_ok c (abs_fs s)"
  then have p: "k < length (abs_fs s)" "p \<le> length (adata (abs_fs s ! k))" unfolding Seek client_ok.simps by blast+
  have "small_file (abs_fs s ! k)" using s p(1) nth_mem unfolding space_ok_def by blast
  then have "p \<le> 12288" using p(2) unfolding small_file_def by (meson order_trans)
  then show ?thesis using p(1) by (simp add: Seek)
qed simp_all

subsection \<open>No block is lost\<close>

lemma accounted_mono:
  assumes "accounted s" and "free_set (free_bit_map s) \<subseteq> free_set (free_bit_map s') \<union> (\<Union>k<100. own (content s') (inode_table s' ! k))"
    and "\<And>k. k < 100 \<Longrightarrow> own (content s) (inode_table s ! k) \<subseteq> own (content s') (inode_table s' ! k)"
  shows "accounted s'"
proof -
  have "(\<Union>k<100. own (content s) (inode_table s ! k)) \<subseteq> (\<Union>k<100. own (content s') (inode_table s' ! k))"
    using assms(3) by (intro UN_mono) auto
  then show ?thesis using assms(1,2) unfolding accounted_def by (meson Un_least order_trans sup_ge2)
qed

lemma same_blocksD:
  assumes "same_blocks s s'" and "length (inode_table s) = 100" and "k < 100"
  shows "data_ptrs (inode_table s' ! k) = data_ptrs (inode_table s ! k)"
    and "indirectPointer (inode_table s' ! k) = indirectPointer (inode_table s ! k)"
proof -
  have m: "map data_ptrs (inode_table s') = map data_ptrs (inode_table s)"
    "map indirectPointer (inode_table s') = map indirectPointer (inode_table s)"
    using assms(1) by (simp_all add: same_blocks_def)
  have "length (inode_table s') = 100" using map_eq_imp_length_eq [OF m(1)] assms(2) by simp
  then show "data_ptrs (inode_table s' ! k) = data_ptrs (inode_table s ! k)"
    "indirectPointer (inode_table s' ! k) = indirectPointer (inode_table s ! k)"
    using arg_cong [OF m(1), of "\<lambda>l. l ! k"] arg_cong [OF m(2), of "\<lambda>l. l ! k"] assms(2,3) by simp_all
qed

lemma other_accounted:
  assumes "space_ok s" and "sys_inv s'" and "same_blocks s s'"
    and "\<And>k. k < length (dir_names s) \<Longrightarrow> isize (inode_table s' ! k) = isize (inode_table s ! k)"
  shows "accounted s'"
proof (rule accounted_mono)
  have inv: "sys_inv s" using assms(1) by (simp add: space_ok_def)
  show "accounted s" using assms(1) by (simp add: space_ok_def)
  show "free_set (free_bit_map s) \<subseteq> free_set (free_bit_map s') \<union> (\<Union>k<100. own (content s') (inode_table s' ! k))"
    using assms(3) by (simp add: same_blocks_def)
  fix k :: nat assume k: "k < 100"
  show "own (content s) (inode_table s ! k) \<subseteq> own (content s') (inode_table s' ! k)"
  proof (cases "k < length (dir_names s)")
    case True
    then have sz: "isize (inode_table s' ! k) = isize (inode_table s ! k)" by (rule assms(4))
    note p = same_blocksD [OF assms(3) fs_invD(3) [OF sys_invD(1) [OF inv]] k]
    have "own (content s') (inode_table s' ! k) = (\<lambda>j. data_ptrs (inode_table s' ! k) ! j) ` {..<nblocks (isize (inode_table s' ! k))}"
      using small_inode(1,2) [OF assms(1) k] p(2) sz by (intro own_direct) simp_all
    then show ?thesis using small_inode(4) [OF assms(1) k] p(1) sz by simp
  next
    case False
    then show ?thesis using own_closed [OF assms(1) k] by simp
  qed
qed

lemma write_accounted:
  assumes "space_ok s" and ok: "client_ok (Write k bs) (abs_fs s)" and run: "exec (Write k bs) s = Inr (out, s')"
  shows "accounted s'"
proof -
  have inv: "sys_inv s" and acc: "accounted s" using assms(1) by (simp_all add: space_ok_def)
  note i = sys_invD [OF inv]
  let ?q = "rwptr (fd_table s ! k)" and ?len = "length bs"
  have k: "k < 100" "?len < 2147483648" using ok by simp_all
  consider "mode (inode_table s ! k) = 1" | "mode (inode_table s ! k) \<noteq> 1" "274432 < ?q + ?len"
    | "mode (inode_table s ! k) \<noteq> 1" "?q + ?len \<le> 274432" by linarith
  then show ?thesis
  proof cases
    case 1
    then show ?thesis using fwrite_closed [OF i(3) k(1)] run acc by simp
  next
    case 2
    then show ?thesis using fwrite_too_big [OF i(3) k(1)] i(4) [OF k(1)] k(2) run acc by simp
  next
    case 3
    let ?own = "own (content s') (inode_table s' ! k)"
    have fits: "?q + ?len \<le> MAX_FILE_SIZE" using 3(2) by (simp add: MAX_FILE_SIZE_def)
    have s': "\<And>j. j \<noteq> k \<Longrightarrow> inode_table s' ! j = inode_table s ! j"
      "free_set (free_bit_map s') = free_set (free_bit_map s) - ?own" "own (content s) (inode_table s ! k) \<subseteq> ?own"
      using sfs_fwrite_core [OF i(1,3) client_writable [OF assms(1) ok 3(1) fits] order_refl] run small_inode(2) [OF assms(1) k(1)]
      by auto
    show ?thesis
    proof (rule accounted_mono [OF acc])
      have "?own \<subseteq> (\<Union>j<100. own (content s') (inode_table s' ! j))" using k(1) by blast
      then show "free_set (free_bit_map s) \<subseteq> free_set (free_bit_map s') \<union> (\<Union>j<100. own (content s') (inode_table s' ! j))"
        using s'(2) by blast
      fix j :: nat assume j: "j < 100"
      show "own (content s) (inode_table s ! j) \<subseteq> own (content s') (inode_table s' ! j)"
      proof (cases "j = k")
        case False
        then show ?thesis using s'(1) small_inode(4) [OF assms(1) j] by simp
      qed (simp add: s'(3))
    qed
  qed
qed

text \<open>A command that does not write, however the program carries it out.\<close>

lemma space_same:
  assumes "space_ok s" and "client_ok c (abs_fs s)" and "\<not> is_write c" and "sys_inv s'" and "same_blocks s s'"
    and "abs_fs s' = snd (aexec c (abs_fs s))"
  shows "space_ok s'"
proof -
  have small: "\<forall>f\<in>set (abs_fs s). small_file f" using assms(1) by (simp add: space_ok_def)
  have "accounted s'"
  proof (rule other_accounted [OF assms(1,4,5)])
    fix k assume "k < length (dir_names s)"
    then have k: "k < length (abs_fs s)" by simp
    have a: "k < length (abs_fs s')" "adata (abs_fs s' ! k) = adata (abs_fs s ! k)"
      using aexec_data [OF assms(3) k] unfolding assms(6) by blast+
    show "isize (inode_table s' ! k) = isize (inode_table s ! k)"
      using abs_fsD(1) [OF refl a(1)] abs_fsD(1) [OF refl k] by (simp only: a(2))
  qed
  moreover have "\<forall>f\<in>set (abs_fs s'). small_file f" using small_step [OF small assms(2)] by (simp only: assms(6))
  ultimately show ?thesis using assms(4) by (simp add: space_ok_def)
qed

lemma space_step:
  assumes "space_ok s" and "client_ok c (abs_fs s)"
  shows "\<exists>out s'. exec c s = Inr (out, s') \<and> aexec c (abs_fs s) = (out, abs_fs s') \<and> space_ok s'"
proof -
  have inv: "sys_inv s" and small: "\<forall>f\<in>set (abs_fs s). small_file f" using assms(1) by (simp_all add: space_ok_def)
  obtain out s' where s': "exec c s = Inr (out, s')" "sys_inv s'" "aexec c (abs_fs s) = (out, abs_fs s')"
    "\<not> is_write c \<Longrightarrow> same_blocks s s'"
    using simulates_admissible [OF inv client_admissible [OF assms]] by (auto simp: simulates_def)
  have "space_ok s'"
  proof (cases "is_write c")
    case True
    then obtain k bs where "c = Write k bs" by (cases c) simp_all
    then have "accounted s'" using write_accounted [OF assms(1)] assms(2) s'(1) by blast
    moreover have "\<forall>f\<in>set (abs_fs s'). small_file f" using small_step [OF small assms(2)] s'(3) by simp
    ultimately show ?thesis using s'(2) by (simp add: space_ok_def)
  next
    case False
    then show ?thesis using space_same [OF assms False s'(2) s'(4)] s'(3) by simp
  qed
  then show ?thesis using s' by blast
qed

lemma client_admissible_all: "space_ok s \<Longrightarrow> client_all cs (abs_fs s) \<Longrightarrow> admissible_all cs s"
proof (induction cs arbitrary: s)
  case (Cons c cs)
  have ok: "client_ok c (abs_fs s)" using Cons.prems(2) by simp
  obtain out s' where s': "exec c s = Inr (out, s')" "aexec c (abs_fs s) = (out, abs_fs s')" "space_ok s'"
    using space_step [OF Cons.prems(1) ok] by blast
  have "admissible_all cs s'" using Cons.IH [OF s'(3)] Cons.prems(2) s'(2) by simp
  then show ?case using client_admissible [OF Cons.prems(1) ok] s'(1) by simp
qed simp

lemma free_set_start: "{..<1024} \<subseteq> free_set (free_bit_map (boot u a v ex c n cr))"
proof
  fix x :: nat assume x: "x \<in> {..<1024}"
  then have "x \<in> free_set (replicate 128 255 @ [0])" by (simp add: free_set_boot)
  moreover have "x div 8 < 128" using x by (simp add: div_less_iff_less_mult)
  ultimately show "x \<in> free_set (free_bit_map (boot u a v ex c n cr))" by (simp add: free_set_def boot_def nth_append)
qed

text \<open>The freshly formatted disk of a starting program has 989 free blocks and nothing else.\<close>

lemma formatted_space:
  assumes "v \<noteq> Some 0"
  shows "\<exists>s. mksfs 1 (boot u a v ex c n True) = Inr s \<and> space_ok s \<and> abs_fs s = []"
proof -
  let ?b = "boot u a v ex c n True"
  have b: "globals_ok ?b" "can_create ?b" "sem ?b \<noteq> Some 0" using assms by (simp_all add: boot_globals) (simp_all add: boot_def)
  obtain s where s: "mksfs 1 ?b = Inr s" "sys_inv s" "abs_fs s = []"
    "free_set (free_bit_map s) = free_set (free_bit_map ?b) - {..<35}"
    using mksfs_sys_inv [OF b] by blast
  have "{35..<1024} \<subseteq> free_set (free_bit_map s)" using s(4) free_set_start [of u a v ex c n True] by auto
  then show ?thesis using s(1-3) by (auto simp: space_ok_def accounted_def)
qed

subsection \<open>Property\<close>

text \<open>C1: Whatever the calls of a client are, as long as it keeps its files within twelve blocks each and
  989 blocks together, seeks only within files that exist, transfers at least one byte at a time and uses
  descriptors below 100 and names without NUL: on the freshly formatted disk of a starting program every call returns what the abstract file system returns, to the end of the
  sequence. The condition is one on the calls and the abstract file system alone.\<close>

theorem small_files_refine:
  assumes "v \<noteq> Some 0" and "client_all cs []"
  shows "\<exists>s outs s'. mksfs 1 (boot u a v ex c n True) = Inr s \<and> exec_all cs s = Inr (outs, s') \<and>
    aexec_all cs [] = (outs, abs_fs s') \<and> sys_inv s'"
proof -
  obtain s where s: "mksfs 1 (boot u a v ex c n True) = Inr s" "space_ok s" "abs_fs s = []"
    using formatted_space [OF assms(1)] by blast
  then have "admissible_all cs s" "sys_inv s" using client_admissible_all assms(2) by (simp_all add: space_ok_def)
  then show ?thesis using exec_all_refines s(1,3) by fastforce
qed

theorem small_files_refine_witness:
  "\<exists>s outs s'. mksfs 1 (boot (sconst 1) 0 None True (\<lambda>_. 3) 7 True) = Inr s \<and> exec_all demo_cmds s = Inr (outs, s') \<and>
    aexec_all demo_cmds [] = (outs, abs_fs s') \<and> sys_inv s'"
proof -
  have "client_all demo_cmds []"
    by (simp add: demo_cmds_def demo_name aopen_cmd_def names_def is_open_def awrite_cmd_def MAX_FILE_SIZE_def
        blocks_used_def nblocks_def overwrite_def aread_cmd_def aclose_cmd_def Let_def)
  then show ?thesis using small_files_refine by blast
qed

end
