(* ===== verification/Sfs_Typed.thy ===== *)
theory Sfs_Typed
  imports Sfs_Spec
begin

text \<open>
  The C types of the file system's state: the structures, arrays and integers of
  \<^verbatim>\<open>sfs_api.h\<close> and \<^verbatim>\<open>sfs_api.c\<close> are modelled with \<open>nat\<close>, \<open>int\<close> and lists, and \<open>typed\<close> says
  that every one of them holds a value of its C type. The lemmas show, function by function, that the
  program keeps a typed state typed, whatever the arguments and however damaged the disk is, and that it
  only takes indeterminate bytes from the front of their supply. Together they say that no conversion
  that C makes is missing in the model.
\<close>

subsection \<open>Typed states\<close>

definition int32 :: "int \<Rightarrow> bool" where
  "int32 x \<longleftrightarrow> - 2147483648 \<le> x \<and> x < 2147483648"

definition fd_fits :: "file_descriptor \<Rightarrow> bool" where
  "fd_fits f \<longleftrightarrow> inodeIndex f < 2 ^ 64 \<and> rwptr f < 2 ^ 64"

definition typed :: "sfs \<Rightarrow> bool" where
  "typed s \<longleftrightarrow> globals_ok s \<and> (\<forall>n\<in>set (inode_table s). inode_fits n) \<and> (\<forall>f\<in>set (fd_table s). fd_fits f) \<and>
     int32 (rootDir_ptr s) \<and> int32 (sfs_mkerror s) \<and> int32 (BLOCK_SIZE s) \<and> int32 (MAX_BLOCK s) \<and>
     int32 (MAX_RETRY s)"

text \<open>
  \<open>advances s s'\<close>: if \<open>s\<close> is typed then so is \<open>s'\<close>, and what is left of the indeterminate bytes is a
  tail of what there was. \<open>evolves\<close> says in addition that the directory index has not moved; every
  function but \<open>sfs_getnextfilename\<close> does that.
\<close>

definition advances :: "sfs \<Rightarrow> sfs \<Rightarrow> bool" where
  "advances s s' \<longleftrightarrow> (typed s \<longrightarrow> typed s' \<and> (\<exists>n. unk s' = sdrop n (unk s)))"

definition evolves :: "sfs \<Rightarrow> sfs \<Rightarrow> bool" where
  "evolves s s' \<longleftrightarrow> (typed s \<longrightarrow> typed s' \<and> (\<exists>n. unk s' = sdrop n (unk s)) \<and> rootDir_ptr s' = rootDir_ptr s)"

lemma evolves_advances: "evolves s s' \<Longrightarrow> advances s s'"
  by (simp add: evolves_def advances_def)

lemma advances_trans: "advances s t \<Longrightarrow> advances t u \<Longrightarrow> advances s u"
  unfolding advances_def by (metis sdrop_add)

lemma evolvesI:
  "(typed s \<Longrightarrow> typed s') \<Longrightarrow> unk s' = unk s \<Longrightarrow> rootDir_ptr s' = rootDir_ptr s \<Longrightarrow> evolves s s'"
  unfolding evolves_def by (metis sdrop.simps(1))

lemma evolves_refl [simp]: "evolves s s"
  by (intro evolvesI) simp_all

lemma evolves_trans: "evolves s t \<Longrightarrow> evolves t u \<Longrightarrow> evolves s u"
  unfolding evolves_def by (metis sdrop_add)

lemma evolves_typed: "(typed s \<Longrightarrow> evolves s s') \<Longrightarrow> evolves s s'"
  by (simp add: evolves_def)

lemma advancesD: "advances s s' \<Longrightarrow> typed s \<Longrightarrow> typed s'"
  by (simp add: advances_def)

lemma advances_sset: "advances s s' \<Longrightarrow> typed s \<Longrightarrow> sset (unk s') \<subseteq> sset (unk s)"
proof -
  assume "advances s s'" "typed s"
  then obtain n where "unk s' = sdrop n (unk s)" by (auto simp: advances_def)
  moreover have "sset (unk s) = set (stake n (unk s)) \<union> sset (sdrop n (unk s))"
    by (metis sset_shift stake_sdrop)
  ultimately show ?thesis by simp
qed

lemma typed_fields [simp]:
  "typed (s\<lparr>unk := u\<rparr>) = typed s" "typed (s\<lparr>content := c\<rparr>) = typed s" "typed (s\<lparr>fpos := p\<rparr>) = typed s"
  "typed (s\<lparr>flen := l\<rparr>) = typed s" "typed (s\<lparr>fp := q\<rparr>) = typed s" "typed (s\<lparr>sem := v\<rparr>) = typed s"
  "typed (s\<lparr>disk_access := a\<rparr>) = typed s" "typed (s\<lparr>file_exists := e\<rparr>) = typed s"
  "typed (s\<lparr>disk_L := dl\<rparr>) = typed s" "typed (s\<lparr>disk_p := dp\<rparr>) = typed s"
  by (simp_all add: typed_def globals_ok_def)

lemma evolves_fields [simp]:
  "evolves s (s'\<lparr>content := c\<rparr>) = evolves s s'" "evolves s (s'\<lparr>fpos := p\<rparr>) = evolves s s'"
  "evolves s (s'\<lparr>flen := l\<rparr>) = evolves s s'" "evolves s (s'\<lparr>fp := q\<rparr>) = evolves s s'"
  "evolves s (s'\<lparr>sem := v\<rparr>) = evolves s s'" "evolves s (s'\<lparr>disk_access := a\<rparr>) = evolves s s'"
  "evolves s (s'\<lparr>file_exists := e\<rparr>) = evolves s s'"
  by (simp_all add: evolves_def)

lemma s32_int32 [simp]: "int32 (s32 x)"
  using s32_bounds [of x] by (simp add: int32_def)

lemma int32_small [simp]: "int32 (-1)" "int32 0" "int32 1"
  by (simp_all add: int32_def)

lemma u64_fits [simp]: "u64 x < 18446744073709551616"
  by (rule u64_bound)

lemma u32_fits [simp]: "u32 x < 4294967296"
  by (rule u32_bound)

subsection \<open>Bytes and the disk\<close>

lemma indet_evolves: "indet n s = (x, s') \<Longrightarrow> evolves s s'"
  by (auto simp: indet_def evolves_def)

lemma load_mem_evolves: "load_mem n src s = (x, s') \<Longrightarrow> evolves s s'"
  using snd_load_mem [of n src s] by (auto simp: evolves_def)

lemma indet_int_evolves: "indet_int s = (r, s') \<Longrightarrow> evolves s s' \<and> int32 r"
  by (auto simp: indet_int_def split: prod.splits dest: indet_evolves)

lemma fseek_evolves: "fseek off s = Inr s' \<Longrightarrow> evolves s s'"
  by (auto simp: fseek_def evolves_refl split: file_ptr.splits if_splits)

lemma read_loop_evolves: "read_loop i k blk dst off s = Inr (dst', s') \<Longrightarrow> evolves s s'"
proof (induction k arbitrary: i blk dst s)
  case 0
  then show ?case by (simp add: evolves_refl)
next
  case (Suc k)
  obtain b s1 where item: "fread_item blk s = (b, s1)" by fastforce
  then have "evolves s s1" by (auto simp: fread_item_def Let_def evolves_refl)
  moreover have "evolves s1 s'" using Suc item by (auto simp: rbind_Inr_iff)
  ultimately show ?case by (rule evolves_trans)
qed

lemma read_blocks_evolves: "read_blocks start n dst off s = Inr (r, dst', s') \<Longrightarrow> evolves s s'"
  by (auto simp: read_blocks_def rbind_Inr_iff split: prod.splits if_splits
      dest!: indet_evolves fseek_evolves read_loop_evolves intro: evolves_trans)

lemma write_loop_evolves: "evolves s (write_loop i k src s)"
proof (induction k arbitrary: i s)
  case 0
  then show ?case by (simp add: evolves_refl)
next
  case (Suc k)
  obtain b s1 where load: "load_mem (nat (BLOCK_SIZE s)) (drop (i * nat (BLOCK_SIZE s)) src) s = (b, s1)" by fastforce
  have "evolves s1 (fwrite_item b s1)" by (simp add: fwrite_item_def Let_def evolves_refl)
  then show ?case using load load_mem_evolves [OF load] Suc [of "fwrite_item b s1"] by (auto intro: evolves_trans)
qed

lemma write_blocks_evolves: "write_blocks start n src s = Inr (r, s') \<Longrightarrow> evolves s s'"
  by (auto simp: write_blocks_def rbind_Inr_iff evolves_refl split: if_splits
      dest!: fseek_evolves intro: evolves_trans write_loop_evolves)

lemma sem_wait_evolves: "sem_wait s = Inr s' \<Longrightarrow> evolves s s'"
  by (auto simp: sem_wait_def rbind_Inr_iff evolves_refl split: if_splits)

lemma sem_post_evolves: "sem_post s = Inr s' \<Longrightarrow> evolves s s'"
  by (auto simp: sem_post_def rbind_Inr_iff evolves_refl split: if_splits)

lemma post_return_evolves: "post_return r s = Inr (r', s') \<Longrightarrow> evolves s s' \<and> r' = r"
  by (auto simp: post_return_def rbind_Inr_iff dest: sem_post_evolves)

lemmas io_evolves = indet_evolves load_mem_evolves fseek_evolves read_blocks_evolves write_blocks_evolves
  sem_wait_evolves sem_post_evolves

text \<open>The same for a step whose result is not named.\<close>

lemma indet_first: "evolves (snd (indet n s)) s' \<Longrightarrow> evolves s s'"
  using indet_evolves [of n s] by (cases "indet n s") (auto intro: evolves_trans)

lemma indet_last [simp]: "evolves s (snd (indet n s))"
  using indet_evolves [of n s] by (cases "indet n s") auto

lemma load_mem_first: "evolves (snd (load_mem n x s)) s' \<Longrightarrow> evolves s s'"
  using load_mem_evolves [of n x s] by (cases "load_mem n x s") (auto intro: evolves_trans)

lemma load_mem_last: "evolves s t \<Longrightarrow> evolves s (snd (load_mem n x t))"
  using load_mem_evolves [of n x t] by (cases "load_mem n x t") (auto intro: evolves_trans)

subsection \<open>The tables\<close>

lemma set_upd: "\<forall>x\<in>set xs. P x \<Longrightarrow> (k < length xs \<Longrightarrow> P (xs ! k) \<Longrightarrow> P y) \<Longrightarrow> \<forall>x\<in>set (xs[k := y]). P x"
  by (cases "k < length xs") (auto simp: list_update_beyond dest!: set_update_subset_insert [THEN subsetD])

lemma upd_inode_evolves:
  assumes "\<And>n. typed s \<Longrightarrow> inode_fits n \<Longrightarrow> inode_fits (f n)"
  shows "evolves s (upd_inode k f s)"
proof -
  have "typed (upd_inode k f s)" if "typed s"
  proof -
    have "\<forall>n\<in>set ((inode_table s)[k := f (inode_table s ! k)]). inode_fits n"
      using that assms by (intro set_upd) (auto simp: typed_def)
    then show ?thesis using that by (simp add: typed_def globals_ok_def upd_inode_def)
  qed
  then show ?thesis by (intro evolvesI) simp_all
qed

lemma upd_fd_evolves:
  assumes "\<And>d. typed s \<Longrightarrow> fd_fits d \<Longrightarrow> fd_fits (f d)"
  shows "evolves s (upd_fd k f s)"
proof -
  have "typed (upd_fd k f s)" if "typed s"
  proof -
    have "\<forall>n\<in>set ((fd_table s)[k := f (fd_table s ! k)]). fd_fits n"
      using that assms by (intro set_upd) (auto simp: typed_def)
    then show ?thesis using that by (simp add: typed_def globals_ok_def upd_fd_def)
  qed
  then show ?thesis by (intro evolvesI) simp_all
qed

lemma upd_dir_evolves:
  assumes "\<And>d. typed s \<Longrightarrow> dirent_fits d \<Longrightarrow> dirent_fits (f d)"
  shows "evolves s (upd_dir k f s)"
proof -
  have "typed (upd_dir k f s)" if "typed s"
  proof -
    have "\<forall>n\<in>set ((rootDir s)[k := f (rootDir s ! k)]). dirent_fits n"
      using that assms by (intro set_upd) (auto simp: typed_def globals_ok_def)
    then show ?thesis using that by (simp add: typed_def globals_ok_def upd_dir_def)
  qed
  then show ?thesis by (intro evolvesI) simp_all
qed

lemma typed_inode: "typed s \<Longrightarrow> k < 100 \<Longrightarrow> inode_fits (inode_table s ! k)"
  by (simp add: typed_def globals_ok_def)

lemma table_indexD: "table_index i = Inr k \<Longrightarrow> int32 i \<and> k < 100"
  by (auto simp: table_index_def int32_def split: if_splits)

subsection \<open>The directory operations\<close>

lemma sem_wait_fields: "sem_wait s = Inr s' \<Longrightarrow> inode_table s' = inode_table s \<and> rootDir s' = rootDir s \<and> rootDir_ptr s' = rootDir_ptr s"
  by (auto simp: sem_wait_def rbind_Inr_iff split: if_splits)

lemma open_found_evolves:
  assumes "k < 100"
  shows "evolves s (upd_inode k (\<lambda>n. n\<lparr>mode := 0\<rparr>) (upd_fd k (\<lambda>f. f\<lparr>rwptr := isize (inode_table s ! k)\<rparr>) s))"
proof -
  have "evolves s (upd_fd k (\<lambda>f. f\<lparr>rwptr := isize (inode_table s ! k)\<rparr>) s)"
    using typed_inode [OF _ assms] by (intro upd_fd_evolves) (force simp: fd_fits_def inode_fits_def)
  moreover have "evolves t (upd_inode k (\<lambda>n. n\<lparr>mode := 0\<rparr>) t)" for t
    by (rule upd_inode_evolves) (simp add: inode_fits_def)
  ultimately show ?thesis by (meson evolves_trans)
qed

lemma open_free_evolves:
  assumes "length mem = 21"
  shows "evolves s (upd_inode k (\<lambda>n. n\<lparr>isize := 0, mode := 0\<rparr>) (upd_dir j (\<lambda>d. d\<lparr>name := mem\<rparr>) s))"
proof -
  have "evolves s (upd_dir j (\<lambda>d. d\<lparr>name := mem\<rparr>) s)"
    using assms by (intro upd_dir_evolves) (simp add: dirent_fits_def)
  moreover have "evolves t (upd_inode k (\<lambda>n. n\<lparr>isize := 0, mode := 0\<rparr>) t)" for t
    by (rule upd_inode_evolves) (simp add: inode_fits_def)
  ultimately show ?thesis by (meson evolves_trans)
qed

lemma fopen_locked_evolves:
  assumes "fopen_locked nm mem s = Inr (r, s')" and "length mem = 21"
  shows "evolves s s' \<and> int32 r"
proof -
  obtain s1 found where s1: "sem_wait s = Inr s1" "find_entry nm (rootDir s1) 0 = Inr found"
    using assms(1) by (auto simp: fopen_locked_def rbind_Inr_iff)
  have e1: "evolves s s1" using s1(1) by (rule sem_wait_evolves)
  have "evolves s1 s' \<and> int32 r"
  proof (cases found)
    case (Some i)
    then obtain k where k: "table_index (num (rootDir s1 ! i)) = Inr k"
      "post_return (num (rootDir s1 ! i)) (upd_inode k (\<lambda>n. n\<lparr>mode := 0\<rparr>)
         (upd_fd k (\<lambda>f. f\<lparr>rwptr := isize (inode_table s1 ! k)\<rparr>) s1)) = Inr (r, s')"
      using assms(1) s1 by (auto simp: fopen_locked_def Let_def rbind_Inr_iff)
    show ?thesis
      using post_return_evolves [OF k(2)] table_indexD [OF k(1)] open_found_evolves [of k s1]
      by (auto intro: evolves_trans)
  next
    case None
    show ?thesis
    proof (cases "\<exists>j. find_entry [0] (rootDir s1) 0 = Inr (Some j)")
      case True
      then obtain j k where k: "table_index (num (rootDir (upd_dir j (\<lambda>d. d\<lparr>name := mem\<rparr>) s1) ! j)) = Inr k"
        "post_return (num (rootDir (upd_dir j (\<lambda>d. d\<lparr>name := mem\<rparr>) s1) ! j))
           (upd_inode k (\<lambda>n. n\<lparr>isize := 0, mode := 0\<rparr>) (upd_dir j (\<lambda>d. d\<lparr>name := mem\<rparr>) s1)) = Inr (r, s')"
        using assms(1) s1 None by (auto simp: fopen_locked_def Let_def rbind_Inr_iff)
      show ?thesis
        using post_return_evolves [OF k(2)] table_indexD [OF k(1)] open_free_evolves [OF assms(2), of s1 k j]
        by (auto intro: evolves_trans)
    next
      case False
      then have "post_return (-1) s1 = Inr (r, s')"
        using assms(1) s1 None by (auto simp: fopen_locked_def rbind_Inr_iff split: option.splits)
      from post_return_evolves [OF this] show ?thesis by (simp add: int32_def)
    qed
  qed
  then show ?thesis using e1 by (auto intro: evolves_trans)
qed

lemma sfs_fopen_evolves: "sfs_fopen nm s = Inr (r, s') \<Longrightarrow> evolves s s' \<and> int32 r"
proof -
  assume run: "sfs_fopen nm s = Inr (r, s')"
  obtain mem s0 where load: "load_mem 21 nm s = (mem, s0)" by fastforce
  have len: "length mem = 21" using length_load_mem [of 21 nm s] load by simp
  have m1: "int32 (-1)" by (simp add: int32_def)
  consider "r = -1" "s' = s" | "r = -1" "s' = s0" | "fopen_locked nm mem s0 = Inr (r, s')"
    using run by (auto simp: load sfs_fopen_def rbind_Inr_iff Let_def split: if_splits)
  then show ?thesis
    using load_mem_evolves [OF load] fopen_locked_evolves [OF _ len] m1
    by cases (auto simp: evolves_refl intro: evolves_trans)
qed

lemma set_mode_evolves: "m < 2 ^ 32 \<Longrightarrow> evolves s (upd_inode k (\<lambda>n. n\<lparr>mode := m\<rparr>) s)"
  by (rule upd_inode_evolves) (simp add: inode_fits_def)

lemma set_rwptr_evolves: "evolves s (upd_fd k (\<lambda>f. f\<lparr>rwptr := u64 x\<rparr>) s)"
  by (rule upd_fd_evolves) (simp add: fd_fits_def)

lemma set_mode_first: "evolves (upd_inode k (\<lambda>n. n\<lparr>mode := m\<rparr>) s) s' \<Longrightarrow> m < 2 ^ 32 \<Longrightarrow> evolves s s'"
  using set_mode_evolves by (blast intro: evolves_trans)

lemma set_rwptr_first: "evolves (upd_fd k (\<lambda>f. f\<lparr>rwptr := u64 x\<rparr>) s) s' \<Longrightarrow> evolves s s'"
  using set_rwptr_evolves by (blast intro: evolves_trans)

lemma sfs_fclose_evolves: "sfs_fclose fileID s = Inr (r, s') \<Longrightarrow> evolves s s' \<and> int32 r"
  by (auto simp: sfs_fclose_def rbind_Inr_iff split: if_splits
      dest!: sem_wait_evolves post_return_evolves set_mode_first intro: evolves_trans)

lemma sfs_fseek_evolves: "sfs_fseek fileID loc s = Inr (r, s') \<Longrightarrow> evolves s s' \<and> int32 r"
  by (auto simp: sfs_fseek_def rbind_Inr_iff
      dest!: sem_wait_evolves sem_post_evolves indet_int_evolves set_rwptr_first intro: evolves_trans)

lemma sfs_remove_evolves: "sfs_remove f s = Inr (r, s') \<Longrightarrow> evolves s s' \<and> int32 r"
  by (auto simp: sfs_remove_def dest: indet_int_evolves)

lemma sfs_getfilesize_evolves: "sfs_getfilesize path s = Inr (r, s') \<Longrightarrow> evolves s s' \<and> int32 r"
  by (auto simp: sfs_getfilesize_def rbind_Inr_iff int32_def [of "-1"] split: option.splits
      dest!: sem_wait_evolves sem_post_evolves post_return_evolves intro: evolves_trans)

lemma sfs_getnextfilename_advances:
  assumes "sfs_getnextfilename fname s = Inr (r, fname', s')"
  shows "advances s s' \<and> int32 r"
proof -
  have ptr: "advances t (t\<lparr>rootDir_ptr := p\<rparr>)" if "int32 p" for t p
  proof -
    have "typed t \<Longrightarrow> typed (t\<lparr>rootDir_ptr := p\<rparr>)" using that by (simp add: typed_def globals_ok_def)
    moreover have "unk (t\<lparr>rootDir_ptr := p\<rparr>) = sdrop 0 (unk t)" by simp
    ultimately show ?thesis unfolding advances_def by blast
  qed
  obtain s1 p where s1: "sem_wait s = Inr s1" "sem_post (s1\<lparr>rootDir_ptr := p\<rparr>) = Inr s'" "int32 p" "int32 r"
    using assms by (auto simp: sfs_getnextfilename_def rbind_Inr_iff Let_def split: if_splits dest!: table_indexD)
  have "advances s s1" "advances (s1\<lparr>rootDir_ptr := p\<rparr>) s'"
    using sem_wait_evolves [OF s1(1)] sem_post_evolves [OF s1(2)] by (simp_all add: evolves_advances)
  then show ?thesis using ptr [OF s1(3), of s1] s1(4) by (meson advances_trans)
qed

subsection \<open>Reading and writing\<close>

lemma read_partblock_evolves: "read_partblock b dst pos off n s = Inr (dst', s') \<Longrightarrow> evolves s s'"
  by (auto simp: read_partblock_def rbind_Inr_iff split: prod.splits if_splits
      dest!: io_evolves intro: evolves_trans)

lemma write_partblock_evolves: "write_partblock b buf off n s = Inr s' \<Longrightarrow> evolves s s'"
  by (auto simp: write_partblock_def rbind_Inr_iff split_beta
      dest!: io_evolves load_mem_first indet_first intro: evolves_trans)

lemma read_rest_evolves: "read_rest n w dst bn x s = Inr (dst', s') \<Longrightarrow> evolves s s'"
proof (induction n w dst bn x s rule: read_rest.induct)
  case (1 n w dst bn x s)
  show ?case
  proof (cases "w + 1024 < n")
    case True
    obtain b r d s1 where b: "int_at bn x = Inr b" "read_blocks b 1 dst w s = Inr (r, d, s1)"
      "read_rest n (w + 1024) d bn (x + 1) s1 = Inr (dst', s')"
      using "1.prems" True by (subst (asm) read_rest.simps) (auto simp: rbind_Inr_iff)
    from "1.IH" [OF True b(1,2) refl refl b(3)] read_blocks_evolves [OF b(2)]
    show ?thesis by (rule evolves_trans [rotated])
  next
    case False
    then show ?thesis
      using "1.prems" by (subst (asm) read_rest.simps)
        (auto simp: rbind_Inr_iff Let_def evolves_refl split: if_splits dest: read_partblock_evolves)
  qed
qed

lemma write_rest_evolves:
  "write_rest n w buf bn x s = Inr (r, s') \<Longrightarrow> evolves s s' \<and> (w \<le> n \<longrightarrow> r \<le> n)"
proof (induction n w buf bn x s rule: write_rest.induct)
  case (1 n w buf bn x s)
  show ?case
  proof (cases "w + 1024 < n")
    case True
    obtain b q s1 where b: "int_at bn x = Inr b" "write_blocks b 1 buf s = Inr (q, s1)"
      "write_rest n (w + 1024) (drop 1024 buf) bn (x + 1) s1 = Inr (r, s')"
      using "1.prems" True by (subst (asm) write_rest.simps) (auto simp: rbind_Inr_iff)
    from "1.IH" [OF True b(1,2) refl b(3)] write_blocks_evolves [OF b(2)] True
    show ?thesis by (auto intro: evolves_trans)
  next
    case False
    then show ?thesis
      using "1.prems" by (subst (asm) write_rest.simps)
        (auto simp: rbind_Inr_iff Let_def evolves_refl split: if_splits dest: write_partblock_evolves)
  qed
qed

lemma read_helper_evolves: "read_helper buf n bn off start s = Inr (buf', s') \<Longrightarrow> evolves s s'"
  by (auto simp: read_helper_def Let_def rbind_Inr_iff
      dest!: read_partblock_evolves read_rest_evolves intro: evolves_trans)

lemma write_helper_evolves:
  assumes "write_helper buf n bn off start s = Inr (r, s')"
  shows "evolves s s'" and "int r \<le> n"
proof -
  obtain bufptr s1 where load: "load_mem (nat n) buf s = (bufptr, s1)" by fastforce
  obtain b s2 where run: "0 \<le> n" "write_partblock b bufptr off (min (nat n) (1024 - off)) s1 = Inr s2"
    "write_rest (nat n) (min (nat n) (1024 - off)) (drop (min (nat n) (1024 - off)) bufptr) bn (start + 1) s2 = Inr (r, s')"
    using assms load by (auto simp: write_helper_def Let_def rbind_Inr_iff split: if_splits)
  show "evolves s s'"
    using load_mem_evolves [OF load] write_partblock_evolves [OF run(2)] write_rest_evolves [OF run(3)]
    by (meson evolves_trans)
  show "int r \<le> n" using write_rest_evolves [OF run(3)] run(1) by linarith
qed

lemma fread_blocknums_evolves: "fread_blocknums k s = Inr (bn, s') \<Longrightarrow> evolves s s'"
  by (auto simp: fread_blocknums_def Let_def rbind_Inr_iff split_beta split: if_splits
      dest!: io_evolves indet_first intro: load_mem_last evolves_trans)

lemma load_direct_count: "fst (load_direct ps i bn) \<le> i + length ps"
proof (induction ps arbitrary: i bn)
  case (Cons p ps)
  then show ?case using Cons [of "Suc i"] by simp
qed simp

lemma fwrite_blocknums_evolves:
  assumes "fwrite_blocknums k s = Inr (bn, nb, ip, dp, s')"
  shows "evolves s s'" and "typed s \<Longrightarrow> k < 100 \<Longrightarrow> dp \<le> 12"
proof -
  show "evolves s s'" using assms
    by (auto simp: fwrite_blocknums_def Let_def rbind_Inr_iff split_beta split: if_splits
        dest!: io_evolves indet_first intro: load_mem_last evolves_trans)
  assume "typed s" "k < 100"
  then have "length (data_ptrs (inode_table s ! k)) = 12" using typed_inode by (simp add: inode_fits_def)
  then have d: "fst (load_direct (data_ptrs (inode_table s ! k)) 0 b) \<le> 12" for b
    using load_direct_count [of "data_ptrs (inode_table s ! k)" 0 b] by simp
  have "inode_table (snd (indet 1072 s)) = inode_table s" by (simp add: indet_def)
  then show "dp \<le> 12"
    using assms d by (auto simp: fwrite_blocknums_def Let_def rbind_Inr_iff split_beta split: if_splits)
qed

subsection \<open>Growing a file\<close>

lemma get_index_fits:
  assumes "get_index m = Inr (n, m')" and "length m = 129"
  shows "n < 4294967296" and "length m' = 129"
proof -
  have "n < 4294967296 \<and> length m' = 129"
  proof (cases "free_set m = {}")
    case True
    then show ?thesis using assms bm.alloc_none [OF assms(2) True] by simp
  next
    case False
    have "Min (free_set m) \<in> free_set m" using False by (intro Min_in) auto
    then have "Min (free_set m) < 1032" using assms(2) by (auto simp: free_set_def)
    then show ?thesis using assms(1) bm.alloc_some [OF assms(2) False] by auto
  qed
  then show "n < 4294967296" "length m' = 129" by simp_all
qed

lemma alloc_loop_fits:
  "alloc_loop n x bn m = Inr (blk, ok, bn', m') \<Longrightarrow> length m = 129 \<Longrightarrow>
   length m' = 129 \<and> (\<forall>b\<in>set blk. b < 4294967296)"
proof (induction n arbitrary: x bn m blk)
  case 0
  then show ?case by simp
next
  case (Suc n)
  obtain b m1 where b: "get_index m = Inr (b, m1)" using Suc.prems(1) by (auto simp: rbind_Inr_iff)
  note fits = get_index_fits [OF b Suc.prems(2)]
  show ?case
  proof (cases "b = 0")
    case True
    then show ?thesis using Suc.prems b fits by simp
  next
    case False
    then obtain bn1 blk' where r: "alloc_loop n (Suc x) bn1 m1 = Inr (blk', ok, bn', m')" "blk = b # blk'"
      using Suc.prems(1) b by (auto simp: rbind_Inr_iff)
    show ?thesis using Suc.IH [OF r(1) fits(2)] fits(1) by (simp add: r(2))
  qed
qed

lemma set_bitmap_evolves: "(typed s \<Longrightarrow> length m = 129) \<Longrightarrow> evolves s (s\<lparr>free_bit_map := m\<rparr>)"
proof -
  assume "typed s \<Longrightarrow> length m = 129"
  then have "typed s \<Longrightarrow> typed (s\<lparr>free_bit_map := m\<rparr>)" by (simp add: typed_def globals_ok_def)
  then show ?thesis by (intro evolvesI) simp_all
qed

lemma typed_bitmap: "typed s \<Longrightarrow> length (free_bit_map s) = 129"
  by (simp add: typed_def globals_ok_def)

lemma set_ptrs_fits:
  assumes "inode_fits n" and "d + length bs \<le> 12" and "\<forall>b\<in>set bs. b < 4294967296"
  shows "inode_fits (n\<lparr>data_ptrs := overwrite (data_ptrs n) d bs\<rparr>)"
proof -
  have "set (overwrite (data_ptrs n) d bs) \<subseteq> set (data_ptrs n) \<union> set bs"
    by (auto simp: overwrite_def dest: in_set_takeD in_set_dropD)
  then show ?thesis using assms by (auto simp: inode_fits_def)
qed

lemma add_indirect_evolves: "add_indirect k ip blk s = Inr s' \<Longrightarrow> evolves s s'"
  by (auto simp: add_indirect_def Let_def rbind_Inr_iff split_beta
      dest!: io_evolves indet_first intro: evolves_trans)

lemma add_direct_evolves:
  assumes "add_direct k dp blk s = Inr s'" and "dp \<le> 12" and "\<forall>b\<in>set blk. b < 4294967296"
  shows "evolves s s'"
proof (cases "length blk \<le> 12 - dp")
  case True
  then have "d \<le> 12 \<Longrightarrow> dp + length blk \<le> 12" for d using assms(2) by simp
  then have "evolves s (upd_inode k (\<lambda>n. n\<lparr>data_ptrs := overwrite (data_ptrs n) dp blk\<rparr>) s)"
    using assms(3) by (intro upd_inode_evolves set_ptrs_fits) auto
  then show ?thesis using assms(1) True by (simp add: add_direct_def)
next
  case False
  let ?blk = "take (12 - dp) blk"
  obtain ib m where ib: "get_index (free_bit_map s) = Inr (ib, m)"
    using assms(1) False by (auto simp: add_direct_def rbind_Inr_iff)
  let ?s0 = "s\<lparr>free_bit_map := m\<rparr>"
  let ?s1 = "upd_inode k (\<lambda>n. n\<lparr>indirectPointer := ib\<rparr>) ?s0"
  let ?s2 = "upd_inode k (\<lambda>n. n\<lparr>data_ptrs := overwrite (data_ptrs n) dp ?blk\<rparr>) ?s1"
  obtain w where w: "write_blocks (s32 (int ib)) 1 (ints_bytes (drop (12 - dp) blk)) ?s2 = Inr (w, s')"
    using assms(1) False ib by (auto simp: add_direct_def rbind_Inr_iff Let_def)
  show ?thesis
  proof (rule evolves_typed)
    assume "typed s"
    note len = get_index_fits [OF ib typed_bitmap [OF this]]
    have "evolves s ?s0" using len(2) by (rule set_bitmap_evolves)
    moreover have "evolves ?s0 ?s1" using len(1) by (intro upd_inode_evolves) (simp add: inode_fits_def)
    moreover have "evolves ?s1 ?s2"
    proof (intro upd_inode_evolves set_ptrs_fits)
      show "dp + length ?blk \<le> 12" using assms(2) by simp
      show "\<forall>b\<in>set ?blk. b < 4294967296" using assms(3) by (auto dest: in_set_takeD)
    qed
    ultimately show "evolves s s'" using write_blocks_evolves [OF w] by (meson evolves_trans)
  qed
qed

lemma fwrite_grow_evolves:
  assumes "fwrite_grow k ne bn nb ip dp flag s = Inr (gr, s')" and "dp \<le> 12"
  shows "evolves s s'"
proof (cases "nb * 1024 < ne")
  case False
  then show ?thesis using assms(1) by (simp add: fwrite_grow_def evolves_refl)
next
  case True
  obtain blk ok bn' m where al: "alloc_loop (new_blocks ne nb) nb bn (free_bit_map s) = Inr (blk, ok, bn', m)"
    using assms(1) True by (auto simp: fwrite_grow_def rbind_Inr_iff)
  let ?s1 = "s\<lparr>free_bit_map := m\<rparr>"
  show ?thesis
  proof (rule evolves_typed)
    assume "typed s"
    note fits = alloc_loop_fits [OF al typed_bitmap [OF this]]
    then have "evolves s ?s1" by (intro set_bitmap_evolves) simp
    moreover consider "s' = ?s1" | "add_indirect k ip blk ?s1 = Inr s'" | "add_direct k dp blk ?s1 = Inr s'"
      using assms(1) True al by (auto simp: fwrite_grow_def rbind_Inr_iff Let_def split: if_splits)
    then have "evolves ?s1 s'"
      using add_indirect_evolves add_direct_evolves [OF _ assms(2)] fits by cases (simp_all add: evolves_refl)
    ultimately show "evolves s s'" by (rule evolves_trans)
  qed
qed

subsection \<open>Whole operations\<close>

lemma sfs_fread_evolves:
  "sfs_fread fileID buf len s = Inr (r, buf', s') \<Longrightarrow> evolves s s' \<and> (int32 len \<longrightarrow> int32 r)"
  by (auto simp: sfs_fread_def Let_def rbind_Inr_iff split: if_splits
      dest!: sem_wait_evolves sem_post_evolves fread_blocknums_evolves read_helper_evolves set_rwptr_first
      intro: evolves_trans)

lemma set_size_evolves: "evolves s (upd_inode k (\<lambda>n. n\<lparr>isize := u32 x\<rparr>) s)"
  by (rule upd_inode_evolves) (simp add: inode_fits_def)

lemma fwrite_end_evolves:
  "evolves s (upd_fd k (\<lambda>f. f\<lparr>rwptr := u64 x\<rparr>)
     (if b then upd_inode k (\<lambda>n. n\<lparr>isize := u32 y\<rparr>) s else s))"
proof (cases b)
  case True
  then show ?thesis
    using evolves_trans [OF set_size_evolves [of s k y] set_rwptr_evolves [of "upd_inode k (\<lambda>n. n\<lparr>isize := u32 y\<rparr>) s" k x]]
    by simp
qed (simp add: set_rwptr_evolves)

lemma sfs_fwrite_evolves:
  assumes "sfs_fwrite fileID buf len s = Inr (r, s')"
  shows "evolves s s' \<and> (int32 len \<longrightarrow> int32 r)"
proof -
  obtain s1 k where s1: "sem_wait s = Inr s1" "table_index fileID = Inr k"
    using assms by (auto simp: sfs_fwrite_def rbind_Inr_iff)
  have e1: "evolves s s1" using s1(1) by (rule sem_wait_evolves)
  let ?rw = "rwptr (fd_table s1 ! k)"
  let ?ne = "u64 (len + int ?rw)"
  show ?thesis
  proof (cases "?ne > 274432 \<or> mode (inode_table s1 ! k) = 1")
    case True
    then have "post_return (-1) s1 = Inr (r, s')"
      using assms s1 by (auto simp: sfs_fwrite_def rbind_Inr_iff Let_def split: if_splits)
    from post_return_evolves [OF this] e1 show ?thesis by (auto intro: evolves_trans)
  next
    case False
    then obtain bn nb ip dp s2 gr s3 where g: "fwrite_blocknums k s1 = Inr (bn, nb, ip, dp, s2)"
      "fwrite_grow k ?ne bn nb ip dp (indirectPointer (inode_table s1 ! k) \<noteq> 0) s2 = Inr (gr, s3)"
      using assms s1 by (auto simp: sfs_fwrite_def rbind_Inr_iff Let_def)
    have e3: "evolves s1 s3"
    proof (rule evolves_typed)
      assume "typed s1"
      then have "dp \<le> 12" using fwrite_blocknums_evolves(2) [OF g(1)] table_indexD [OF s1(2)] by blast
      then show "evolves s1 s3"
        using fwrite_blocknums_evolves(1) [OF g(1)] fwrite_grow_evolves [OF g(2)] by (blast intro: evolves_trans)
    qed
    show ?thesis
    proof (cases gr)
      case None
      then have "post_return (-1) s3 = Inr (r, s')"
        using assms s1 g False by (auto simp: sfs_fwrite_def rbind_Inr_iff Let_def)
      from post_return_evolves [OF this] e1 e3 show ?thesis by (auto intro: evolves_trans)
    next
      case (Some bn')
      then obtain w s4 where w: "write_helper buf len bn' (?rw mod 1024) (s32 (int (?rw div 1024))) s3 = Inr (w, s4)"
        "post_return (int w) (upd_fd k (\<lambda>f. f\<lparr>rwptr := u64 (int ?rw + int w)\<rparr>) (if ?ne > isize (inode_table s4 ! k)
           then upd_inode k (\<lambda>n. n\<lparr>isize := u32 (int ?ne)\<rparr>) s4 else s4)) = Inr (r, s')"
        using assms s1 g False by (auto simp: sfs_fwrite_def rbind_Inr_iff Let_def)
      note wh = write_helper_evolves [OF w(1)]
      note pr = post_return_evolves [OF w(2)]
      have "evolves s s'" using e1 e3 wh(1) fwrite_end_evolves pr by (meson evolves_trans)
      moreover have "int32 len \<longrightarrow> int32 r" using wh(2) pr by (simp add: int32_def)
      ultimately show ?thesis ..
    qed
  qed
qed

subsection \<open>Formatting and reopening\<close>

lemma mark_used_length: "mark_used ns m = Inr m' \<Longrightarrow> length m' = length m"
  by (induction ns arbitrary: m) (auto simp: force_set_index_def rbind_Inr_iff Let_def split: if_splits)

lemma mark_blocks_evolves: "mark_blocks ns s = Inr s' \<Longrightarrow> evolves s s'"
  by (auto simp: mark_blocks_def rbind_Inr_iff dest!: mark_used_length intro!: set_bitmap_evolves typed_bitmap)

lemma set_inodes_evolves:
  assumes "length is = 100" and "\<forall>n\<in>set is. inode_fits n"
  shows "evolves s (s\<lparr>inode_table := is\<rparr>)"
proof -
  have "typed s \<Longrightarrow> typed (s\<lparr>inode_table := is\<rparr>)" using assms by (simp add: typed_def globals_ok_def)
  then show ?thesis by (intro evolvesI) simp_all
qed

lemma set_dir_evolves:
  assumes "typed s \<Longrightarrow> length ds = 100 \<and> (\<forall>d\<in>set ds. dirent_fits d)"
  shows "evolves s (s\<lparr>rootDir := ds\<rparr>)"
proof -
  have "typed s \<Longrightarrow> typed (s\<lparr>rootDir := ds\<rparr>)" using assms by (simp add: typed_def globals_ok_def)
  then show ?thesis by (intro evolvesI) simp_all
qed

lemma set_fds_evolves: "evolves s (s\<lparr>fd_table := fresh_fds (fd_table s)\<rparr>)"
proof -
  have "fd_fits d" if s: "typed s" and d: "d \<in> set (fresh_fds (fd_table s))" for d
  proof -
    have len: "length (fd_table s) = 100" using s by (simp add: typed_def globals_ok_def)
    obtain i where i: "i < 100" "d = fresh_fds (fd_table s) ! i"
      using d len by (metis in_set_conv_nth length_fresh_fds)
    then show ?thesis using s len by (simp add: typed_def fd_fits_def)
  qed
  then have "typed s \<Longrightarrow> typed (s\<lparr>fd_table := fresh_fds (fd_table s)\<rparr>)" by (simp add: typed_def globals_ok_def)
  then show ?thesis by (intro evolvesI) simp_all
qed

lemma init_fresh_disk_evolves:
  "init_fresh_disk 1024 1024 s = (e, s') \<Longrightarrow> evolves s (s'\<lparr>sfs_mkerror := e\<rparr>)"
  by (rule evolvesI) (auto simp: init_fresh_disk_def Let_def typed_def globals_ok_def int32_def split: if_splits)

lemma init_disk_evolves: "init_disk 1024 1024 s = (e, s') \<Longrightarrow> evolves s (s'\<lparr>sfs_mkerror := e\<rparr>)"
  by (rule evolvesI) (auto simp: init_disk_def Let_def typed_def globals_ok_def int32_def split: if_splits)

lemma length_slice_le: "length (slice xs a n) \<le> n"
  by (simp add: slice_def)

lemma le_nat_slice: "n \<le> k \<Longrightarrow> le_nat (slice bs a n) < 256 ^ k"
  using le_nat_bound [of "slice bs a n"] length_slice_le [of bs a n]
  by (meson less_le_trans order_trans power_increasing one_le_numeral)

lemma decode_inode_fits: "inode_fits (decode_inode bs)"
  using le_nat_slice [of 4 4] by (auto simp: inode_fits_def decode_inode_def)

lemma decode_inodes_fits: "length (decode_inodes bs) = 100" "\<forall>n\<in>set (decode_inodes bs). inode_fits n"
  by (auto simp: decode_inodes_def decode_inode_fits)

lemma read_loop_length: "read_loop i k blk dst off s = Inr (dst', s') \<Longrightarrow> length dst' = length dst"
proof (induction k arbitrary: i blk dst s)
  case (Suc k)
  obtain b s1 where item: "fread_item blk s = (b, s1)" by fastforce
  then obtain d where "store_mem dst (off + i * nat (BLOCK_SIZE s)) b = Inr d"
    "read_loop (Suc i) k b d off s1 = Inr (dst', s')" using Suc.prems by (auto simp: rbind_Inr_iff)
  then show ?case using Suc.IH by (fastforce simp: store_mem_def split: if_splits)
qed simp

lemma read_blocks_length: "read_blocks start n dst off s = Inr (r, dst', s') \<Longrightarrow> length dst' = length dst"
  by (auto simp: read_blocks_def rbind_Inr_iff split_beta Let_def split: if_splits dest: read_loop_length)

lemma decode_dir_fits:
  assumes "2800 \<le> length bs"
  shows "length (decode_dir (take 2800 bs)) = 100" and "\<forall>d\<in>set (decode_dir (take 2800 bs)). dirent_fits d"
proof -
  have "dirent_fits (decode_dirent x)" if "length x = 28" for x
    using that s32_bounds [of "int (le_nat (slice x 0 4))"] by (simp add: decode_dirent_def dirent_fits_def)
  then show "\<forall>d\<in>set (decode_dir (take 2800 bs)). dirent_fits d"
    using assms by (auto simp: decode_dir_def)
qed (simp add: decode_dir_def)

lemma load_inodes_evolves: "load_inodes s = Inr s' \<Longrightarrow> evolves s s'"
  using decode_inodes_fits set_inodes_evolves
  by (auto simp: load_inodes_def Let_def rbind_Inr_iff split_beta dest!: read_blocks_evolves indet_first)
    (meson evolves_trans)

lemma load_dir_evolves: "load_dir s = Inr s' \<Longrightarrow> evolves s s'"
proof -
  assume "load_dir s = Inr s'"
  then obtain r buf s2 where rd: "read_blocks 33 2 (fst (indet 16384 s)) 0 (snd (indet 16384 s)) = Inr (r, buf, s2)"
    "s' = s2\<lparr>rootDir := decode_dir (take 2800 buf)\<rparr>"
    by (auto simp: load_dir_def Let_def rbind_Inr_iff split_beta)
  have "length buf = 16384" using read_blocks_length [OF rd(1)] by (simp add: indet_def)
  then have "evolves s2 s'" using decode_dir_fits [of buf] unfolding rd(2) by (intro set_dir_evolves) simp
  then show ?thesis using indet_first [OF read_blocks_evolves [OF rd(1)]] by (rule evolves_trans [rotated])
qed

lemma load_bitmap_evolves: "load_bitmap s = Inr s' \<Longrightarrow> evolves s s'"
proof -
  assume "load_bitmap s = Inr s'"
  then obtain r buf s2 where rd: "read_blocks 32 1 (fst (indet 8192 s)) 0 (snd (indet 8192 s)) = Inr (r, buf, s2)"
    "s' = s2\<lparr>free_bit_map := overwrite (free_bit_map s2) 0 (take 128 buf)\<rparr>"
    by (auto simp: load_bitmap_def Let_def rbind_Inr_iff split_beta)
  have "evolves s2 s'" unfolding rd(2) by (intro set_bitmap_evolves) (simp add: typed_bitmap)
  then show ?thesis using indet_first [OF read_blocks_evolves [OF rd(1)]] by (rule evolves_trans [rotated])
qed

lemma mksfs_old_evolves: "mksfs_old s = Inr s' \<Longrightarrow> evolves s s'"
proof -
  assume run: "mksfs_old s = Inr s'"
  obtain e s1 where i: "init_disk 1024 1024 s = (e, s1)" by fastforce
  let ?s2 = "s1\<lparr>sfs_mkerror := e\<rparr>"
  obtain r buf s4 where rd: "read_blocks 0 1 (fst (indet 40 ?s2)) 0 (snd (indet 40 ?s2)) = Inr (r, buf, s4)"
    "load_tables s4 = Inr s'"
    using run i by (auto simp: mksfs_old_def NUM_BLOCKS_def Let_def rbind_Inr_iff split_beta)
  have "evolves s4 s'" using rd(2)
    by (auto simp: load_tables_def rbind_Inr_iff dest!: load_inodes_evolves load_dir_evolves load_bitmap_evolves
        intro: evolves_trans)
  then show ?thesis
    using init_disk_evolves [OF i] indet_first [OF read_blocks_evolves [OF rd(1)]] by (meson evolves_trans)
qed

lemma format_evolves:
  "format_superblock s = Inr s' \<Longrightarrow> evolves s s'" "format_inodes s = Inr s' \<Longrightarrow> evolves s s'"
  "format_dir s = Inr s' \<Longrightarrow> evolves s s'" "format_bitmap s = Inr s' \<Longrightarrow> evolves s s'"
proof -
  show "format_superblock s = Inr s' \<Longrightarrow> evolves s s'"
    by (auto simp: format_superblock_def rbind_Inr_iff dest!: write_blocks_evolves mark_blocks_evolves
        intro: evolves_trans)
  show "format_bitmap s = Inr s' \<Longrightarrow> evolves s s'"
    by (auto simp: format_bitmap_def rbind_Inr_iff dest!: write_blocks_evolves mark_blocks_evolves
        intro: evolves_trans)
  have "evolves s (s\<lparr>inode_table := replicate 100 fresh_inode\<rparr>)" by (rule set_inodes_evolves) simp_all
  then show "format_inodes s = Inr s' \<Longrightarrow> evolves s s'"
    by (auto simp: format_inodes_def Let_def rbind_Inr_iff dest!: write_blocks_evolves mark_blocks_evolves)
      (meson evolves_trans)
  have "evolves t (t\<lparr>rootDir := fresh_dir (rootDir t)\<rparr>)" for t
  proof (rule set_dir_evolves)
    assume "typed t"
    then have "length (rootDir t) = 100" "\<forall>d\<in>set (rootDir t). dirent_fits d" by (simp_all add: typed_def globals_ok_def)
    then show "length (fresh_dir (rootDir t)) = 100 \<and> (\<forall>d\<in>set (fresh_dir (rootDir t)). dirent_fits d)"
      using fresh_dir_fits by simp
  qed
  from evolves_trans [OF set_fds_evolves [of s] this]
  have "evolves s (s\<lparr>fd_table := fresh_fds (fd_table s), rootDir := fresh_dir (rootDir s)\<rparr>)" by simp
  then show "format_dir s = Inr s' \<Longrightarrow> evolves s s'"
    by (auto simp: format_dir_def Let_def rbind_Inr_iff dest!: write_blocks_evolves mark_blocks_evolves)
      (meson evolves_trans)
qed

lemma mksfs_fresh_evolves: "mksfs_fresh s = Inr s' \<Longrightarrow> evolves s s'"
proof -
  assume run: "mksfs_fresh s = Inr s'"
  obtain e s1 where i: "init_fresh_disk 1024 1024 (sem_open s) = (e, s1)" by fastforce
  have "evolves s (sem_open s)" by (simp add: sem_open_def evolves_refl)
  then have "evolves s (s1\<lparr>sfs_mkerror := e\<rparr>)" using init_fresh_disk_evolves [OF i] by (rule evolves_trans)
  moreover have "evolves (s1\<lparr>sfs_mkerror := e\<rparr>) s'"
    using run i by (auto simp: mksfs_fresh_def NUM_BLOCKS_def Let_def rbind_Inr_iff
        dest!: sem_wait_evolves sem_post_evolves format_evolves) (meson evolves_trans)
  ultimately show ?thesis by (rule evolves_trans)
qed

lemma mksfs_evolves: "mksfs fresh s = Inr s' \<Longrightarrow> evolves s s'"
  by (auto simp: mksfs_def split: if_splits dest: mksfs_fresh_evolves mksfs_old_evolves)

subsection \<open>Every call of the interface\<close>

text \<open>The functions of \<^verbatim>\<open>sfs_api.h\<close> with their arguments; the answer is the returned number.\<close>

datatype api_call =
    Mksfs int
  | Getnextfilename "byte list"
  | Getfilesize "byte list"
  | Fopen "byte list"
  | Fclose int
  | Fread int "byte list" int
  | Fwrite int "byte list" int
  | Fseek int int
  | Remove "byte list"

fun api :: "api_call \<Rightarrow> sfs \<Rightarrow> (int \<times> sfs) result" where
  "api (Mksfs fresh) s = rbind (mksfs fresh s) (\<lambda>s'. Inr (0, s'))"
| "api (Getnextfilename fname) s = rbind (sfs_getnextfilename fname s) (\<lambda>(r, b, s'). Inr (r, s'))"
| "api (Getfilesize path) s = sfs_getfilesize path s"
| "api (Fopen nm) s = sfs_fopen nm s"
| "api (Fclose fd) s = sfs_fclose fd s"
| "api (Fread fd buf len) s = rbind (sfs_fread fd buf len s) (\<lambda>(r, b, s'). Inr (r, s'))"
| "api (Fwrite fd buf len) s = sfs_fwrite fd buf len s"
| "api (Fseek fd loc) s = sfs_fseek fd loc s"
| "api (Remove f) s = sfs_remove f s"

fun api_all :: "api_call list \<Rightarrow> sfs \<Rightarrow> (int list \<times> sfs) result" where
  "api_all [] s = Inr ([], s)"
| "api_all (c # cs) s =
     rbind (api c s) (\<lambda>(r, s1). rbind (api_all cs s1) (\<lambda>(rs, s2). Inr (r # rs, s2)))"

text \<open>The lengths are arguments of type \<open>int\<close>; no condition on the other arguments is needed.\<close>

fun call_fits :: "api_call \<Rightarrow> bool" where
  "call_fits (Fread fd buf len) = int32 len"
| "call_fits (Fwrite fd buf len) = int32 len"
| "call_fits _ = True"

lemma api_advances: "api c s = Inr (r, s') \<Longrightarrow> advances s s' \<and> (call_fits c \<longrightarrow> int32 r)"
proof (cases c)
  case (Getnextfilename f)
  then show "api c s = Inr (r, s') \<Longrightarrow> ?thesis"
    by (auto simp: rbind_Inr_iff dest: sfs_getnextfilename_advances)
qed (auto simp: rbind_Inr_iff evolves_advances dest: mksfs_evolves sfs_getfilesize_evolves sfs_fopen_evolves
    sfs_fclose_evolves sfs_fread_evolves sfs_fwrite_evolves sfs_fseek_evolves sfs_remove_evolves)

lemma api_all_advances:
  "api_all cs s = Inr (rs, s') \<Longrightarrow> list_all call_fits cs \<Longrightarrow> advances s s' \<and> list_all int32 rs"
proof (induction cs arbitrary: s rs)
  case Nil
  then show ?case by (simp add: evolves_advances)
next
  case (Cons c cs)
  obtain r s1 rs' where c: "api c s = Inr (r, s1)" "api_all cs s1 = Inr (rs', s')" "rs = r # rs'"
    using Cons.prems(1) by (auto simp: rbind_Inr_iff)
  have "advances s1 s' \<and> list_all int32 rs'" using Cons.IH [OF c(2)] Cons.prems(2) by simp
  moreover have "advances s s1" "int32 r" using api_advances [OF c(1)] Cons.prems(2) by simp_all
  ultimately show ?case by (auto simp: c(3) intro: advances_trans)
qed

lemma boot_typed: "typed (boot u a v ex c n cr)"
  by (simp add: typed_def globals_ok_def boot_def inode_fits_def fd_fits_def dirent_fits_def int32_def)

end
