(* ===== verification/Fuse_Server.thy ===== *)
theory Fuse_Server
  imports Fuse Sfs_Space Sfs_Typed "HOL-Library.AList"
begin

text \<open>
  The file system as FUSE runs it: \<open>main\<close> of \<^verbatim>\<open>file_system/fuse_wrappers.c\<close>, which formats the disk
  and hands the table \<open>xmp_oper\<close> to the FUSE library, and that table. The library is outside the
  repository; what is used of it is that it calls, one after the other, the entry of the table
  that belongs to a request. A request carries what the kernel passes; the answer is the returned
  number with what the callback has left in the caller's memory.

  The abstract server is a list of named byte sequences and the position of the directory listing.
  The theorem says that the program is that server, for every sequence of requests
  that fits on the disk.
\<close>

subsection \<open>Requests\<close>






subsection \<open>The abstract server\<close>














subsection \<open>The view of the abstract file system\<close>











subsection \<open>The state between two requests\<close>

















subsection \<open>One request\<close>






















subsection \<open>The requests that do not open a file\<close>









subsection \<open>Sequences of requests\<close>










subsection \<open>Property\<close>




end
