(* ===== verification/Sfs_Calls.thy ===== *)
theory Sfs_Calls
  imports Sfs_Typed
begin

text \<open>
  The semaphore \<open>disk_access\<close> over whole sequences of calls of \<^verbatim>\<open>sfs_api.h\<close>, with any arguments and whatever the
  disk holds: every path through every function, with the early returns for errors, gives the semaphore back before
  it returns, so that no later call waits for ever. \<open>still l p m\<close> says that the computation \<open>m\<close> does not
  wait and leaves the semaphore as \<open>l\<close>; \<open>p\<close> finds the state in its result.
\<close>

subsection \<open>Computations that leave the semaphore alone\<close>

definition lock_of :: "sfs \<Rightarrow> nat option \<times> bool" where
  "lock_of s = (sem s, disk_access s)"

definition still :: "nat option \<times> bool \<Rightarrow> ('x \<Rightarrow> sfs) \<Rightarrow> 'x result \<Rightarrow> bool" where
  "still l p m \<longleftrightarrow> m \<noteq> Inl Blocked \<and> (\<forall>x. m = Inr x \<longrightarrow> lock_of (p x) = l)"

text \<open>The computations without a state.\<close>

definition waits_not :: "'x result \<Rightarrow> bool" where
  "waits_not m \<longleftrightarrow> m \<noteq> Inl Blocked"

lemma still_Inr [simp]: "still l p (Inr x) \<longleftrightarrow> lock_of (p x) = l"
  and still_Inl [simp]: "still l p (Inl e) \<longleftrightarrow> e \<noteq> Blocked"
  and waits_not_simps [simp]: "waits_not (Inr x)" "waits_not (Inl e) \<longleftrightarrow> e \<noteq> Blocked"
  by (auto simp: still_def waits_not_def)

lemma still_bind:
  assumes "still l p m" and "\<And>x. m = Inr x \<Longrightarrow> lock_of (p x) = l \<Longrightarrow> still l' q (f x)"
  shows "still l' q (rbind m f)"
  using assms by (cases m) (auto simp: still_def)

lemma pure_bind:
  assumes "waits_not m" and "\<And>x. m = Inr x \<Longrightarrow> still l q (f x)"
  shows "still l q (rbind m f)"
  using assms by (cases m) (auto simp: still_def waits_not_def)

lemma pure_bind_pure:
  assumes "waits_not m" and "\<And>x. m = Inr x \<Longrightarrow> waits_not (f x)"
  shows "waits_not (rbind m f)"
  using assms by (cases m) (auto simp: waits_not_def)

lemma lock_fields [simp]:
  "lock_of (s\<lparr>unk := u\<rparr>) = lock_of s" "lock_of (s\<lparr>content := c\<rparr>) = lock_of s" "lock_of (s\<lparr>fpos := i\<rparr>) = lock_of s"
  "lock_of (s\<lparr>flen := i\<rparr>) = lock_of s" "lock_of (s\<lparr>free_bit_map := m\<rparr>) = lock_of s" "lock_of (s\<lparr>inode_table := ns\<rparr>) = lock_of s"
  "lock_of (s\<lparr>fd_table := fs\<rparr>) = lock_of s" "lock_of (s\<lparr>rootDir := ds\<rparr>) = lock_of s" "lock_of (s\<lparr>rootDir_ptr := q\<rparr>) = lock_of s"
  "lock_of (s\<lparr>sfs_mkerror := e\<rparr>) = lock_of s" "lock_of (upd_inode k f s) = lock_of s" "lock_of (upd_fd k g s) = lock_of s"
  "lock_of (upd_dir k h s) = lock_of s" "lock_of (snd (indet n s)) = lock_of s" "lock_of (snd (load_mem n x s)) = lock_of s"
  "lock_of (snd (indet_int s)) = lock_of s"
  by (simp_all add: lock_of_def indet_def snd_load_mem indet_int_def)

subsection \<open>The library functions and the disk\<close>

lemma c_strlen_waits [simp]: "waits_not (c_strlen xs)"
  by (induction xs) (auto intro: pure_bind_pure)

lemma c_streq_waits [simp]: "waits_not (c_streq xs ys)"
  by (induction xs ys rule: c_streq.induct) auto

lemma pure_waits [simp]:
  "waits_not (store_mem dst off x)" "waits_not (table_index i)" "waits_not (int_at arr i)" "waits_not (c_strcpy dst src)"
  by (auto simp: store_mem_def table_index_def int_at_def c_strcpy_def intro: pure_bind_pure)

lemmas pure_steps = pure_bind [OF pure_waits(1)] pure_bind [OF pure_waits(2)] pure_bind [OF pure_waits(3)]
  pure_bind [OF pure_waits(4)]

lemma find_entry_waits [simp]: "waits_not (find_entry nm ds i)"
  by (induction ds arbitrary: i) (auto intro: pure_bind_pure)

lemma fseek_still: "lock_of s = l \<Longrightarrow> still l (\<lambda>s. s) (fseek off s)"
  by (auto simp: fseek_def split: file_ptr.splits)

lemma read_loop_still: "lock_of s = l \<Longrightarrow> still l snd (read_loop i k blk dst off s)"
proof (induction k arbitrary: i blk dst s)
  case (Suc k)
  have "lock_of (snd (fread_item blk s)) = lock_of s" by (simp add: fread_item_def Let_def)
  then show ?case using Suc by (auto simp: split_beta Let_def intro!: pure_bind)
qed simp

lemma write_loop_lock [simp]: "lock_of (write_loop i k src s) = lock_of s"
proof (induction k arbitrary: i s)
  case (Suc k)
  have "lock_of (fwrite_item b t) = lock_of t" for b t by (simp add: fwrite_item_def Let_def)
  then show ?case using Suc by (simp add: split_beta Let_def)
qed simp

lemma read_blocks_still: "lock_of s = l \<Longrightarrow> still l (\<lambda>(r, b, s'). s') (read_blocks start n dst off s)"
  by (auto simp: read_blocks_def Let_def split_beta intro!: still_bind [OF fseek_still] still_bind [OF read_loop_still])

lemma write_blocks_still: "lock_of s = l \<Longrightarrow> still l snd (write_blocks start n src s)"
  by (auto simp: write_blocks_def intro!: still_bind [OF fseek_still])

subsection \<open>The helpers of the file system\<close>

lemma read_partblock_still: "lock_of s = l \<Longrightarrow> still l snd (read_partblock b dst pos off n s)"
  by (auto simp: read_partblock_def Let_def split_beta intro!: still_bind [OF read_blocks_still] pure_steps)

lemma write_partblock_still: "lock_of s = l \<Longrightarrow> still l (\<lambda>s. s) (write_partblock b buf off n s)"
  by (auto simp: write_partblock_def Let_def split_beta
      intro!: still_bind [OF read_blocks_still] still_bind [OF write_blocks_still] pure_steps)

lemma read_rest_still: "lock_of s = l \<Longrightarrow> still l snd (read_rest n w dst bn x s)"
proof (induction n w dst bn x s rule: read_rest.induct)
  case (1 n w dst bn x s)
  show ?case
    by (subst read_rest.simps)
      (auto simp: Let_def split_beta "1.prems" intro!: pure_steps still_bind [OF read_blocks_still] "1.IH" read_partblock_still)
qed

lemma write_rest_still: "lock_of s = l \<Longrightarrow> still l snd (write_rest n w buf bn x s)"
proof (induction n w buf bn x s rule: write_rest.induct)
  case (1 n w buf bn x s)
  show ?case
    by (subst write_rest.simps)
      (auto simp: Let_def split_beta "1.prems" intro!: pure_steps still_bind [OF write_blocks_still] "1.IH" still_bind [OF write_partblock_still])
qed

lemma read_helper_still: "lock_of s = l \<Longrightarrow> still l snd (read_helper buf n bn off start s)"
  by (auto simp: read_helper_def Let_def split_beta intro!: pure_steps still_bind [OF read_partblock_still] read_rest_still)

lemma write_helper_still: "lock_of s = l \<Longrightarrow> still l snd (write_helper buf n bn off start s)"
  by (auto simp: write_helper_def Let_def split_beta intro!: pure_steps still_bind [OF write_partblock_still] write_rest_still)

lemma fread_blocknums_still: "lock_of s = l \<Longrightarrow> still l snd (fread_blocknums k s)"
  by (auto simp: fread_blocknums_def Let_def split_beta intro!: pure_steps still_bind [OF read_blocks_still])

lemma fwrite_blocknums_still: "lock_of s = l \<Longrightarrow> still l (\<lambda>(bn, nb, ip, dp, s'). s') (fwrite_blocknums k s)"
  by (auto simp: fwrite_blocknums_def Let_def split_beta intro!: pure_steps still_bind [OF read_blocks_still])

lemma find_row_waits [simp]: "waits_not (find_row m i)"
proof (induction m i rule: find_row.induct)
  case (1 m i)
  then show ?case by (subst find_row.simps) auto
qed

lemma get_index_waits [simp]: "waits_not (get_index m)" "waits_not (force_set_index n m)"
  by (auto simp: get_index_def force_set_index_def Let_def intro!: pure_bind_pure split: option.splits)

lemmas index_steps = pure_bind [OF get_index_waits(1)]

lemma alloc_loop_waits [simp]: "waits_not (alloc_loop n x bn m)"
  by (induction n x bn m rule: alloc_loop.induct) (auto simp: split_beta intro!: pure_bind_pure)

lemmas alloc_steps = pure_bind [OF alloc_loop_waits]

lemma mark_used_waits [simp]: "waits_not (mark_used ns m)"
  by (induction ns arbitrary: m) (auto intro!: pure_bind_pure)

lemma add_indirect_still: "lock_of s = l \<Longrightarrow> still l (\<lambda>s. s) (add_indirect k ip blk s)"
  by (auto simp: add_indirect_def Let_def split_beta
      intro!: still_bind [OF read_blocks_still] still_bind [OF write_blocks_still] pure_steps)

lemma add_direct_still: "lock_of s = l \<Longrightarrow> still l (\<lambda>s. s) (add_direct k dp blk s)"
  by (auto simp: add_direct_def Let_def split_beta intro!: index_steps still_bind [OF write_blocks_still])

lemma fwrite_grow_still: "lock_of s = l \<Longrightarrow> still l snd (fwrite_grow k ne bn nb ip dp flag s)"
  by (auto simp: fwrite_grow_def Let_def split_beta
      intro!: alloc_steps still_bind [OF add_indirect_still] still_bind [OF add_direct_still])

lemma mark_blocks_still: "lock_of s = l \<Longrightarrow> still l (\<lambda>s. s) (mark_blocks ns s)"
  by (auto simp: mark_blocks_def intro!: pure_bind)

lemma format_still:
  assumes "lock_of s = l"
  shows "still l (\<lambda>s. s) (format_superblock s)" and "still l (\<lambda>s. s) (format_inodes s)"
    and "still l (\<lambda>s. s) (format_dir s)" and "still l (\<lambda>s. s) (format_bitmap s)"
  using assms
  by (auto simp: format_superblock_def format_inodes_def format_dir_def format_bitmap_def Let_def split_beta
      intro!: still_bind [OF write_blocks_still] still_bind [OF mark_blocks_still] mark_blocks_still)

subsection \<open>The critical sections\<close>

text \<open>Inside its section a function has the semaphore one lower; every way out is a post.\<close>

definition inside :: "sfs \<Rightarrow> nat option \<times> bool" where
  "inside s = (map_option (\<lambda>n. n - 1) (sem s), disk_access s)"

lemma wait_still: "sem s \<noteq> Some 0 \<Longrightarrow> still (inside s) (\<lambda>s. s) (sem_wait s)"
  by (auto simp: sem_wait_def sem_wait_val_def inside_def lock_of_def split: option.splits)

lemma post_still:
  assumes "lock_of t = inside s" and "sem s \<noteq> Some 0"
  shows "still (lock_of s) (\<lambda>s. s) (sem_post t)"
proof (cases "sem s")
  case None
  then show ?thesis using assms by (simp add: sem_post_def sem_post_val_def inside_def lock_of_def)
next
  case (Some n)
  then have "0 < n" using assms(2) by simp
  then show ?thesis using assms Some by (simp add: sem_post_def sem_post_val_def inside_def lock_of_def)
qed

lemma post_return_still:
  "lock_of t = inside s \<Longrightarrow> sem s \<noteq> Some 0 \<Longrightarrow> still (lock_of s) snd (post_return r t)"
  by (auto simp: post_return_def intro!: still_bind [OF post_still])

lemmas section_steps = still_bind [OF wait_still] still_bind [OF post_still] post_still post_return_still

lemma fopen_locked_still: "sem s \<noteq> Some 0 \<Longrightarrow> still (lock_of s) snd (fopen_locked nm mem s)"
  by (auto simp: fopen_locked_def Let_def intro!: section_steps pure_steps pure_bind [OF find_entry_waits] split: option.splits)

lemma sfs_fopen_still:
  assumes "sem s \<noteq> Some 0"
  shows "still (lock_of s) snd (sfs_fopen nm s)"
proof -
  define s0 where "s0 = snd (load_mem 21 nm s)"
  have eq: "lock_of s0 = lock_of s" by (simp add: s0_def)
  then have "sem s0 \<noteq> Some 0" using assms by (simp add: lock_of_def)
  from fopen_locked_still [OF this] have "still (lock_of s) snd (fopen_locked nm mem s0)" for mem by (simp add: eq)
  then show ?thesis
    by (auto simp: sfs_fopen_def Let_def split_beta eq s0_def intro!: pure_bind [OF c_strlen_waits])
qed

lemma sfs_fclose_still: "sem s \<noteq> Some 0 \<Longrightarrow> still (lock_of s) snd (sfs_fclose fd s)"
  by (auto simp: sfs_fclose_def intro!: section_steps pure_steps)

lemma sfs_fseek_still: "sem s \<noteq> Some 0 \<Longrightarrow> still (lock_of s) snd (sfs_fseek fd loc s)"
  by (auto simp: sfs_fseek_def intro!: section_steps pure_steps)

lemma sfs_remove_still: "still (lock_of s) snd (sfs_remove f s)"
  by (simp add: sfs_remove_def)

lemma sfs_getfilesize_still: "sem s \<noteq> Some 0 \<Longrightarrow> still (lock_of s) snd (sfs_getfilesize path s)"
  by (auto simp: sfs_getfilesize_def intro!: section_steps pure_steps pure_bind [OF find_entry_waits] split: option.splits)

lemma sfs_getnextfilename_still: "sem s \<noteq> Some 0 \<Longrightarrow> still (lock_of s) (\<lambda>(r, f, s'). s') (sfs_getnextfilename fname s)"
  by (auto simp: sfs_getnextfilename_def Let_def intro!: section_steps pure_steps pure_bind [OF c_streq_waits])

lemma sfs_fread_still: "sem s \<noteq> Some 0 \<Longrightarrow> still (lock_of s) (\<lambda>(r, b, s'). s') (sfs_fread fd buf len s)"
  by (auto simp: sfs_fread_def Let_def split_beta
      intro!: section_steps pure_steps still_bind [OF fread_blocknums_still] still_bind [OF read_helper_still])

lemma sfs_fwrite_still: "sem s \<noteq> Some 0 \<Longrightarrow> still (lock_of s) snd (sfs_fwrite fd buf len s)"
  unfolding sfs_fwrite_def Let_def
  apply (rule still_bind [OF wait_still])
   apply simp
  apply (rule pure_bind [OF pure_waits(2)])
  apply (clarsimp simp: post_return_still)
  apply (rule still_bind [OF fwrite_blocknums_still])
   apply assumption
  apply clarsimp
  apply (rule still_bind [OF fwrite_grow_still])
   apply assumption
  apply (clarsimp split: option.splits simp: post_return_still)
  apply (rule still_bind [OF write_helper_still])
   apply assumption
  apply (clarsimp simp: post_return_still)
  done

text \<open>\<open>mksfs\<close> opens the semaphore, which has the value 1 when it is new.\<close>

definition opened :: "sfs \<Rightarrow> nat option \<times> bool" where
  "opened s = (sem_open_val (sem s), True)"

lemma mksfs_still:
  assumes "sem s \<noteq> Some 0"
  shows "still (opened s) (\<lambda>s. s) (mksfs fresh s)"
proof (cases "fresh = 0")
  case True
  then show ?thesis by (simp add: mksfs_def mksfs_old_result)
next
  case False
  obtain e t where t: "init_fresh_disk 1024 NUM_BLOCKS (sem_open s) = (e, t)" by fastforce
  define t' where "t' = t\<lparr>sfs_mkerror := e\<rparr>"
  have lock: "lock_of t' = opened s"
    using t by (auto simp: t'_def init_fresh_disk_def sem_open_def lock_of_def opened_def Let_def split: if_splits)
  then have sem: "sem t' \<noteq> Some 0"
    using assms by (auto simp: lock_of_def opened_def sem_open_val_def split: option.splits)
  show ?thesis
    unfolding mksfs_def mksfs_fresh_def t Let_def prod.case t'_def [symmetric]
    by (auto simp: False lock [symmetric] sem intro!: section_steps still_bind [OF format_still(1)]
        still_bind [OF format_still(2)] still_bind [OF format_still(3)] still_bind [OF format_still(4)])
qed

subsection \<open>Sequences of calls\<close>

fun is_mksfs :: "api_call \<Rightarrow> bool" where
  "is_mksfs (Mksfs fresh) = True"
| "is_mksfs _ = False"

lemma api_still:
  assumes "sem s \<noteq> Some 0"
  shows "still (if is_mksfs c then opened s else lock_of s) snd (api c s)"
proof (cases c)
  case (Mksfs fresh)
  then show ?thesis by (auto intro!: still_bind [OF mksfs_still [OF assms]])
next
  case (Getnextfilename f)
  then show ?thesis by (auto intro!: still_bind [OF sfs_getnextfilename_still [OF assms]])
next
  case (Fread fd buf len)
  then show ?thesis by (auto intro!: still_bind [OF sfs_fread_still [OF assms]])
qed (use assms in \<open>simp_all add: sfs_getfilesize_still sfs_fopen_still sfs_fclose_still sfs_fwrite_still
      sfs_fseek_still sfs_remove_still\<close>)

definition lock_after :: "api_call list \<Rightarrow> sfs \<Rightarrow> nat option \<times> bool" where
  "lock_after cs s = (if list_ex is_mksfs cs then opened s else lock_of s)"

lemma lock_after_step:
  assumes "lock_of t = lock_after [c] s" and "sem s \<noteq> Some 0"
  shows "lock_after cs t = lock_after (c # cs) s" and "sem t \<noteq> Some 0"
  using assms by (auto simp: lock_after_def lock_of_def opened_def sem_open_val_def split: if_splits option.splits)

lemma api_all_still: "sem s \<noteq> Some 0 \<Longrightarrow> still (lock_after cs s) snd (api_all cs s)"
proof (induction cs arbitrary: s)
  case Nil
  then show ?case by (simp add: lock_after_def)
next
  case (Cons c cs)
  have rest: "still (lock_after (c # cs) s) snd (rbind (api_all cs t) (\<lambda>(rs, s2). Inr (r # rs, s2)))"
    if "lock_of t = lock_after [c] s" for r t
    by (rule still_bind [OF Cons.IH [OF lock_after_step(2) [OF that Cons.prems]]])
      (auto simp: lock_after_step(1) [OF that Cons.prems])
  have "still (lock_after [c] s) snd (api c s)"
    using api_still [OF Cons.prems] by (simp add: lock_after_def)
  then show ?case unfolding api_all.simps by (rule still_bind) (auto simp: rest)
qed

lemma mksfs_blocks: "fresh \<noteq> 0 \<Longrightarrow> sem s = Some 0 \<Longrightarrow> mksfs fresh s = Inl Blocked"
  by (auto simp: mksfs_def mksfs_fresh_def init_fresh_disk_def sem_open_def sem_open_val_def sem_wait_def
      sem_wait_val_def Let_def split_beta)

subsection \<open>Property\<close>

text \<open>
  C18: No sequence of calls of the file system, with whatever arguments and whatever the disk holds, waits
  for ever on its semaphore: every way through every function that returns, the refusals of bad
  arguments and the errors included, gives back what it took, so that after the calls the semaphore has
  the value \<open>mksfs\<close> opened it with, or the one it had when no call opened it. This needs that the
  semaphore, which outlives the process, is not 0 at the start: when a process that was stopped inside a
  section has left it at 0, formatting the disk waits for ever.
\<close>

theorem calls_never_block:
  "(v \<noteq> Some 0 \<longrightarrow>
      (case api_all cs (boot u a v ex c n cr) of
         Inl e \<Rightarrow> e \<noteq> Blocked
       | Inr (rs, s) \<Rightarrow> sem s = (if list_ex is_mksfs cs then sem_open_val v else v) \<and>
                        disk_access s = list_ex is_mksfs cs)) \<and>
   (fresh \<noteq> 0 \<longrightarrow> api_all (Mksfs fresh # cs) (boot u a (Some 0) ex c n cr) = Inl Blocked)"
proof -
  have b: "sem (boot u a v ex c n cr) = v" "\<not> disk_access (boot u a v ex c n cr)" for v
    by (simp_all add: boot_def)
  have "still (lock_after cs (boot u a v ex c n cr)) snd (api_all cs (boot u a v ex c n cr))" if "v \<noteq> Some 0"
    using api_all_still b(1) that by simp
  then show ?thesis
    by (auto simp: still_def lock_after_def lock_of_def opened_def b mksfs_blocks split: sum.splits if_splits)
qed

theorem calls_never_block_witness:
  "(\<exists>s. api_all [Mksfs 1, Fopen (name_arg demo_name), Fwrite 0 demo_data 5] demo_boot = Inr ([0, 0, 5], s) \<and>
      sem s = Some 1 \<and> disk_access s) \<and>
   api_all [Mksfs 1, Fclose 0] (boot (sconst 64) 0 (Some 0) False (\<lambda>_. 0) 0 True) = Inl Blocked"
proof -
  have "admissible (Open demo_name) demo_disk" using demo_name(1) by simp
  from run_cmd(3) [OF demo_disk(1) this]
  have "exec (Open demo_name) demo_disk = Inr ((0, []), demo_open)"
    using demo_name(2) by (simp add: demo_open_def demo_disk(2) aopen_cmd_def names_def)
  then have "sfs_fopen (name_arg demo_name) demo_disk = Inr (0, demo_open)" by (auto simp: rbind_Inr_iff)
  moreover have "sfs_fwrite 0 demo_data 5 demo_open = Inr (5, demo_file)"
    using demo_file(3) by (auto simp: rbind_Inr_iff)
  ultimately have run: "api_all [Mksfs 1, Fopen (name_arg demo_name), Fwrite 0 demo_data 5] demo_boot = Inr ([0, 0, 5], demo_file)"
    using demo_disk(4) by simp
  have "sem demo_file = Some 1 \<and> disk_access demo_file"
    using calls_never_block [of None "[Mksfs 1, Fopen (name_arg demo_name), Fwrite 0 demo_data 5]" "sconst 64" 0 False "\<lambda>_. 0" 0 True 1]
      run [unfolded demo_boot_def] by (simp add: sem_open_val_def)
  then show ?thesis
    using run calls_never_block [of "Some 0" "[Fclose 0]" "sconst 64" 0 False "\<lambda>_. 0" 0 True 1] by auto
qed

end
