(* ===== verification/Bitmap_Module.thy ===== *)
theory Bitmap_Module
  imports Bitmap
begin

text \<open>
  The module \<^verbatim>\<open>file_system/bitmap.c\<close> with \<^verbatim>\<open>bitmap.h\<close>: the bitmap as it was before its functions
  were copied into \<^verbatim>\<open>sfs_api.c\<close>. It has an array of its own, of exactly \<open>SIZE\<close> rows, and its
  \<open>get_index\<close> is \<open>get_index_unbounded\<close> of \<open>Bitmap\<close>. A sequence of calls is run on both modules; the
  lemmas compare the calls one by one, the theorem whole sequences.
\<close>

subsection \<open>The module\<close>

definition BITMAP_NUM_BLOCKS :: nat where
  "BITMAP_NUM_BLOCKS = 1024"

definition SIZE :: nat where
  "SIZE = BITMAP_NUM_BLOCKS div 8"

definition bitmap_start :: bitmap where
  "bitmap_start = replicate SIZE 255"

definition bitmap_force_set_index :: "nat \<Rightarrow> bitmap \<Rightarrow> bitmap result" where
  "bitmap_force_set_index index m =
     (let i = index div 8; b = index mod 8
      in if i < length m then Inr (m[i := use_bit (m ! i) b]) else Inl OutOfBounds)"

definition bitmap_rm_index :: "nat \<Rightarrow> bitmap \<Rightarrow> bitmap result" where
  "bitmap_rm_index index m =
     (let i = index div 8; b = index mod 8
      in if i < length m then Inr (m[i := free_bit (m ! i) b]) else Inl OutOfBounds)"

subsection \<open>Sequences of calls\<close>

datatype bitmap_call = Force nat | Get | Rm nat

text \<open>A call returns a number only if it is \<open>get_index\<close>.\<close>

fun module_call :: "bitmap_call \<Rightarrow> bitmap \<Rightarrow> (nat option \<times> bitmap) result" where
  "module_call (Force n) m = rbind (bitmap_force_set_index n m) (\<lambda>m'. Inr (None, m'))"
| "module_call Get m = rbind (get_index_unbounded m) (\<lambda>(n, m'). Inr (Some n, m'))"
| "module_call (Rm n) m = rbind (bitmap_rm_index n m) (\<lambda>m'. Inr (None, m'))"

fun sfs_call :: "bitmap_call \<Rightarrow> bitmap \<Rightarrow> (nat option \<times> bitmap) result" where
  "sfs_call (Force n) m = rbind (force_set_index n m) (\<lambda>m'. Inr (None, m'))"
| "sfs_call Get m = rbind (get_index m) (\<lambda>(n, m'). Inr (Some n, m'))"
| "sfs_call (Rm n) m = rbind (rm_index n m) (\<lambda>m'. Inr (None, m'))"

fun run_calls :: "(bitmap_call \<Rightarrow> 'm \<Rightarrow> (nat option \<times> 'm) result) \<Rightarrow> bitmap_call list \<Rightarrow> 'm \<Rightarrow>
    (nat option list \<times> 'm) result" where
  "run_calls call [] m = Inr ([], m)"
| "run_calls call (c # cs) m =
     rbind (call c m) (\<lambda>(r, m1). rbind (run_calls call cs m1) (\<lambda>(rs, m2). Inr (r # rs, m2)))"

text \<open>The indices the callers pass are those of blocks.\<close>

fun index_ok :: "bitmap_call \<Rightarrow> bool" where
  "index_ok (Force n) \<longleftrightarrow> n < BITMAP_NUM_BLOCKS"
| "index_ok Get \<longleftrightarrow> True"
| "index_ok (Rm n) \<longleftrightarrow> n < BITMAP_NUM_BLOCKS"

subsection \<open>One call\<close>

lemma find_row_unbounded_Inl: "find_row_unbounded m i = Inl e \<longleftrightarrow> e = OutOfBounds \<and> (\<forall>j. i \<le> j \<longrightarrow> j < length m \<longrightarrow> m ! j = 0)"
proof (induction m i rule: find_row_unbounded.induct)
  case (1 m i)
  show ?case
  proof (cases "length m \<le> i")
    case True
    then show ?thesis by (subst find_row_unbounded.simps) auto
  next
    case len: False
    show ?thesis
    proof (cases "m ! i = 0")
      case True
      have "(\<forall>j. i \<le> j \<longrightarrow> j < length m \<longrightarrow> m ! j = 0) \<longleftrightarrow> (\<forall>j. Suc i \<le> j \<longrightarrow> j < length m \<longrightarrow> m ! j = 0)"
        using True by (metis Suc_leD Suc_leI le_neq_implies_less)
      then show ?thesis using 1 [OF len True] True len by (subst find_row_unbounded.simps) auto
    next
      case False
      then show ?thesis using len by (subst find_row_unbounded.simps) auto
    qed
  qed
qed

lemma all_rows_zero: "(\<forall>j<length m. m ! j = 0) \<longleftrightarrow> free_set m = {}"
  using row_zero_iff [of _ m] by (fastforce simp: free_set_def)

text \<open>A row found inside the array is the one the other search finds, whatever lies behind it.\<close>

lemma find_row_agree:
  assumes "find_row_unbounded m i = Inr r" and "length m = 128"
  shows "find_row (m @ [after]) i = Inr (Some r) \<and> r < 128"
  using assms
proof (induction m i rule: find_row_unbounded.induct)
  case (1 m i)
  have len: "i < length m" using "1.prems" by (subst (asm) find_row_unbounded.simps) (auto split: if_splits)
  then have at: "(m @ [after]) ! i = m ! i" by (simp add: nth_append)
  show ?case
  proof (cases "m ! i = 0")
    case True
    then have "find_row_unbounded m (Suc i) = Inr r"
      using "1.prems"(1) len by (subst (asm) find_row_unbounded.simps) auto
    from "1.IH" [OF _ True this "1.prems"(2)] len True at "1.prems"(2)
    show ?thesis by (subst find_row.simps) auto
  next
    case False
    then have "r = i" using "1.prems"(1) len by (subst (asm) find_row_unbounded.simps) auto
    then show ?thesis using False len at "1.prems"(2) by (subst find_row.simps) auto
  qed
qed

lemma get_index_agree:
  assumes "get_index_unbounded m = Inr (n, m')" and "length m = 128"
  shows "get_index (m @ [after]) = Inr (n, m' @ [after]) \<and> length m' = 128"
proof -
  obtain r where r: "find_row_unbounded m 0 = Inr r" using assms(1) by (auto simp: get_index_unbounded_def rbind_Inr_iff)
  from find_row_agree [OF r assms(2)]
  have f: "find_row (m @ [after]) 0 = Inr (Some r)" "r < 128" by blast+
  then have "(m @ [after]) ! r = m ! r" "(m @ [after])[r := x] = m[r := x] @ [after]" for x
    using assms(2) by (simp_all add: nth_append list_update_append)
  then show ?thesis using assms r f by (auto simp: get_index_unbounded_def get_index_def Let_def)
qed

lemma call_agree:
  assumes "module_call c m = Inr (r, m')" and "length m = 128"
  shows "sfs_call c (m @ [after]) = Inr (r, m' @ [after]) \<and> length m' = 128"
proof (cases c)
  case Get
  then show ?thesis using assms get_index_agree by (auto simp: rbind_Inr_iff)
qed (use assms in \<open>auto simp: bitmap_force_set_index_def force_set_index_def bitmap_rm_index_def rm_index_def
    rbind_Inr_iff Let_def nth_append list_update_append split: if_splits\<close>)

lemma call_stops:
  assumes "module_call c m = Inl e" and "length m = 128" and "index_ok c"
  shows "c = Get \<and> e = OutOfBounds \<and> free_set m = {}"
proof (cases c)
  case Get
  then have "find_row_unbounded m 0 = Inl e" using assms(1) by (auto simp: get_index_unbounded_def rbind_Inl_iff Let_def)
  then show ?thesis using Get all_rows_zero [of m] by (simp add: find_row_unbounded_Inl)
qed (use assms in \<open>auto simp: bitmap_force_set_index_def bitmap_rm_index_def BITMAP_NUM_BLOCKS_def Let_def
    less_mult_imp_div_less split: if_splits\<close>)

subsection \<open>Property\<close>

text \<open>
  C21: Both modules do the same. As far as \<^verbatim>\<open>bitmap.c\<close> gets through a sequence of calls, the copies in
  \<^verbatim>\<open>sfs_api.c\<close> return the same numbers, end with the same rows and leave the byte behind
  their array alone; and \<^verbatim>\<open>bitmap.c\<close> stops only at a \<open>get_index\<close> that finds no block free, where it
  leaves its array.
\<close>

theorem bitmap_modules_agree:
  assumes "length m = SIZE" and "list_all index_ok cs"
  shows "case run_calls module_call cs m of
      Inr (rs, m') \<Rightarrow> run_calls sfs_call cs (m @ [after]) = Inr (rs, m' @ [after])
    | Inl e \<Rightarrow> e = OutOfBounds \<and>
        (\<exists>pre rest rs m'. cs = pre @ Get # rest \<and> run_calls module_call pre m = Inr (rs, m') \<and> free_set m' = {})"
  using assms
proof (induction cs arbitrary: m)
  case Nil
  then show ?case by simp
next
  case (Cons c cs)
  have len: "length m = 128" using Cons.prems(1) by (simp add: SIZE_def BITMAP_NUM_BLOCKS_def)
  show ?case
  proof (cases "module_call c m")
    case (Inl e)
    then have c: "c = Get" "e = OutOfBounds" "free_set m = {}" using call_stops [OF Inl len] Cons.prems(2) by simp_all
    have run: "run_calls module_call (c # cs) m = Inl e" using Inl by simp
    have "c # cs = [] @ Get # cs" "run_calls module_call [] m = Inr ([], m)" by (simp_all add: c(1))
    then show ?thesis unfolding run sum.case using c(2,3) by blast
  next
    case (Inr x)
    then obtain r m1 where one: "module_call c m = Inr (r, m1)" by (cases x) simp
    have agree: "sfs_call c (m @ [after]) = Inr (r, m1 @ [after])" "length m1 = 128" using call_agree [OF one len] by blast+
    have ok: "length m1 = SIZE" "list_all index_ok cs"
      using agree(2) Cons.prems(2) by (simp_all add: SIZE_def BITMAP_NUM_BLOCKS_def)
    note IH = Cons.IH [OF ok]
    show ?thesis
    proof (cases "run_calls module_call cs m1")
      case (Inl e)
      then obtain pre rest rs m' where stop: "e = OutOfBounds" "cs = pre @ Get # rest"
        "run_calls module_call pre m1 = Inr (rs, m')" "free_set m' = {}" using IH by auto
      have run: "run_calls module_call (c # cs) m = Inl e" using Inl one by simp
      have "c # cs = (c # pre) @ Get # rest" "run_calls module_call (c # pre) m = Inr (r # rs, m')"
        using stop one by simp_all
      then show ?thesis unfolding run sum.case using stop(1,4) by blast
    next
      case (Inr y)
      then show ?thesis using IH one agree(1) by (cases y) simp
    qed
  qed
qed

theorem bitmap_modules_agree_witness:
  "run_calls sfs_call [Force 0, Get, Rm 5, Get] (bitmap_start @ [7]) =
     Inr ([None, Some 1, None, Some 2], (248 # replicate 127 255) @ [7])"
proof -
  have start: "bitmap_start = 255 # replicate 127 255"
    by (simp add: bitmap_start_def SIZE_def BITMAP_NUM_BLOCKS_def flip: replicate_Suc)
  have bits: "use_bit 255 0 = 254" "ffs 254 = 2" "use_bit 254 (Suc 0) = 252" "free_bit 252 5 = 252" "ffs 252 = 3"
    "use_bit 252 2 = 248" by code_simp+
  have row: "x \<noteq> 0 \<Longrightarrow> find_row_unbounded (x # xs) 0 = Inr 0" for x xs by (subst find_row_unbounded.simps) simp
  have run: "run_calls module_call [Force 0, Get, Rm 5, Get] bitmap_start =
      Inr ([None, Some 1, None, Some 2], 248 # replicate 127 255)"
    by (simp add: start bitmap_force_set_index_def bitmap_rm_index_def get_index_unbounded_def row bits)
  have "length bitmap_start = SIZE" "list_all index_ok [Force 0, Get, Rm 5, Get]"
    by (simp_all add: bitmap_start_def BITMAP_NUM_BLOCKS_def)
  from bitmap_modules_agree [OF this, of 7] show ?thesis by (simp only: run sum.case prod.case)
qed

end
