(* ===== verification/Sfs_Persistence.thy ===== *)
theory Sfs_Persistence
  imports Sfs_Spec
begin

text \<open>
  What of the file system is on the disk: the tables that \<open>mksfs(1)\<close> writes and
  \<open>load_tables\<close>, the part of \<open>mksfs(0)\<close> behind the superblock, reads back; what is left of
  the files when the tables are read again after a session; and how the two ways of
  opening a disk and a disk that is full end.
\<close>

subsection \<open>The image of the tables\<close>

text \<open>The image lies in the blocks below 35, which no command touches.\<close>

lemma bytes_at_agree:
  assumes "agree {..<b} c c'" and "p + n \<le> b * 1024"
  shows "bytes_at c' p n = bytes_at c p n"
proof (rule nth_equalityI)
  fix i assume "i < length (bytes_at c' p n)"
  then have i: "i < n" by simp
  then have "p + i < b * 1024" using assms(2) by simp
  then have "(p + i) div 1024 < b" by (simp add: div_less_iff_less_mult)
  then have "c' ((p + i) div 1024 * 1024 + (p + i) mod 1024) = c ((p + i) div 1024 * 1024 + (p + i) mod 1024)"
    using assms(1) unfolding agree_def by (metis lessThan_iff mod_less_divisor zero_less_numeral)
  then show "bytes_at c' p n ! i = bytes_at c p n ! i" using i by simp
qed simp

lemma image_agree:
  assumes "agree {..<35} c c'" and "image_on_disk c is ds m"
  shows "image_on_disk c' is ds m"
  using assms(2) by (simp add: image_on_disk_def bytes_at_agree [OF assms(1)])

text \<open>What \<open>mksfs(1)\<close> leaves: the invariant, and the fresh tables on the disk.\<close>

lemma mksfs_image:
  assumes "globals_ok s0" and "can_create s0" and "sem s0 \<noteq> Some 0" and "mksfs 1 s0 = Inr s"
  shows "sys_inv s" and "abs_fs s = []" and "globals_ok s" and "inode_table s = replicate 100 fresh_inode"
    and "rootDir s = fresh_dir (rootDir s0)"
    and "image_on_disk (content s) (inode_table s) (rootDir s) (free_bit_map s)"
  using mksfs_sys_inv [OF assms(1-3)] mksfs_fresh_formats [OF assms(1-3)] assms(4)
  by (auto simp: mksfs_def)

lemma reload_after_format:
  assumes "globals_ok s0" and "can_create s0" and "sem s0 \<noteq> Some 0" and fmt: "mksfs 1 s0 = Inr s"
    and "disk_ready t" and "globals_ok t" and "agree {..<35} (content s) (content t)"
  shows "\<exists>t'. load_tables t = Inr t' \<and> inode_table t' = inode_table s \<and> (\<forall>i<73. rootDir t' ! i = rootDir s ! i) \<and>
    take 128 (free_bit_map t') = take 128 (free_bit_map s) \<and> content t' = content t \<and> fd_table t' = fd_table t"
proof -
  note f = mksfs_image [OF assms(1-3) fmt]
  have l: "length (inode_table s) = 100" "length (rootDir s) = 100" "length (free_bit_map s) = 129"
    "\<forall>d\<in>set (rootDir s). dirent_fits d"
    using f(3) by (simp_all add: globals_ok_def)
  have "\<forall>i\<in>set (inode_table s). inode_fits i" by (simp add: f(4))
  from load_tables_image [OF assms(5,6) image_agree [OF assms(7) f(6)] l(1) this l(2,4,3)]
  show ?thesis by blast
qed

subsection \<open>A bitmap with fewer free blocks\<close>

lemma sys_inv_bitmap:
  assumes "sys_inv s" and "length m = 129" and "free_set m \<subseteq> free_set (free_bit_map s)"
  shows "sys_inv ((upd_io u (content s) f s)\<lparr>free_bit_map := m\<rparr>)" (is "sys_inv ?s")
    and "abs_fs ((upd_io u (content s) f s)\<lparr>free_bit_map := m\<rparr>) = abs_fs s"
proof -
  note inv = sys_invD [OF assms(1)] and fs = fs_invD [OF sys_invD(1) [OF assms(1)]]
  have names: "dir_names ?s = dir_names s" by (simp add: dir_names_def)
  have g: "globals_ok ?s" using fs(2) assms(2) by (simp add: globals_ok_def)
  have "disk_ready ?s" using fs(1) by (simp add: disk_ready_def upd_io_def)
  have "fs_inv ?s"
    unfolding fs_inv_def
  proof (intro conjI allI impI)
    fix k :: nat assume k: "k < 100"
    show "own (content ?s) (inode_table ?s ! k) \<inter> free_set (free_bit_map ?s) = {}"
      using fs(7) [OF k] assms(3) by auto
  qed (use fs g assms(3) \<open>disk_ready ?s\<close> in auto)
  moreover have "dir_ok ?s" using inv(2) g by (simp add: dir_ok_def names)
  moreover have "sem_ready ?s" using inv(3) by (simp add: sem_ready_def)
  ultimately show "sys_inv ?s" using inv(4,5) unfolding sys_inv_def names by simp
  show "abs_fs ?s = abs_fs s" unfolding abs_fs_def names by (simp add: abs_file_def names file_data_def)
qed

lemma demo_invD: "disk_ready demo_disk" "globals_ok demo_disk"
  using fs_invD(1,2) [OF sys_invD(1) [OF demo_disk(1)]] .

subsection \<open>Properties\<close>

text \<open>C20: What \<open>mksfs(1)\<close> has written reads back in any process that has the disk: the inode table, the
  part of the bitmap that stands for the 1024 blocks, and the first 73 entries of the directory, the ones whose
  image fits into the two blocks that are transferred.\<close>

theorem format_reload:
  assumes "globals_ok s0" and "can_create s0" and "sem s0 \<noteq> Some 0" and "mksfs 1 s0 = Inr s"
    and "disk_ready t" and "globals_ok t" and "content t = content s" and "i < 73"
  shows "\<exists>t'. load_tables t = Inr t' \<and> inode_table t' = inode_table s \<and> rootDir t' ! i = rootDir s ! i \<and>
    take 128 (free_bit_map t') = take 128 (free_bit_map s)"
  using reload_after_format [OF assms(1-6)] assms(7,8) by auto

theorem format_reload_witness:
  "\<exists>t'. load_tables (demo_disk\<lparr>inode_table := replicate 100 (fresh_inode\<lparr>isize := 7\<rparr>)\<rparr>) = Inr t' \<and>
     inode_table t' = inode_table demo_disk \<and> rootDir t' ! 72 = rootDir demo_disk ! 72 \<and>
     take 128 (free_bit_map t') = take 128 (free_bit_map demo_disk)"
proof -
  let ?t = "demo_disk\<lparr>inode_table := replicate 100 (fresh_inode\<lparr>isize := 7\<rparr>)\<rparr>"
  have "disk_ready ?t" "globals_ok ?t" using demo_invD by (simp_all add: disk_ready_def globals_ok_def)
  from format_reload [OF demo_boot_ok demo_disk(4) this, of 72] show ?thesis by simp
qed

text \<open>C4: No command writes the tables back: after any admissible session on a formatted disk, the tables on the
  disk are those of the empty file system, and a process that reads them sees no file, whatever was
  created and written.\<close>

theorem tables_never_written:
  assumes "globals_ok s0" and "can_create s0" and "sem s0 \<noteq> Some 0" and "mksfs 1 s0 = Inr s"
    and "admissible_all cs s"
  shows "\<exists>outs s' t'. exec_all cs s = Inr (outs, s') \<and> aexec_all cs [] = (outs, abs_fs s') \<and>
    load_tables s' = Inr t' \<and> inode_table t' = replicate 100 fresh_inode \<and> abs_fs t' = [] \<and> content t' = content s'"
proof -
  note f = mksfs_image [OF assms(1-4)]
  obtain outs s' where run: "exec_all cs s = Inr (outs, s')" "sys_inv s'" "aexec_all cs [] = (outs, abs_fs s')"
    "agree {..<35} (content s) (content s')"
    using exec_all_refines [OF f(1) assms(5)] f(2) by auto
  note inv = fs_invD(1,2) [OF sys_invD(1) [OF run(2)]]
  obtain t' where t': "load_tables s' = Inr t'" "inode_table t' = inode_table s" "\<forall>i<73. rootDir t' ! i = rootDir s ! i"
    "content t' = content s'"
    using reload_after_format [OF assms(1-4) inv run(4)] by blast
  have "rootDir t' ! 0 = fresh_dir (rootDir s0) ! 0" using t'(3) f(5) by simp
  moreover have fits: "\<forall>d\<in>set (rootDir s0). dirent_fits d" "length (rootDir s0) = 100"
    using assms(1) by (simp_all add: globals_ok_def)
  ultimately have "cstr (name (rootDir t' ! 0)) = []"
    using arg_cong [OF entry_names_fresh(1) [OF fits(1)], of "\<lambda>l. l ! 0"] by (simp add: nth_entry_names)
  then have "dir_names t' = []" by (cases "rootDir t'") (simp_all add: dir_names_def entry_names_def)
  then have "abs_fs t' = []" by (simp add: abs_fs_def)
  then show ?thesis using run t' f(4) by auto
qed

theorem tables_never_written_witness:
  "\<exists>outs s' t'. exec_all demo_cmds demo_disk = Inr (outs, s') \<and> aexec_all demo_cmds [] = (outs, abs_fs s') \<and>
    load_tables s' = Inr t' \<and> inode_table t' = replicate 100 fresh_inode \<and> abs_fs t' = [] \<and> content t' = content s'"
  using tables_never_written [OF demo_boot_ok demo_disk(4) demo_admissible] .

text \<open>C32: A disk that exists cannot be opened again: \<open>mksfs(0)\<close> reads a whole block into the 40 bytes it has
  allocated for the superblock, and when there is no disk file it reads through the null \<open>fp\<close>.\<close>

theorem mksfs_reopen_stops: "mksfs 0 s = Inl (if file_exists s then OutOfBounds else NullDeref)"
  by (simp add: mksfs_def mksfs_old_result)

text \<open>C23: A write that needs more blocks than are free returns -1 and leaves every file as it was, in a state
  that satisfies the invariant; but the blocks it had taken are not given back, so that no block is free
  afterwards.\<close>

theorem disk_full_leaks:
  assumes "sys_inv s" and "is_open (abs_fs s) k" and "k < 100"
    and "apos (abs_fs s ! k) + length bs \<le> MAX_FILE_SIZE"
    and "nblocks (length (adata (abs_fs s ! k))) * 1024 < apos (abs_fs s ! k) + length bs"
    and "card (free_set (free_bit_map s)) < new_blocks (apos (abs_fs s ! k) + length bs) (nblocks (length (adata (abs_fs s ! k))))"
  shows "\<exists>s'. exec (Write k bs) s = Inr ((-1, []), s') \<and> sys_inv s' \<and> abs_fs s' = abs_fs s \<and>
    free_set (free_bit_map s') = {}"
proof -
  note inv = sys_invD [OF assms(1)]
  have "k < length (abs_fs s)" using assms(2) by (simp add: is_open_def)
  then have a: "apos (abs_fs s ! k) = rwptr (fd_table s ! k)" "length (adata (abs_fs s ! k)) = isize (inode_table s ! k)"
    by (simp_all add: abs_file_def)
  have "mode (inode_table s ! k) \<noteq> 1" using is_open_abs [OF assms(1,3)] assms(2) by simp
  from fwrite_full [OF inv(1,3) assms(3) this, of "length bs" bs]
  obtain u f m where "sfs_fwrite (int k) bs (int (length bs)) s = Inr (-1, (upd_io u (content s) f s)\<lparr>free_bit_map := m\<rparr>)"
    "length m = 129" "free_set m = {}"
    using assms(4-6) unfolding a MAX_FILE_SIZE_def by blast
  then show ?thesis using sys_inv_bitmap [OF assms(1), of m u f] by simp
qed

definition demo_tight :: sfs where
  "demo_tight = (upd_io (unk demo_open) (content demo_open) (fpos demo_open) demo_open)
     \<lparr>free_bit_map := (replicate 129 0)[100 := 1]\<rparr>"

theorem disk_full_leaks_witness:
  "\<exists>s'. exec (Write 0 (replicate 1500 7)) demo_tight = Inr ((-1, []), s') \<and> abs_fs s' = abs_fs demo_open \<and>
     free_set (free_bit_map demo_tight) = {800} \<and> free_set (free_bit_map s') = {}"
proof -
  let ?m = "(replicate 129 0)[100 := 1 :: byte]"
  have m: "free_set ?m = {800}" by (simp add: free_set_row)
  have "800 \<in> free_blocks demo_open" by (simp add: demo_open(3))
  then have sub: "free_set ?m \<subseteq> free_set (free_bit_map demo_open)" by (simp add: m free_blocks_def)
  note t = sys_inv_bitmap [OF demo_open(1) _ sub, of "unk demo_open" "fpos demo_open", folded demo_tight_def, simplified]
  have b: "free_set (free_bit_map demo_tight) = {800}" by (simp add: demo_tight_def m)
  have "new_blocks 1500 0 = 2" by (simp add: new_blocks_def)
  then have "\<exists>s'. exec (Write 0 (replicate 1500 7)) demo_tight = Inr ((-1, []), s') \<and> sys_inv s' \<and>
      abs_fs s' = abs_fs demo_tight \<and> free_set (free_bit_map s') = {}"
    using t b by (intro disk_full_leaks) (simp_all add: demo_open(2) is_open_def MAX_FILE_SIZE_def nblocks_def)
  then show ?thesis using t(2) b by auto
qed

end
