(* ===== verification/Sfs_Large.thy ===== *)
theory Sfs_Large
  imports Sfs_Spec
begin

text \<open>
  Writes behind the direct blocks that the refinement leaves out. In a file of more than twelve blocks
  \<open>sfs_fwrite\<close> knows only part of the block numbers: the bytes behind them in \<open>blockNums\<close> are
  what \<open>malloc\<close> returned. The lemmas follow such a number through \<open>write_partblock\<close>: as soon as it
  is not a block of the disk, both transfers are refused and nobody looks at their results.
\<close>

subsection \<open>A number that is not a block\<close>

lemma int_at_junk:
  assumes "4 * j + 4 \<le> length bn" and "0 < unat (bn ! (4 * j + 3))" and "unat (bn ! (4 * j + 3)) < 127"
  shows "\<exists>v. int_at bn (int j) = Inr v \<and> 1024 \<le> v \<and> v < 2147483647"
proof -
  have "slice bn (4 * j) 4 = [bn ! (4 * j), bn ! (4 * j + 1), bn ! (4 * j + 2), bn ! (4 * j + 3)]"
    using assms(1) by (intro nth_equalityI) (auto simp: slice_def nth_Cons numeral_eq_Suc less_Suc_eq split: nat.splits)
  moreover have "unat (bn ! (4 * j)) < 256" "unat (bn ! (4 * j + 1)) < 256" "unat (bn ! (4 * j + 2)) < 256"
    using unsigned_less [where 'a = nat and w = "bn ! (4 * j)"] unsigned_less [where 'a = nat and w = "bn ! (4 * j + 1)"]
      unsigned_less [where 'a = nat and w = "bn ! (4 * j + 2)"] by simp_all
  ultimately have v: "1024 \<le> le_nat (slice bn (4 * j) 4)" "le_nat (slice bn (4 * j) 4) < 2147483647"
    using assms(2,3) by simp_all
  then have "s32 (int (le_nat (slice bn (4 * j) 4))) = int (le_nat (slice bn (4 * j) 4))" by simp
  then show ?thesis using v assms(1) by (auto simp: int_at_def)
qed

lemma write_partblock_refused:
  assumes "disk_ready s" and "1024 \<le> b" and "b < 2147483647" and "off + n \<le> 1024" and "n \<le> length data"
  shows "\<exists>u. write_partblock b data off n s = Inr (s\<lparr>unk := u\<rparr>)"
proof -
  have b: "s32 (b + 1) > 1024" using assms(2,3) by simp
  let ?s1 = "s\<lparr>unk := sdrop 1024 (unk s)\<rparr>" and ?s2 = "s\<lparr>unk := sdrop 2048 (unk s)\<rparr>"
  have "read_blocks b 1 (stake 1024 (unk s)) 0 ?s1 = Inr (-1, stake 1024 (unk s), ?s2)"
    using b disk_ready_fields [OF assms(1)] by (simp add: read_blocks_def indet_def sdrop_add)
  moreover have "write_blocks b 1 src ?s2 = Inr (-1, ?s2)" for src
    using b disk_ready_fields [OF assms(1)] by (simp add: write_blocks_def)
  ultimately show ?thesis
    using assms(4,5) by (auto simp: write_partblock_def indet_def store_mem_def)
qed

text \<open>A write of one block that ends in such a number still counts its bytes as written.\<close>

lemma write_helper_refused:
  assumes "disk_ready s" and "int_at bn (int j) = Inr b" and "1024 \<le> b" and "b < 2147483647"
    and "off + len \<le> 1024" and "len \<le> length buf"
  shows "\<exists>u. write_helper buf (int len) bn off (int j) s = Inr (len, s\<lparr>unk := u\<rparr>)"
proof -
  obtain u where w: "write_partblock b (take len buf) off len s = Inr (s\<lparr>unk := u\<rparr>)"
    using write_partblock_refused [OF assms(1,3,4,5), of "take len buf"] assms(6) by auto
  have "min len (1024 - off) = len" using assms(5) by simp
  moreover have "write_rest len len [] bn (int j + 1) t = Inr (len, t)" for t by (subst write_rest.simps) simp
  ultimately show ?thesis using w assms(2,6) by (auto simp: write_helper_def Let_def)
qed

text \<open>A file that gets longer inside its last block shows what the block holds there.\<close>

lemma inode_size_fields:
  assumes "nblocks z = nblocks (isize n)"
  shows "own c (n\<lparr>isize := z\<rparr>) = own c n" and "z \<le> 274432 \<Longrightarrow> blocks_ok c n \<Longrightarrow> blocks_ok c (n\<lparr>isize := z\<rparr>)"
    and "isize n \<le> z \<Longrightarrow> inode_data c (n\<lparr>isize := z\<rparr>) = inode_data c n @ file_at c (block_of c n) (isize n) (z - isize n)"
proof -
  have b: "block_of c (n\<lparr>isize := z\<rparr>) = block_of c n" by (rule ext) (simp add: block_of_def)
  show o: "own c (n\<lparr>isize := z\<rparr>) = own c n" using assms by (simp add: own_def b)
  show "blocks_ok c (n\<lparr>isize := z\<rparr>)" if "z \<le> 274432" "blocks_ok c n" using assms that unfolding blocks_ok_def b o by simp
  show "inode_data c (n\<lparr>isize := z\<rparr>) = inode_data c n @ file_at c (block_of c n) (isize n) (z - isize n)" if "isize n \<le> z"
    using that file_at_append [of c "block_of c n" 0 "isize n" "z - isize n"] by (simp add: inode_data_def b)
qed

lemma fs_inv_size:
  assumes "fs_inv s" and "k < 100" and "nblocks z = nblocks (isize (inode_table s ! k))" and "z \<le> 274432"
  shows "fs_inv (upd_inode k (\<lambda>n. n\<lparr>isize := z\<rparr>) s)"
proof -
  note inv = fs_invD [OF assms(1)]
  let ?t = "inode_table (upd_inode k (\<lambda>n. n\<lparr>isize := z\<rparr>) s)"
  have t: "own (content s) (?t ! j) = own (content s) (inode_table s ! j)"
    "blocks_ok (content s) (inode_table s ! j) \<Longrightarrow> blocks_ok (content s) (?t ! j)" for j
    using inv(3) assms(2) inode_size_fields(1,2) [OF assms(3)] assms(4) by (cases "j = k"; simp)+
  show ?thesis using assms(1) t unfolding fs_inv_def by (simp add: globals_ok_fields)
qed

lemma grown_in_block:
  assumes "sys_inv s" and "k < length (dir_names s)" and "nblocks z = nblocks (isize (inode_table s ! k))" and "z \<le> 274432"
    and "isize (inode_table s ! k) \<le> z" and "e < 4294967296"
    and "s' = upd_fd k (\<lambda>d. d\<lparr>rwptr := e\<rparr>) (upd_inode k (\<lambda>n. n\<lparr>isize := z\<rparr>) (upd_io u (content s) f s))"
  shows "sys_inv s'"
    and "\<exists>d. length d = z - isize (inode_table s ! k) \<and>
      abs_fs s' = (abs_fs s)[k := (abs_fs s ! k)\<lparr>adata := adata (abs_fs s ! k) @ d, apos := e\<rparr>]"
proof -
  note inv = sys_invD [OF assms(1)]
  note fs = fs_invD [OF inv(1)]
  have k: "k < 100" using assms(2) length_dir_names [OF inv(2)] by simp
  let ?i = "upd_io u (content s) f s"
  let ?g = "upd_inode k (\<lambda>n. n\<lparr>isize := z\<rparr>) ?i"
  have names: "dir_names s' = dir_names s" by (simp add: assms(7) dir_names_def)
  have i: "fs_inv ?i" using inv(1) by (simp add: fs_inv_def globals_ok_def)
  have g: "fs_inv ?g" using fs_inv_size [OF i k, of z] assms(3,4) by simp
  have fs': "fs_inv s'" unfolding assms(7)
    using fs_invD(1,2) [OF g] by (intro fs_inv_cong [OF g]) (simp_all add: globals_ok_fields)
  moreover have "dir_ok s'" using inv(2) fs_invD(2) [OF fs'] names by (simp add: dir_ok_def assms(7))
  moreover have "sem_ready s'" using inv(3) by (simp add: assms(7) sem_ready_def)
  ultimately show "sys_inv s'"
    using names k assms(2,6) fs(3,4)
    by (intro sys_inv_step [OF assms(1), where k = k and s' = s']) (simp_all add: assms(7))
  let ?d = "file_at (content s) (block_of (content s) (inode_table s ! k)) (isize (inode_table s ! k)) (z - isize (inode_table s ! k))"
  have "file_data s' k = file_data s k @ ?d"
    using k fs(3) inode_size_fields(3) [OF assms(3,5)] by (simp add: file_data_def assms(7))
  moreover have "file_data s' j = file_data s j" if "j \<noteq> k" for j
    using that by (simp add: file_data_def assms(7))
  ultimately have "abs_fs s' = (abs_fs s)[k := (abs_fs s ! k)\<lparr>adata := adata (abs_fs s ! k) @ ?d, apos := e\<rparr>]"
    using k assms(2) fs(3,4) names by (intro abs_fs_eqI) (simp_all add: abs_file_def assms(7))
  then show "\<exists>d. length d = z - isize (inode_table s ! k) \<and>
      abs_fs s' = (abs_fs s)[k := (abs_fs s ! k)\<lparr>adata := adata (abs_fs s ! k) @ d, apos := e\<rparr>]"
    by (intro exI [of _ ?d]) simp
qed

subsection \<open>A lost write\<close>

text \<open>The write touches one block that the file has, and its number lies behind what was copied.\<close>

definition lost :: "sfs \<Rightarrow> nat \<Rightarrow> nat \<Rightarrow> bool" where
  "lost s k len \<longleftrightarrow>
     (let q = rwptr (fd_table s ! k); nb = nblocks (isize (inode_table s ! k)); b = unk s !! (4 * (q div 1024) + 3) in
      k < 100 \<and> mode (inode_table s ! k) \<noteq> 1 \<and> 0 < len \<and> q \<le> isize (inode_table s ! k) \<and> q mod 1024 + len \<le> 1024 \<and>
      q + len \<le> nb * 1024 \<and> nb + 36 \<le> 4 * (q div 1024) + 3 \<and> 0 < unat b \<and> unat b < 127)"

lemma fwrite_lost:
  assumes "sys_inv s" and "lost s k len" and "len \<le> length buf"
  defines "q \<equiv> rwptr (fd_table s ! k)" and "z \<equiv> isize (inode_table s ! k)"
  shows "\<exists>u f s'. sfs_fwrite (int k) buf (int len) s = Inr (int len, s') \<and>
    s' = upd_fd k (\<lambda>d. d\<lparr>rwptr := q + len\<rparr>) (upd_inode k (\<lambda>n. n\<lparr>isize := max z (q + len)\<rparr>) (upd_io u (content s) f s))"
proof -
  let ?n = "inode_table s ! k" and ?j = "q div 1024"
  have L: "k < 100" "mode ?n \<noteq> 1" "0 < len" "q \<le> z" "q mod 1024 + len \<le> 1024" "q + len \<le> nblocks z * 1024"
    "nblocks z + 36 \<le> 4 * ?j + 3" "0 < unat (unk s !! (4 * ?j + 3))" "unat (unk s !! (4 * ?j + 3)) < 127"
    using assms(2) by (simp_all add: lost_def Let_def q_def z_def)
  note inv = sys_invD [OF assms(1)]
  note fs = fs_invD [OF inv(1)]
  note b = blocks_okD [OF fs(6) [OF L(1)], folded z_def]
  obtain v where v: "disk_access s" "sem s = Some (Suc v)" "sem_wait s = Inr (s\<lparr>sem := Some v\<rparr>)"
    using inv(3) by (rule sem_readyE)
  let ?s1 = "s\<lparr>sem := Some v\<rparr>"
  have "q < nblocks z * 1024" using L(3,6) by linarith
  then have j: "?j < nblocks z" by (simp add: div_less_iff_less_mult)
  then have at: "4 * ?j + 4 \<le> 1072" using b(3) by linarith
  have "indirectPointer ?n \<noteq> 0" using b(6) j L(7) by linarith
  moreover have "disk_ready ?s1" "blocks_ok (content ?s1) (inode_table ?s1 ! k)" using fs(1) fs(6) [OF L(1)] by simp_all
  ultimately obtain bn ip dp u f where bn: "fwrite_blocknums k ?s1 = Inr (bn, nblocks z, ip, dp, upd_io u (content s) f ?s1)"
      "length bn = 1072" "bn ! (4 * ?j + 3) = unk s !! (4 * ?j + 3)"
    using fwrite_blocknums_ok [of ?s1 k] L(7) at by (auto simp: z_def)
  let ?s2 = "upd_io u (content s) f ?s1"
  have grow: "fwrite_grow k (q + len) bn (nblocks z) ip dp flag ?s2 = Inr (Some bn, ?s2)" for flag
    using L(6) by (simp add: fwrite_grow_def)
  obtain w where w: "int_at bn (int ?j) = Inr w" "1024 \<le> w" "w < 2147483647"
    using int_at_junk [of ?j bn] at bn(2,3) L(8,9) by auto
  have "disk_ready ?s2" using fs(1) by simp
  then obtain u' where wh: "write_helper buf (int len) bn (q mod 1024) (int ?j) ?s2 = Inr (len, ?s2\<lparr>unk := u'\<rparr>)"
    using write_helper_refused [OF _ w L(5) assms(3)] by blast
  have "nblocks z * 1024 \<le> 274432" using b(3) by linarith
  then have sz: "q + len \<le> 274432" using L(6) by linarith
  let ?s4 = "?s2\<lparr>unk := u'\<rparr>"
  have "sfs_fwrite (int k) buf (int len) s = Inr (int len, (upd_fd k (\<lambda>d. d\<lparr>rwptr := q + len\<rparr>)
      (upd_inode k (\<lambda>n. n\<lparr>isize := max (isize n) (q + len)\<rparr>) ?s4))\<lparr>sem := Some (Suc v)\<rparr>)"
    using v L(1,2) bn(1) grow wh sz unfolding q_def by (intro fwrite_run) simp_all
  moreover have "(upd_fd k (\<lambda>d. d\<lparr>rwptr := q + len\<rparr>) (upd_inode k (\<lambda>n. n\<lparr>isize := max (isize n) (q + len)\<rparr>) ?s4))\<lparr>sem := Some (Suc v)\<rparr> =
      upd_fd k (\<lambda>d. d\<lparr>rwptr := q + len\<rparr>) (upd_inode k (\<lambda>n. n\<lparr>isize := max z (q + len)\<rparr>) (upd_io u' (content s) f s))"
    using v(2) by (simp add: upd_io_def upd_fd_def upd_inode_def z_def)
  ultimately show ?thesis by metis
qed

lemma nblocks_full: "m \<le> b * 1024 \<Longrightarrow> nblocks m \<le> b"
  using nblocks_mono [of m "b * 1024"] by (simp add: nblocks_def)

lemma lost_blocks:
  assumes "lost s k len"
  shows "nblocks (max (isize (inode_table s ! k)) (rwptr (fd_table s ! k) + len)) = nblocks (isize (inode_table s ! k))"
proof (rule antisym)
  let ?z = "isize (inode_table s ! k)"
  have "max ?z (rwptr (fd_table s ! k) + len) \<le> nblocks ?z * 1024"
    using assms nblocks_bounds(1) [of ?z] by (simp add: lost_def Let_def)
  then show "nblocks (max ?z (rwptr (fd_table s ! k) + len)) \<le> nblocks ?z" by (rule nblocks_full)
qed (rule nblocks_mono, simp)

lemma lost_size:
  assumes "sys_inv s" and "lost s k len"
  shows "max (isize (inode_table s ! k)) (rwptr (fd_table s ! k) + len) \<le> 274432"
proof -
  have "k < 100" "rwptr (fd_table s ! k) + len \<le> nblocks (isize (inode_table s ! k)) * 1024"
    using assms(2) by (simp_all add: lost_def Let_def)
  then show ?thesis using blocks_okD(2,3) [OF fs_invD(6) [OF sys_invD(1) [OF assms(1)]], of k] by auto
qed

lemma lost_write:
  assumes "sys_inv s" and "lost s k len" and "len \<le> length buf"
  shows "\<exists>s' d. sfs_fwrite (int k) buf (int len) s = Inr (int len, s') \<and> sys_inv s' \<and> content s' = content s \<and>
    length d = apos (abs_fs s ! k) + len - length (adata (abs_fs s ! k)) \<and>
    abs_fs s' = (abs_fs s)[k := (abs_fs s ! k)\<lparr>adata := adata (abs_fs s ! k) @ d, apos := apos (abs_fs s ! k) + len\<rparr>]"
proof -
  let ?q = "rwptr (fd_table s ! k)" and ?z = "isize (inode_table s ! k)"
  obtain u f s' where s': "sfs_fwrite (int k) buf (int len) s = Inr (int len, s')"
    "s' = upd_fd k (\<lambda>d. d\<lparr>rwptr := ?q + len\<rparr>) (upd_inode k (\<lambda>n. n\<lparr>isize := max ?z (?q + len)\<rparr>) (upd_io u (content s) f s))"
    using fwrite_lost [OF assms] by blast
  have k: "k < length (dir_names s)" using assms(2) open_index [OF assms(1)] by (simp add: lost_def Let_def)
  have m: "max ?z (?q + len) \<le> 274432" using lost_size [OF assms(1,2)] .
  have a: "apos (abs_fs s ! k) = ?q" "length (adata (abs_fs s ! k)) = ?z" using k by (simp_all add: abs_file_def)
  note g = grown_in_block [OF assms(1) k lost_blocks [OF assms(2)] m max.cobounded1 _ s'(2)]
  have "?q + len < 4294967296" "max ?z (?q + len) - ?z = ?q + len - ?z" using m by auto
  then show ?thesis using g s' unfolding a by auto
qed

subsection \<open>Property\<close>

text \<open>
  C22: A write can be lost. In a file of more than twelve blocks, a write into a block whose number lies
  behind the bytes that \<open>sfs_fwrite\<close> has copied goes to the number that the uninitialised memory happens to
  hold; if that is no block of the disk, the call returns the full length and moves the position, but no byte
  of the disk changes: the old contents stay, and if the file gets longer, whatever its last block
  held there becomes part of it.
\<close>

theorem write_lost:
  assumes "sys_inv s" and "lost s k len" and "len \<le> length buf"
  shows "\<exists>s' d. sfs_fwrite (int k) buf (int len) s = Inr (int len, s') \<and> sys_inv s' \<and> content s' = content s \<and>
    length d = apos (abs_fs s ! k) + len - length (adata (abs_fs s ! k)) \<and>
    abs_fs s' = (abs_fs s)[k := (abs_fs s ! k)\<lparr>adata := adata (abs_fs s ! k) @ d, apos := apos (abs_fs s ! k) + len\<rparr>]"
  using lost_write [OF assms] .

text \<open>A file of 13 blocks, positioned at the last of them, in memory that holds 64 everywhere.\<close>

definition demo_large :: sfs where
  "demo_large = (run_cmd (Seek 0 12288) (run_cmd (Write 0 (replicate 13000 7)) demo_open))\<lparr>unk := sconst 64\<rparr>"

lemma demo_large:
  shows "sys_inv demo_large"
    and "abs_fs demo_large = [\<lparr>aname = demo_name, adata = replicate 13000 7, apos = 12288, aopen = True\<rparr>]"
proof -
  let ?big = "replicate 13000 (7 :: byte)" and ?s1 = "run_cmd (Write 0 (replicate 13000 7)) demo_open"
  have "card (free_blocks demo_open) = 989" by (simp add: demo_open(3))
  moreover have "blocks_needed (inode_table demo_open ! 0) 13000 \<le> 14"
    by (simp add: blocks_needed_def nblocks_def demo_open_fields(1))
  ultimately have "writable demo_open 0 13000"
    using demo_open_fields by (auto simp: writable_def Let_def)
  then have adm: "admissible (Write 0 ?big) demo_open" by simp
  note w = run_cmd [OF demo_open(1) adm]
  have "snd (aexec (Write 0 ?big) (abs_fs demo_open)) =
      [\<lparr>aname = demo_name, adata = ?big, apos = 13000, aopen = True\<rparr>]"
    by (simp add: demo_open(2) awrite_cmd_def is_open_def MAX_FILE_SIZE_def overwrite_def del: replicate.simps)
  then have a1: "abs_fs ?s1 = [\<lparr>aname = demo_name, adata = ?big, apos = 13000, aopen = True\<rparr>]"
    using arg_cong [OF w(2), of snd] by simp
  have "length (dir_names ?s1) = 1" using length_abs_fs [of ?s1] by (simp add: a1)
  then have adm2: "admissible (Seek 0 12288) ?s1" by simp
  note sk = run_cmd [OF w(1) adm2]
  show "sys_inv demo_large" using sk(1) by (simp add: demo_large_def sys_inv_unk)
  show "abs_fs demo_large = [\<lparr>aname = demo_name, adata = ?big, apos = 12288, aopen = True\<rparr>]"
    using arg_cong [OF sk(2), of snd] by (simp add: demo_large_def sys_inv_unk a1)
qed

theorem write_lost_witness:
  "\<exists>s' d. sfs_fwrite (int 0) [1, 2, 3] (int 3) demo_large = Inr (int 3, s') \<and> sys_inv s' \<and>
    content s' = content demo_large \<and>
    length d = apos (abs_fs demo_large ! 0) + 3 - length (adata (abs_fs demo_large ! 0)) \<and>
    abs_fs s' = (abs_fs demo_large)[0 := (abs_fs demo_large ! 0)\<lparr>adata := adata (abs_fs demo_large ! 0) @ d,
      apos := apos (abs_fs demo_large ! 0) + 3\<rparr>]"
proof -
  have f: "isize (inode_table demo_large ! 0) = 13000" "rwptr (fd_table demo_large ! 0) = 12288"
    "mode (inode_table demo_large ! 0) \<noteq> 1"
    using abs_fsD [OF demo_large(2), of 0] by simp_all
  have "unk demo_large = sconst 64" by (simp add: demo_large_def)
  then have "lost demo_large 0 3" using f by (simp add: lost_def nblocks_def)
  then show ?thesis by (rule write_lost [OF demo_large(1)]) simp
qed

end
