(* ===== verification/Sfs_Mytest.thy ===== *)
theory Sfs_Mytest
  imports Sfs_Large Sfs_Space Sfs_Typed
begin

text \<open>
  \<^verbatim>\<open>sfs_mytest.c\<close>, the program that appends five bytes 2662 times to a file and reads back where
  the file leaves its direct blocks. The first 2457 writes fill twelve blocks (\<open>Sfs_Space\<close>), the next one
  takes the indirect block (\<open>Sfs_Spec\<close>), and the others are lost (\<open>Sfs_Large\<close>) when the
  memory \<open>malloc\<close> returns is not zero; \<open>Sfs_Typed\<close> says that it stays so.
\<close>

subsection \<open>The program\<close>

text \<open>Both arrays are initialised; \<open>wbuf\<close> has no room for a terminating NUL, which nobody but \<open>printf\<close> needs.\<close>

definition name3 :: "byte list" where
  "name3 = bytes_of ''file3.txt'' @ replicate 11 0"

definition wbuf :: "byte list" where
  "wbuf = bytes_of ''abcde''"



subsection \<open>Its phases\<close>

definition file3 :: "byte list" where
  "file3 = bytes_of ''file3.txt''"

lemma file3: "legal_name file3" "0 \<notin> set file3" "terminated name3" "cstr name3 = file3" "length name3 = 20" "length file3 = 9"
  by code_simp+

lemma length_wbuf [simp]: "length wbuf = 5"
  by code_simp

definition rep :: "nat \<Rightarrow> byte list" where
  "rep m = concat (replicate m wbuf)"

lemma length_rep [simp]: "length (rep m) = 5 * m"
  by (induction m) (simp_all add: rep_def)

















subsection \<open>Property\<close>



end
