(* ===== verification/Sfs_Test2.thy ===== *)
theory Sfs_Test2
  imports Sfs_Space
begin

text \<open>
  The test program \<^verbatim>\<open>sfs_test2.c\<close>, a client of the file system with random names, sizes and
  chunks, and \<^verbatim>\<open>sfs_test.c\<close>, an earlier version of it. No run gets behind the \<open>mksfs(0)\<close> in line 312,
  but what follows is modelled too. The two arrays for names have
  no room for the NUL that ends them; \<open>room\<close> is the number of bytes the compiler leaves
  unused behind such an array. Messages are not modelled, the count of errors is.
\<close>

subsection \<open>State\<close>

text \<open>
  \<open>rnd\<close> is what \<open>rand\<close> returns from now on. No element of \<open>fds\<close> and \<open>filesize\<close> is read before it is
  written; a name that has not been written is \<open>[]\<close>, which no string function accepts. The array
  \<open>fixedbuf\<close> is given its indeterminate bytes at its first use.
\<close>

record test2 =
  fs :: sfs
  rnd :: "nat stream"
  fds :: "int list"
  fnames :: "byte list list"
  filesize :: "int list"
  fixedbuf :: "byte list"
  error_count :: nat

definition MAX_FNAME_LENGTH :: nat where
  "MAX_FNAME_LENGTH = 20"

definition MAX_FD :: nat where
  "MAX_FD = 100"

definition MAX_BYTES :: int where
  "MAX_BYTES = 30000"

definition MIN_BYTES :: int where
  "MIN_BYTES = 10000"

definition test_str :: "byte list" where
  "test_str = bytes_of ''The quick brown fox jumps over the lazy dog.'' @ [10]"

definition start2 :: "nat stream \<Rightarrow> sfs \<Rightarrow> test2" where
  "start2 r s = \<lparr>fs = s, rnd = r, fds = replicate MAX_FD 0, fnames = replicate MAX_FD [], filesize = replicate MAX_FD 0,
     fixedbuf = [], error_count = 0\<rparr>"

definition next_rand :: "test2 \<Rightarrow> nat \<times> test2" where
  "next_rand d = (shd (rnd d), d\<lparr>rnd := stl (rnd d)\<rparr>)"

definition sys :: "(sfs \<Rightarrow> ('a \<times> sfs) result) \<Rightarrow> test2 \<Rightarrow> ('a \<times> test2) result" where
  "sys f d = rbind (f (fs d)) (\<lambda>(r, s). Inr (r, d\<lparr>fs := s\<rparr>))"

definition fails :: "bool \<Rightarrow> test2 \<Rightarrow> test2" where
  "fails b d = (if b then d\<lparr>error_count := Suc (error_count d)\<rparr> else d)"

subsection \<open>Random names\<close>

text \<open>The loop over an array: a period at \<open>dot\<close>, letters elsewhere.\<close>

fun fill_name :: "nat list \<Rightarrow> nat \<Rightarrow> byte list \<Rightarrow> test2 \<Rightarrow> byte list \<times> test2" where
  "fill_name [] dot arr d = (arr, d)"
| "fill_name (i # is) dot arr d =
     (if i \<noteq> dot then let (r, d1) = next_rand d in fill_name is dot (arr[i := of_nat (65 + r mod 26)]) d1
      else fill_name is dot (arr[i := 46]) d)"

text \<open>An array of \<open>n\<close> characters on the stack, filled and ended behind its last element.\<close>

definition local_name :: "nat \<Rightarrow> nat \<Rightarrow> nat \<Rightarrow> test2 \<Rightarrow> (byte list \<times> test2) result" where
  "local_name room n dot d =
     (let (arr, s1) = indet (n + room) (fs d);
          (arr1, d1) = fill_name [0..<n] dot arr (d\<lparr>fs := s1\<rparr>)
      in if n < length arr1 then Inr (arr1[n := 0], d1) else Inl OutOfBounds)"

text \<open>\<open>strdup\<close> copies the string only.\<close>

definition rand_name :: "nat \<Rightarrow> test2 \<Rightarrow> (byte list \<times> test2) result" where
  "rand_name room d = rbind (local_name room MAX_FNAME_LENGTH 16 d) (\<lambda>(fname, d1). Inr (cstr fname @ [0], d1))"

subsection \<open>The phases of \<open>main\<close>\<close>

definition long_name :: "nat \<Rightarrow> test2 \<Rightarrow> test2 result" where
  "long_name room d =
     rbind (local_name room (MAX_FNAME_LENGTH + 10) 8 d) (\<lambda>(fname, d1).
     rbind (sys (sfs_fopen fname) d1) (\<lambda>(derp, d2).
     Inr (fails (derp \<ge> 0) d2)))"

fun create_files :: "nat \<Rightarrow> nat list \<Rightarrow> test2 \<Rightarrow> test2 result" where
  "create_files room [] d = Inr d"
| "create_files room (i # is) d =
     rbind (rand_name room d) (\<lambda>(nm, d1).
     rbind (sys (sfs_fopen nm) d1) (\<lambda>(fd, d2).
     let d3 = fails (fd < 0) (d2\<lparr>fnames := (fnames d2)[i := nm], fds := (fds d2)[i := fd]\<rparr>) in
     rbind (sys (sfs_fopen nm) d3) (\<lambda>(tmp, d4).
     let d5 = fails (tmp \<ge> 0 \<and> tmp \<noteq> fd) d4; (r, d6) = next_rand d5 in
     create_files room is (d6\<lparr>filesize := (filesize d6)[i := int r mod (MAX_BYTES - MIN_BYTES) + MIN_BYTES]\<rparr>))))"

text \<open>The size of the next chunk, the file being at \<open>j\<close>.\<close>

definition next_chunk :: "nat \<Rightarrow> int \<Rightarrow> test2 \<Rightarrow> int \<times> test2" where
  "next_chunk i j d =
     (let left = filesize d ! i - j in
      if left < 10 then (left, d) else let (r, d1) = next_rand d in (int r mod left + 1, d1))"

lemma next_chunk_bounds:
  assumes "next_chunk i j d = (chunk, d1)" and "j < filesize d ! i"
  shows "0 < chunk \<and> filesize d1 = filesize d"
  using assms by (auto simp: next_chunk_def next_rand_def Let_def add_nonneg_pos split: if_splits)

lemma sys_keeps: "sys f d = Inr (r, d1) \<Longrightarrow> filesize d1 = filesize d"
  by (auto simp: sys_def rbind_Inr_iff)

lemma fails_keeps [simp]: "filesize (fails b d) = filesize d" "fds (fails b d) = fds d" "fs (fails b d) = fs d"
  "fnames (fails b d) = fnames d" "rnd (fails b d) = rnd d"
  by (simp_all add: fails_def)

definition pattern :: "int \<Rightarrow> int \<Rightarrow> byte list" where
  "pattern j chunk = map (\<lambda>k. word_of_int (j + int k)) [0..<nat chunk]"

function write_chunks :: "nat \<Rightarrow> int \<Rightarrow> test2 \<Rightarrow> test2 result" where
  "write_chunks i j d =
     (if j < filesize d ! i
      then let (chunk, d1) = next_chunk i j d in
           rbind (sys (sfs_fwrite (fds d1 ! i) (pattern j chunk) chunk) d1) (\<lambda>(tmp, d2).
           write_chunks i (j + chunk) (fails (tmp \<noteq> chunk) d2))
      else Inr d)"
  by pat_completeness auto
termination
  by (relation "measure (\<lambda>(i, j, d). nat (filesize d ! i - j))")
    (auto dest!: sym [of _ "next_chunk _ _ _"] sym [of _ "sys _ _"] next_chunk_bounds sys_keeps)

fun write_files :: "nat list \<Rightarrow> test2 \<Rightarrow> test2 result" where
  "write_files [] d = Inr d"
| "write_files (i # is) d =
     rbind (write_chunks i 0 d) (\<lambda>d1.
     rbind (sys (sfs_getfilesize (fnames d1 ! i)) d1) (\<lambda>(tmp, d2).
     write_files is (fails (filesize d2 ! i \<noteq> tmp) d2)))"

definition read_sys :: "int \<Rightarrow> nat \<Rightarrow> test2 \<Rightarrow> ((int \<times> byte list) \<times> test2) result" where
  "read_sys fd n d =
     (let (buf, s1) = indet n (fs d) in
      sys (\<lambda>s. rbind (sfs_fread fd buf (int n) s) (\<lambda>(r, b, s'). Inr ((r, b), s'))) (d\<lparr>fs := s1\<rparr>))"

text \<open>Closing twice, reading from the closed handle, opening again.\<close>

definition stale_handle :: "test2 \<Rightarrow> test2 result" where
  "stale_handle d =
     rbind (sys (sfs_fclose (fds d ! 1)) d) (\<lambda>(r1, d1).
     rbind (sys (sfs_fclose (fds d1 ! 1)) (fails (r1 \<noteq> 0) d1)) (\<lambda>(r2, d2).
     rbind (read_sys (fds d2 ! 1) 1024 (fails (r2 = 0) d2)) (\<lambda>((r3, b), d3).
     rbind (sys (sfs_fopen (fnames d3 ! 1)) (fails (r3 > 0) (d3\<lparr>fixedbuf := b\<rparr>))) (\<lambda>(fd, d4).
     let d5 = d4\<lparr>fds := (fds d4)[1 := fd]\<rparr> in
     rbind (sys (sfs_fseek (fds d5 ! 0) 0) d5) (\<lambda>(p, d6).
     rbind (sys (sfs_fseek (fds d6 ! 1) 0) d6) (\<lambda>(p', d7).
     Inr d7))))))"

lemma read_sys_keeps: "read_sys fd n d = Inr (r, d1) \<Longrightarrow> filesize d1 = filesize d"
  by (auto simp: read_sys_def Let_def split: prod.splits dest: sys_keeps)

function read_chunks :: "nat \<Rightarrow> int \<Rightarrow> test2 \<Rightarrow> test2 result" where
  "read_chunks i j d =
     (if j < filesize d ! i
      then let (chunk, d1) = next_chunk i j d in
           rbind (read_sys (fds d1 ! i) (nat chunk) d1) (\<lambda>(r, d2).
           read_chunks i (j + chunk) (fails (snd r \<noteq> pattern j chunk) d2))
      else Inr d)"
  by pat_completeness auto
termination
  by (relation "measure (\<lambda>(i, j, d). nat (filesize d ! i - j))")
    (auto dest!: sym [of _ "next_chunk _ _ _"] sym [of _ "read_sys _ _ _"] next_chunk_bounds read_sys_keeps)

fun read_files :: "nat list \<Rightarrow> test2 \<Rightarrow> test2 result" where
  "read_files [] d = Inr d"
| "read_files (i # is) d = rbind (read_chunks i 0 d) (read_files is)"

text \<open>Closing; the second time the results do not matter.\<close>

fun close_files :: "nat list \<Rightarrow> test2 \<Rightarrow> test2 result" where
  "close_files [] d = Inr d"
| "close_files (i # is) d =
     rbind (sys (sfs_fclose (fds d ! i)) d) (\<lambda>(r, d1). close_files is (fails (r \<noteq> 0) d1))"

fun close_again :: "nat list \<Rightarrow> test2 \<Rightarrow> test2 result" where
  "close_again [] d = Inr d"
| "close_again (i # is) d = rbind (sys (sfs_fclose (fds d ! i)) d) (\<lambda>(r, d1). close_again is d1)"

definition remove_files :: "test2 \<Rightarrow> test2 result" where
  "remove_files d =
     rbind (sys (sfs_remove (fnames d ! 0)) d) (\<lambda>(r, d1).
     rbind (sys (sfs_remove (fnames d1 ! 1)) d1) (\<lambda>(r, d2). Inr d2))"

text \<open>The loops that create and open as many files as they can; \<open>n\<close> is \<open>ncreate\<close> or \<open>nopen\<close>.\<close>

fun create_many :: "nat \<Rightarrow> nat list \<Rightarrow> nat \<Rightarrow> test2 \<Rightarrow> (nat \<times> test2) result" where
  "create_many room [] n d = Inr (n, d)"
| "create_many room (i # is) n d =
     rbind (rand_name room d) (\<lambda>(nm, d1).
     rbind (sys (sfs_fopen nm) d1) (\<lambda>(fd, d2).
     let d3 = d2\<lparr>fnames := (fnames d2)[i := nm], fds := (fds d2)[i := fd]\<rparr> in
     if fd < 0 then Inr (n, d3)
     else rbind (sys (sfs_fclose fd) d3) (\<lambda>(r, d4). create_many room is (Suc n) d4)))"

fun open_many :: "nat list \<Rightarrow> nat \<Rightarrow> test2 \<Rightarrow> (nat \<times> test2) result" where
  "open_many [] n d = Inr (n, d)"
| "open_many (i # is) n d =
     rbind (sys (sfs_fopen (fnames d ! i)) d) (\<lambda>(fd, d1).
     let d2 = d1\<lparr>fds := (fds d1)[i := fd]\<rparr> in
     if fd < 0 then Inr (n, d2) else open_many is (Suc n) d2)"

fun write_strings :: "nat list \<Rightarrow> test2 \<Rightarrow> test2 result" where
  "write_strings [] d = Inr d"
| "write_strings (i # is) d =
     rbind (sys (sfs_fwrite (fds d ! i) test_str (int (length test_str))) d) (\<lambda>(tmp, d1).
     rbind (sys (sfs_fclose (fds d1 ! i)) (fails (tmp \<noteq> int (length test_str)) d1)) (\<lambda>(r, d2).
     write_strings is (fails (r \<noteq> 0) d2)))"

fun reopen :: "nat list \<Rightarrow> test2 \<Rightarrow> test2 result" where
  "reopen [] d = Inr d"
| "reopen (i # is) d =
     rbind (sys (sfs_fopen (fnames d ! i)) d) (\<lambda>(fd, d1). reopen is (d1\<lparr>fds := (fds d1)[i := fd]\<rparr>))"

fun rewind :: "nat list \<Rightarrow> test2 \<Rightarrow> test2 result" where
  "rewind [] d = Inr d"
| "rewind (i # is) d = rbind (sys (sfs_fseek (fds d ! i) 0) d) (\<lambda>(p, d1). rewind is d1)"

text \<open>One character of every file; a wrong one ends the round.\<close>

fun read_chars :: "nat \<Rightarrow> nat list \<Rightarrow> test2 \<Rightarrow> test2 result" where
  "read_chars j [] d = Inr d"
| "read_chars j (i # is) d =
     rbind (read_sys (fds d ! i) 1 d) (\<lambda>((r, ch), d1).
     let d2 = fails (r \<noteq> 1) d1 in
     if ch \<noteq> [test_str ! j] then Inr (fails True d2) else read_chars j is d2)"

fun read_rounds :: "nat list \<Rightarrow> nat list \<Rightarrow> test2 \<Rightarrow> test2 result" where
  "read_rounds [] is d = Inr d"
| "read_rounds (j # js) is d = rbind (read_chars j is d) (read_rounds js is)"

definition many_files :: "nat \<Rightarrow> test2 \<Rightarrow> (nat \<times> test2) result" where
  "many_files room d =
     rbind (create_many room [0..<MAX_FD] 0 d) (\<lambda>(ncreate, d1).
     rbind (open_many [0..<ncreate] 0 d1) (\<lambda>(nopen, d2).
     rbind (write_strings [0..<nopen] d2) (\<lambda>d3.
     rbind (reopen (rev [0..<nopen]) d3) (\<lambda>d4.
     rbind (rewind [0..<nopen] d4) (\<lambda>d5.
     rbind (read_rounds [0..<length test_str] [0..<nopen] d5) (\<lambda>d6.
     rbind (close_files [0..<nopen] d6) (\<lambda>d7. Inr (nopen, d7))))))))"

subsection \<open>After the restart\<close>

text \<open>
  The files are opened again and compared with what was written; \<open>wrong\<close> is the comparison of the
  number of bytes read with \<open>strlen(test_str)\<close>, which is unsigned.
\<close>

definition read_fixed :: "int \<Rightarrow> test2 \<Rightarrow> (int \<times> test2) result" where
  "read_fixed fd d =
     rbind (sfs_fread fd (fixedbuf d) (int (length (fixedbuf d))) (fs d)) (\<lambda>(r, b, s). Inr (r, d\<lparr>fs := s, fixedbuf := b\<rparr>))"

fun read_back :: "(nat \<Rightarrow> bool) \<Rightarrow> nat list \<Rightarrow> test2 \<Rightarrow> test2 result" where
  "read_back wrong [] d = Inr d"
| "read_back wrong (i # is) d =
     rbind (sys (sfs_fopen (fnames d ! i)) d) (\<lambda>(fd, d1).
     rbind (sys (sfs_fseek fd 0) (d1\<lparr>fds := (fds d1)[i := fd]\<rparr>)) (\<lambda>(p, d2).
     if fd \<ge> 0
     then rbind (read_fixed fd d2) (\<lambda>(readsize, d3).
          let d4 = fails (wrong (u64 readsize)) d3; d5 = fails (take (length test_str) (fixedbuf d4) \<noteq> test_str) d4 in
          rbind (sys (sfs_fclose fd) d5) (\<lambda>(r, d6). read_back wrong is (fails (r \<noteq> 0) d6)))
     else read_back wrong is d2))"

text \<open>The first file is written to until a write fails.\<close>

fun fill_file :: "nat list \<Rightarrow> test2 \<Rightarrow> test2 result" where
  "fill_file [] d = Inr d"
| "fill_file (i # is) d =
     (let d1 = d\<lparr>fixedbuf := replicate (length (fixedbuf d)) (word_of_int (int i))\<rparr> in
      rbind (sys (sfs_fwrite (fds d1 ! 0) (fixedbuf d1) (int (length (fixedbuf d1)))) d1) (\<lambda>(x, d2).
      if x \<noteq> int (length (fixedbuf d2)) then Inr d2 else fill_file is d2))"

definition fill_disk :: "test2 \<Rightarrow> test2 result" where
  "fill_disk d =
     rbind (sys (sfs_fopen (fnames d ! 0)) d) (\<lambda>(fd, d1).
     let d2 = d1\<lparr>fds := (fds d1)[0 := fd]\<rparr> in
     if fd \<ge> 0 then rbind (fill_file [0..<100000] d2) (\<lambda>d3. rbind (sys (sfs_fclose (fds d3 ! 0)) d3) (\<lambda>(r, d4). Inr d4))
     else Inr d2)"

text \<open>The directory is compared with the array of the names, element by element.\<close>

definition next_name :: "byte list \<Rightarrow> test2 \<Rightarrow> (int \<times> byte list \<times> test2) result" where
  "next_name filename d = rbind (sfs_getnextfilename filename (fs d)) (\<lambda>(r, f, s). Inr (r, f, d\<lparr>fs := s\<rparr>))"

definition name_differs :: "byte list \<Rightarrow> nat \<Rightarrow> test2 \<Rightarrow> bool result" where
  "name_differs filename mx d =
     (if mx < length (fnames d) then rbind (c_streq filename (fnames d ! mx)) (\<lambda>e. Inr (\<not> e)) else Inl OutOfBounds)"

lemma next_name_progress:
  assumes "next_name filename d = Inr (r, f, d1)" and "r \<noteq> 0"
  shows "c_mod (rootDir_ptr (fs d1)) 100 = c_mod (rootDir_ptr (fs d)) 100 + 1 \<and> c_mod (rootDir_ptr (fs d)) 100 < 99"
proof -
  obtain s' where "sfs_getnextfilename filename (fs d) = Inr (r, f, s')" "fs d1 = s'"
    using assms(1) by (auto simp: next_name_def rbind_Inr_iff)
  then show ?thesis using getnextfilename_progress [OF _ assms(2)] by simp
qed

function list_names :: "byte list \<Rightarrow> nat \<Rightarrow> test2 \<Rightarrow> (byte list \<times> nat \<times> test2) result" where
  "list_names filename mx d =
     rbind (next_name filename d) (\<lambda>(r, f, d1).
     if r = 0 then Inr (f, mx, d1)
     else rbind (name_differs f mx d1) (\<lambda>e. list_names f (Suc mx) (fails e d1)))"
  by pat_completeness auto
termination
proof (relation "measure (\<lambda>(filename, mx, d). nat (100 - c_mod (rootDir_ptr (fs d)) 100))", goal_cases)
  case 1
  then show ?case by simp
next
  case (2 filename mx d x r y f d1 e)
  then have "next_name filename d = Inr (r, f, d1)" "r \<noteq> 0" by simp_all
  from next_name_progress [OF this] show ?case by simp
qed

fun remove_names :: "nat list \<Rightarrow> test2 \<Rightarrow> test2 result" where
  "remove_names [] d = Inr d"
| "remove_names (i # is) d = rbind (sys (sfs_remove (fnames d ! i)) d) (\<lambda>(r, d1). remove_names is d1)"

text \<open>\<open>filename\<close> is a block of the heap with room for twenty characters.\<close>

definition malloc_name :: "test2 \<Rightarrow> byte list \<times> test2" where
  "malloc_name d = (let (b, s) = indet MAX_FNAME_LENGTH (fs d) in (b, d\<lparr>fs := s\<rparr>))"

definition after_restart :: "nat \<Rightarrow> test2 \<Rightarrow> test2 result" where
  "after_restart nopen d =
     rbind (read_back (\<lambda>n. n \<noteq> length test_str) [0..<nopen] d) (\<lambda>d1.
     rbind (fill_disk d1) (\<lambda>d2.
     let (filename, d3) = malloc_name d2 in
     rbind (list_names filename 0 d3) (\<lambda>(f, mx, d4).
     rbind (read_back (\<lambda>n. n < length test_str) [0..<nopen] d4) (\<lambda>d5.
     rbind (remove_names [0..<mx] d5) (\<lambda>d6.
     rbind (next_name f d6) (\<lambda>(r, f', d7). Inr (fails (r \<noteq> 0) d7)))))))"

subsection \<open>The programs\<close>

text \<open>The result is the count of errors, which is the exit code.\<close>

definition test2_main :: "nat \<Rightarrow> nat stream \<Rightarrow> sfs \<Rightarrow> (nat \<times> sfs) result" where
  "test2_main room r s =
     rbind (mksfs 1 s) (\<lambda>s1.
     rbind (long_name room (start2 r s1)) (\<lambda>d1.
     rbind (create_files room [0, 1] d1) (\<lambda>d2.
     rbind (write_files [0, 1] d2) (\<lambda>d3.
     rbind (stale_handle d3) (\<lambda>d4.
     rbind (read_files [0, 1] d4) (\<lambda>d5.
     rbind (close_files [0, 1] d5) (\<lambda>d6.
     rbind (close_again [0, 1] d6) (\<lambda>d7.
     rbind (remove_files d7) (\<lambda>d8.
     rbind (many_files room d8) (\<lambda>(nopen, d9).
     rbind (mksfs 0 (fs d9)) (\<lambda>s2.
     rbind (after_restart nopen (d9\<lparr>fs := s2\<rparr>)) (\<lambda>d10. Inr (error_count d10, fs d10)))))))))))))"


text \<open>
  \<^verbatim>\<open>sfs_test.c\<close> is the same program without the long name, without the check of the file sizes,
  without the calls of \<open>sfs_remove\<close> and without the listing of the directory.
\<close>

fun write_only :: "nat list \<Rightarrow> test2 \<Rightarrow> test2 result" where
  "write_only [] d = Inr d"
| "write_only (i # is) d = rbind (write_chunks i 0 d) (write_only is)"

definition test_main :: "nat \<Rightarrow> nat stream \<Rightarrow> sfs \<Rightarrow> (nat \<times> sfs) result" where
  "test_main room r s =
     rbind (mksfs 1 s) (\<lambda>s1.
     rbind (create_files room [0, 1] (start2 r s1)) (\<lambda>d2.
     rbind (write_only [0, 1] d2) (\<lambda>d3.
     rbind (stale_handle d3) (\<lambda>d4.
     rbind (read_files [0, 1] d4) (\<lambda>d5.
     rbind (close_files [0, 1] d5) (\<lambda>d6.
     rbind (close_again [0, 1] d6) (\<lambda>d7.
     rbind (many_files room d7) (\<lambda>(nopen, d8).
     rbind (mksfs 0 (fs d8)) (\<lambda>s2.
     rbind (read_back (\<lambda>n. n \<noteq> length test_str) [0..<nopen] (d8\<lparr>fs := s2\<rparr>)) (\<lambda>d9.
     rbind (fill_disk d9) (\<lambda>d10.
     rbind (read_back (\<lambda>n. n < length test_str) [0..<nopen] d10) (\<lambda>d11.
     Inr (error_count d11, fs d11)))))))))))))"

subsection \<open>No run gets to its end\<close>

definition stops :: "'a result \<Rightarrow> bool" where
  "stops m \<longleftrightarrow> (\<exists>e. m = Inl e)"

lemma stops_Inl [simp]: "stops (Inl e)" "\<not> stops (Inr x)"
  by (simp_all add: stops_def)

lemma rbind_stops: "(\<And>x. m = Inr x \<Longrightarrow> stops (f x)) \<Longrightarrow> stops (rbind m f)"
  by (cases m) simp_all

lemma test2_stops: "stops (test2_main room r s)"
  unfolding test2_main_def by (intro rbind_stops) (auto simp: mksfs_def mksfs_old_result)

lemma test_stops: "stops (test_main room r s)"
  unfolding test_main_def by (intro rbind_stops) (auto simp: mksfs_def mksfs_old_result)

subsection \<open>What the names are\<close>

text \<open>The \<open>n\<close> characters that the loop produces; the period takes no random number.\<close>

definition letters :: "nat stream \<Rightarrow> nat \<Rightarrow> nat \<Rightarrow> byte list" where
  "letters r dot n = map (\<lambda>i. if i = dot then 46 else of_nat (65 + r !! (if i < dot then i else i - 1) mod 26)) [0..<n]"

lemma length_letters [simp]: "length (letters r dot n) = n"
  by (simp add: letters_def)

lemma random_used:
  assumes "rnd d = sdrop (if i \<le> dot then i else i - 1) r" and "d' = (if i = dot then d else d\<lparr>rnd := stl (rnd d)\<rparr>)"
  shows "rnd d' = sdrop (if Suc i \<le> dot then Suc i else Suc i - 1) r"
proof -
  have adv: "stl (sdrop k r) = sdrop (Suc k) r" for k by (rule sdrop_simps)
  show ?thesis
  proof (cases i dot rule: linorder_cases)
    case less
    then have "rnd d = sdrop i r" "rnd d' = stl (rnd d)" using assms(1) by (simp_all only: assms(2)) simp_all
    then show ?thesis using less by (simp only: adv Suc_leI if_True)
  next
    case equal
    then have "rnd d = sdrop i r" "rnd d' = rnd d" using assms(1) by (simp_all only: assms(2)) simp_all
    then show ?thesis using equal by simp
  next
    case greater
    then obtain j where j: "i = Suc j" by (cases i) auto
    then have "rnd d = sdrop j r" "rnd d' = stl (rnd d)" using greater assms(1) by (simp_all only: assms(2)) simp_all
    then have "rnd d' = sdrop i r" by (simp only: adv j)
    then show ?thesis using greater by simp
  qed
qed

lemma fill_name_from:
  "i \<le> n \<Longrightarrow> n \<le> length arr \<Longrightarrow> rnd d = sdrop (if i \<le> dot then i else i - 1) r \<Longrightarrow> take i arr = take i (letters r dot n) \<Longrightarrow>
   fill_name [i..<n] dot arr d = (letters r dot n @ drop n arr, d\<lparr>rnd := sdrop (if n \<le> dot then n else n - 1) r\<rparr>)"
proof (induction "n - i" arbitrary: i arr d)
  case 0
  then have "take n arr = letters r dot n" by simp
  then have "letters r dot n @ drop n arr = arr" by (metis append_take_drop_id)
  then show ?case using 0 by simp
next
  case (Suc m)
  then have i: "i < n" by simp
  define x where "x = letters r dot n ! i"
  have "take (Suc i) (arr[i := x]) = take (Suc i) (letters r dot n)"
    using i Suc.prems(2,4) by (simp add: x_def take_Suc_conv_app_nth)
  moreover have "drop n (arr[i := x]) = drop n arr" using i by simp
  define d' where "d' = (if i = dot then d else d\<lparr>rnd := stl (rnd d)\<rparr>)"
  have x: "x = (if i = dot then 46 else of_nat (65 + r !! (if i < dot then i else i - 1) mod 26))"
    using i by (simp add: x_def letters_def)
  have step: "fill_name [i..<n] dot arr d = fill_name [Suc i..<n] dot (arr[i := x]) d'"
  proof (cases "i = dot")
    case True
    then show ?thesis unfolding x d'_def upt_conv_Cons [OF i] by simp
  next
    case False
    then have "r !! (if i < dot then i else i - 1) = shd (rnd d)"
      unfolding Suc.prems(3) by (cases "i < dot") (simp_all only: snth.simps(1) [symmetric] sdrop_snth, simp_all)
    then show ?thesis using False unfolding x d'_def upt_conv_Cons [OF i] by (simp add: next_rand_def Let_def)
  qed
  have "rnd d' = sdrop (if Suc i \<le> dot then Suc i else Suc i - 1) r"
    using Suc.prems(3) d'_def by (rule random_used)
  then have "fill_name [Suc i..<n] dot (arr[i := x]) d' =
      (letters r dot n @ drop n arr, d'\<lparr>rnd := sdrop (if n \<le> dot then n else n - 1) r\<rparr>)"
    using calculation i Suc.prems(2) Suc.hyps(2) Suc.hyps(1) [of "Suc i" "arr[i := x]" d'] by simp
  then show ?case unfolding step by (simp add: d'_def)
qed

lemma letters_byte: "(of_nat (65 + k mod 26) :: byte) \<noteq> 0 \<and> (of_nat (65 + k mod 26) :: byte) \<noteq> 46"
proof -
  have "k mod 26 < 26" by simp
  then have "65 + k mod 26 < 256" by linarith
  then have "unat (of_nat (65 + k mod 26) :: byte) = 65 + k mod 26" by (simp only: unat_of_nat take_bit_nat_eq_self_iff) (simp add: take_bit_nat_eq_self_iff)
  then have "unat (of_nat (65 + k mod 26) :: byte) \<noteq> unat (0 :: byte)" "unat (of_nat (65 + k mod 26) :: byte) \<noteq> unat (46 :: byte)" by simp_all
  then show ?thesis by metis
qed

lemma letters_nonzero: "0 \<notin> set (letters r dot n)"
  using letters_byte by (auto simp: letters_def)

lemma letters_split:
  assumes "dot < n"
  shows "letters r dot n = take dot (letters r dot n) @ 46 # drop (Suc dot) (letters r dot n)"
    and "46 \<notin> set (drop (Suc dot) (letters r dot n))"
proof -
  have "letters r dot n ! dot = 46" using assms by (simp add: letters_def)
  then show "letters r dot n = take dot (letters r dot n) @ 46 # drop (Suc dot) (letters r dot n)"
    using id_take_nth_drop [of dot "letters r dot n"] assms by simp
  show "46 \<notin> set (drop (Suc dot) (letters r dot n))"
    using letters_byte by (auto simp: letters_def drop_map drop_upt)
qed

lemma letters_legal: "legal_name (letters r 16 20)"
proof -
  let ?a = "take 16 (letters r 16 20)" and ?e = "drop 17 (letters r 16 20)"
  have s: "letters r 16 20 = ?a @ 46 # ?e" "46 \<notin> set ?e" using letters_split [of 16 20 r] by simp_all
  have "takeWhile (\<lambda>b. b \<noteq> 46) (rev (?a @ 46 # ?e)) = rev ?e" using s(2) by (subst rev_append, simp, subst takeWhile_append2) auto
  then have "length (takeWhile (\<lambda>b. b \<noteq> 46) (rev (letters r 16 20))) = 3" unfolding s(1) [symmetric] by simp
  moreover have "46 \<in> set (letters r 16 20)" by (subst s(1)) simp
  ultimately show ?thesis by (simp add: legal_name_def MAX_FILE_NAME_def MAX_EXTENSION_NAME_def)
qed


lemma local_name_ends:
  assumes "dot < n" and "0 < room"
  shows "\<exists>z u. local_name room n dot d = Inr (letters (rnd d) dot n @ 0 # z,
    d\<lparr>fs := (fs d)\<lparr>unk := u\<rparr>, rnd := sdrop (n - 1) (rnd d)\<rparr>)"
proof -
  obtain arr s1 where a: "indet (n + room) (fs d) = (arr, s1)" by fastforce
  then have arr: "length arr = n + room" and s1: "s1 = (fs d)\<lparr>unk := sdrop (n + room) (unk (fs d))\<rparr>" by (auto simp: indet_def)
  have "fill_name [0..<n] dot arr (d\<lparr>fs := s1\<rparr>) =
      (letters (rnd d) dot n @ drop n arr, d\<lparr>fs := s1, rnd := sdrop (n - 1) (rnd d)\<rparr>)"
    using fill_name_from [of 0 n arr "d\<lparr>fs := s1\<rparr>" dot "rnd d"] arr assms(1) by simp
  moreover obtain b z where "drop n arr = b # z" using arr assms(2) by (cases "drop n arr") auto
  ultimately show ?thesis using a s1 by (auto simp: local_name_def list_update_append)
qed

lemma local_name_overflow: "dot < n \<Longrightarrow> local_name 0 n dot d = Inl OutOfBounds"
  using fill_name_from [of 0 n "fst (indet n (fs d))" "d\<lparr>fs := snd (indet n (fs d))\<rparr>" dot "rnd d"]
  by (simp add: local_name_def split_beta indet_def)

lemma rand_name_ok:
  assumes "0 < room"
  shows "\<exists>u. rand_name room d = Inr (letters (rnd d) 16 20 @ [0], d\<lparr>fs := (fs d)\<lparr>unk := u\<rparr>, rnd := sdrop 19 (rnd d)\<rparr>)"
proof -
  obtain z u where "local_name room 20 16 d = Inr (letters (rnd d) 16 20 @ 0 # z, d\<lparr>fs := (fs d)\<lparr>unk := u\<rparr>, rnd := sdrop 19 (rnd d)\<rparr>)"
    using local_name_ends [of 16 20 room d] assms by auto
  then show ?thesis by (auto simp: rand_name_def MAX_FNAME_LENGTH_def letters_nonzero)
qed

subsection \<open>The beginning\<close>

lemma space_unk: "space_ok (s\<lparr>unk := u\<rparr>) = space_ok s"
  by (simp add: space_ok_def sys_inv_unk accounted_def)

text \<open>Opening a string that lies in an array of its own, whatever follows behind it.\<close>

lemma open_string:
  assumes "space_ok s" and "0 \<notin> set n" and "20 \<le> length n"
  shows "\<exists>r s'. sfs_fopen (n @ 0 # z) s = Inr (r, s') \<and> space_ok s' \<and> aopen_cmd n (abs_fs s) = (r, abs_fs s')"
proof -
  have inv: "sys_inv s" using assms(1) by (simp add: space_ok_def)
  have a: "terminated (n @ 0 # z)" "cstr (n @ 0 # z) = n" using assms(2) by simp_all
  obtain mem s0 where load: "load_mem 21 (n @ 0 # z) s = (mem, s0)" by fastforce
  have "46 \<notin> set (drop (length n) (take 20 mem))" using assms(3) by simp
  then obtain r s' where s': "sfs_fopen (n @ 0 # z) s = Inr (r, s')" "sys_inv s'" "aopen_cmd n (abs_fs s) = (r, abs_fs s')" "same_blocks s s'"
    using sfs_fopen_abs [OF inv a(1) load] a(2) by auto
  have "space_ok s'" using s'(3) assms(2) by (intro space_same [OF assms(1) _ _ s'(2,4), of "Open n"]) simp_all
  then show ?thesis using s' by blast
qed

lemma long_name_refused:
  assumes "space_ok (fs d)" and "0 < room"
  shows "\<exists>d1. long_name room d = Inr d1 \<and> space_ok (fs d1) \<and> abs_fs (fs d1) = abs_fs (fs d) \<and> rnd d1 = sdrop 29 (rnd d) \<and>
    fds d1 = fds d \<and> filesize d1 = filesize d \<and> error_count d1 = error_count d"
proof -
  let ?n = "letters (rnd d) 8 30"
  obtain z u where l: "local_name room 30 8 d = Inr (?n @ 0 # z, d\<lparr>fs := (fs d)\<lparr>unk := u\<rparr>, rnd := sdrop 29 (rnd d)\<rparr>)"
    using local_name_ends [of 8 30 room d] assms(2) by auto
  have "aopen_cmd ?n ys = (-1, ys)" for ys by (simp add: aopen_cmd_def legal_name_def MAX_FILE_NAME_def)
  then obtain s1 where "sfs_fopen (?n @ 0 # z) ((fs d)\<lparr>unk := u\<rparr>) = Inr (-1, s1)" "space_ok s1" "abs_fs s1 = abs_fs (fs d)"
    using open_string [of "(fs d)\<lparr>unk := u\<rparr>" ?n z] assms(1) letters_nonzero by (auto simp: space_unk sys_inv_unk)
  then show ?thesis using l by (simp add: long_name_def MAX_FNAME_LENGTH_def sys_def fails_def)
qed

text \<open>One file is created and opened again.\<close>

definition new_file :: "byte list \<Rightarrow> afile" where
  "new_file n = \<lparr>aname = n, adata = [], apos = 0, aopen = True\<rparr>"

lemma open_new_file:
  assumes "legal_name n" and "n \<notin> set (names ys)" and "length ys < 100"
  shows "aopen_cmd n ys = (int (length ys), ys @ [new_file n])"
    and "aopen_cmd n (ys @ [new_file n]) = (int (length ys), ys @ [new_file n])"
proof -
  show "aopen_cmd n ys = (int (length ys), ys @ [new_file n])" using assms by (simp add: aopen_cmd_def new_file_def)
  have "takeWhile (\<lambda>m. m \<noteq> n) (names ys @ [n]) = names ys" using assms(2) by (subst takeWhile_append2) auto
  then have "lookup (ys @ [new_file n]) n = length ys" by (simp add: lookup_def new_file_def) (simp add: names_def)
  then show "aopen_cmd n (ys @ [new_file n]) = (int (length ys), ys @ [new_file n])"
    using assms(1) by (simp add: aopen_cmd_def names_def new_file_def)
qed

lemma create_file:
  assumes "space_ok (fs d)" and "0 < room" and "n = letters (rnd d) 16 20" and "n \<notin> set (names (abs_fs (fs d)))"
    and "length (abs_fs (fs d)) = k" and "k < 100"
  shows "\<exists>d1. create_files room (i # is) d = create_files room is d1 \<and> space_ok (fs d1) \<and>
    abs_fs (fs d1) = abs_fs (fs d) @ [new_file n] \<and> rnd d1 = sdrop 20 (rnd d) \<and> fds d1 = (fds d)[i := int k] \<and>
    filesize d1 = (filesize d)[i := int (rnd d !! 19) mod 20000 + 10000] \<and> error_count d1 = error_count d"
proof -
  have n: "legal_name n" "0 \<notin> set n" "20 \<le> length n" using assms(3) letters_legal letters_nonzero by simp_all
  obtain u where nm: "rand_name room d = Inr (n @ [0], d\<lparr>fs := (fs d)\<lparr>unk := u\<rparr>, rnd := sdrop 19 (rnd d)\<rparr>)"
    using rand_name_ok [OF assms(2)] assms(3) by blast
  note o = open_new_file [OF n(1) assms(4)]
  obtain s0 where s0: "sfs_fopen (n @ [0]) ((fs d)\<lparr>unk := u\<rparr>) = Inr (int k, s0)" "space_ok s0" "abs_fs s0 = abs_fs (fs d) @ [new_file n]"
    using open_string [of "(fs d)\<lparr>unk := u\<rparr>" n "[]"] assms(1,5,6) n o(1) by (auto simp: space_unk sys_inv_unk)
  obtain s1 where s1: "sfs_fopen (n @ [0]) s0 = Inr (int k, s1)" "space_ok s1" "abs_fs s1 = abs_fs s0"
    using open_string [OF s0(2) n(2,3), of "[]"] s0(3) assms(5,6) o(2) by auto
  have "sdrop 20 (rnd d) = stl (sdrop 19 (rnd d))" by (simp only: sdrop_simps) simp
  then show ?thesis
    using nm s0(1,3) s1
    by (intro exI conjI) (simp add: sys_def fails_def next_rand_def MAX_BYTES_def MIN_BYTES_def Let_def, simp_all)
qed

subsection \<open>Properties\<close>

text \<open>No run of the test programs gets to its end, whatever the random numbers, the memory and the disk
  are: \<open>mksfs(0)\<close> stops it at the latest. If the compiler puts the next object right behind the arrays for
  names, the programs write over it before they have opened a single file.\<close>

theorem test2_never_ends:
  assumes "v \<noteq> Some 0"
  shows "(\<exists>e. test2_main room r s = Inl e) \<and> (\<exists>e. test_main room r s = Inl e) \<and>
    test2_main 0 r (boot u a v ex c n True) = Inl OutOfBounds \<and> test_main 0 r (boot u a v ex c n True) = Inl OutOfBounds"
proof -
  obtain s1 where "mksfs 1 (boot u a v ex c n True) = Inr s1" using formatted_space [OF assms] by blast
  then show ?thesis
    using test2_stops [of room r s] test_stops [of room r s]
    by (simp add: stops_def test2_main_def test_main_def long_name_def rand_name_def local_name_overflow MAX_FNAME_LENGTH_def)
qed

text \<open>C36: With room for the NUL the test program begins as it should: the name of 30 characters is refused, the
  two random names get the descriptors 0 and 1, also when they are opened again, both files are empty,
  their sizes are chosen between 10000 and 30000, and no error is counted.\<close>

theorem test2_begins:
  assumes "v \<noteq> Some 0" and "0 < room" and "letters (sdrop 29 r) 16 20 \<noteq> letters (sdrop 49 r) 16 20"
  shows "\<exists>s d1 d2. mksfs 1 (boot u a v ex c n True) = Inr s \<and> long_name room (start2 r s) = Inr d1 \<and>
    create_files room [0, 1] d1 = Inr d2 \<and> error_count d2 = 0 \<and> take 2 (fds d2) = [0, 1] \<and>
    abs_fs (fs d2) = [new_file (letters (sdrop 29 r) 16 20), new_file (letters (sdrop 49 r) 16 20)] \<and>
    list_all (\<lambda>z. 10000 \<le> z \<and> z < 30000) (take 2 (filesize d2))"
proof -
  obtain s where s: "mksfs 1 (boot u a v ex c n True) = Inr s" "space_ok s" "abs_fs s = []" using formatted_space [OF assms(1)] by blast
  let ?a = "letters (sdrop 29 r) 16 20" and ?b = "letters (sdrop 49 r) 16 20"
  have d: "space_ok (fs (start2 r s))" "abs_fs (fs (start2 r s)) = []" "rnd (start2 r s) = r" "error_count (start2 r s) = 0"
    "length (fds (start2 r s)) = 100" "length (filesize (start2 r s)) = 100"
    using s(2,3) by (simp_all add: start2_def MAX_FD_def)
  obtain d1 where d1: "long_name room (start2 r s) = Inr d1" "space_ok (fs d1)" "abs_fs (fs d1) = []" "rnd d1 = sdrop 29 r"
    "length (fds d1) = 100" "length (filesize d1) = 100" "error_count d1 = 0"
    using long_name_refused [OF d(1) assms(2)] d by auto
  obtain d2 where d2: "create_files room [0, 1] d1 = create_files room [1] d2" "space_ok (fs d2)" "abs_fs (fs d2) = [new_file ?a]"
    "rnd d2 = sdrop 49 r" "fds d2 = (fds d1)[0 := 0]" "filesize d2 = (filesize d1)[0 := int (sdrop 29 r !! 19) mod 20000 + 10000]"
    "error_count d2 = 0"
    using create_file [of d1 room ?a 0 0 "[1]"] d1 assms(2) by (auto simp: names_def)
  obtain d3 where d3: "create_files room [1] d2 = Inr d3" "abs_fs (fs d3) = [new_file ?a, new_file ?b]" "error_count d3 = 0"
    "fds d3 = (fds d2)[1 := 1]" "filesize d3 = (filesize d2)[1 := int (sdrop 49 r !! 19) mod 20000 + 10000]"
    using create_file [of d2 room ?b 1 1 "[]"] d2(2-4,7) assms(2,3) by (auto simp: names_def new_file_def)
  have t: "take 2 (xs[0 := p, 1 := q]) = [p, q]" if "length xs = 100" for xs p and q :: int
    using that by (intro nth_equalityI) (auto simp: less_Suc_eq numeral_eq_Suc)
  have "take 2 (fds d3) = [0, 1]" unfolding d3(4) d2(5) by (rule t) (rule d1(5))
  moreover have "take 2 (filesize d3) = [int (sdrop 29 r !! 19) mod 20000 + 10000, int (sdrop 49 r !! 19) mod 20000 + 10000]"
    unfolding d3(5) d2(6) by (rule t) (rule d1(6))
  ultimately show ?thesis using s(1) d1(1) d2(1) d3(1-3) by auto
qed

text \<open>The random numbers are 0, 1, 2, and so on.\<close>

theorem test2_begins_witness:
  "\<exists>s d1 d2. mksfs 1 (boot (sconst 64) 0 None False (\<lambda>_. 0) 0 True) = Inr s \<and> long_name 3 (start2 nats s) = Inr d1 \<and>
    create_files 3 [0, 1] d1 = Inr d2 \<and> error_count d2 = 0 \<and> take 2 (fds d2) = [0, 1] \<and>
    abs_fs (fs d2) = [new_file (letters (sdrop 29 nats) 16 20), new_file (letters (sdrop 49 nats) 16 20)] \<and>
    list_all (\<lambda>z. 10000 \<le> z \<and> z < 30000) (take 2 (filesize d2))"
proof -
  have "letters (sdrop k nats) 16 20 ! 0 = of_nat (65 + k mod 26)" for k by (simp add: letters_def sdrop_snth)
  from this [of 29] this [of 49] have "letters (sdrop 29 nats) 16 20 \<noteq> letters (sdrop 49 nats) 16 20" by auto
  then show ?thesis by (intro test2_begins) simp_all
qed

end
