(* ===== verification/Reservation.thy ===== *)
theory Reservation
  imports C_Library Semaphore
begin

text \<open>
  The table reservation program, \<^verbatim>\<open>Reservation system/main.c\<close>: twenty tables in shared
  memory, section A with the numbers 100 to 109 and section B with 200 to 209, each
  section guarded by a named semaphore. The state is the shared memory, the two
  semaphores, the standard input and what the program has printed.

  The abstract state is the map from table numbers to the guest who holds the table; the
  lemmas show what each command does to it and that a reserved table is never given to
  somebody else. The interleaving of several processes is in \<open>Reservation_Locks\<close>.
\<close>

subsection \<open>State\<close>

text \<open>\<open>struct table\<close>: the ten bytes of the name are followed by two bytes of padding.\<close>

record table =
  tnum :: int
  tname :: "byte list"
  tpad :: "byte list"

definition BUFF_SIZE :: nat where
  "BUFF_SIZE = 20"

datatype out_line =
    TableLine int "byte list"   \<comment> \<open>\<open>"table %d: %s\n"\<close>\<close>
  | CannotReserve
  | InvalidNumber
  | NoEmptyTable

record resv = mem +
  tables :: "table list"
  mutexA :: "nat option"
  mutexB :: "nat option"
  input :: "byte list"
  printed :: "out_line list"

text \<open>A pointer to characters is the object from there on, or \<open>NULL\<close>.\<close>

type_synonym char_ptr = "byte list option"

definition emit :: "out_line list \<Rightarrow> resv \<Rightarrow> resv" where
  "emit os s = s\<lparr>printed := printed s @ os\<rparr>"

subsection \<open>The semaphores\<close>

definition wait_A :: "resv \<Rightarrow> resv result" where
  "wait_A s = rbind (sem_wait_val (mutexA s)) (\<lambda>v. Inr (s\<lparr>mutexA := v\<rparr>))"

definition post_A :: "resv \<Rightarrow> resv result" where
  "post_A s = rbind (sem_post_val (mutexA s)) (\<lambda>v. Inr (s\<lparr>mutexA := v\<rparr>))"

definition wait_B :: "resv \<Rightarrow> resv result" where
  "wait_B s = rbind (sem_wait_val (mutexB s)) (\<lambda>v. Inr (s\<lparr>mutexB := v\<rparr>))"

definition post_B :: "resv \<Rightarrow> resv result" where
  "post_B s = rbind (sem_post_val (mutexB s)) (\<lambda>v. Inr (s\<lparr>mutexB := v\<rparr>))"

interpretation mA: semaphore wait_A post_A mutexA
  by unfold_locales
    (auto simp: wait_A_def post_A_def sem_wait_val_def sem_post_val_def split: option.splits if_splits)

interpretation mB: semaphore wait_B post_B mutexB
  by unfold_locales
    (auto simp: wait_B_def post_B_def sem_wait_val_def sem_post_val_def split: option.splits if_splits)

subsection \<open>The operations\<close>

definition empty_name :: "byte list" where
  "empty_name = bytes_of ''empty     ''"

definition table_number :: "nat \<Rightarrow> int" where
  "table_number i = (if i < 10 then 100 + int i else 190 + int i)"

definition init_table :: "nat \<Rightarrow> table \<Rightarrow> table" where
  "init_table i t = t\<lparr>tname := empty_name, tnum := table_number i\<rparr>"

definition initTables :: "resv \<Rightarrow> resv result" where
  "initTables s =
     rbind (wait_A s) (\<lambda>s1. rbind (wait_B s1) (\<lambda>s2.
     let s3 = s2\<lparr>tables := map (\<lambda>(i, t). init_table i t) (enumerate 0 (tables s2))\<rparr>
     in rbind (post_A s3) post_B))"

text \<open>The string at \<open>base[i].name\<close> runs on into the padding and the tables behind.\<close>

fun memory_of :: "table list \<Rightarrow> byte list" where
  "memory_of [] = []"
| "memory_of (t # ts) = le_bytes 4 (u32 (tnum t)) @ tname t @ tpad t @ memory_of ts"

definition name_at :: "table list \<Rightarrow> nat \<Rightarrow> byte list" where
  "name_at ts i = tname (ts ! i) @ tpad (ts ! i) @ memory_of (drop (Suc i) ts)"

definition printTableInfo :: "resv \<Rightarrow> resv result" where
  "printTableInfo s =
     rbind (wait_A s) (\<lambda>s1. rbind (wait_B s1) (\<lambda>s2.
     let s3 = emit (map (\<lambda>i. TableLine (tnum (tables s2 ! i)) (cstr (name_at (tables s2) i))) [0..<BUFF_SIZE]) s2
     in rbind (post_A s3) post_B))"

text \<open>\<open>memcpy(base[i].name, nameHld, 10)\<close>\<close>

definition take_table :: "nat \<Rightarrow> char_ptr \<Rightarrow> resv \<Rightarrow> resv result" where
  "take_table i nameHld s =
     (case nameHld of None \<Rightarrow> Inl NullDeref
      | Some p \<Rightarrow> (let (x, s1) = load_mem 10 p s
                   in Inr (s1\<lparr>tables := (tables s1)[i := (tables s1 ! i)\<lparr>tname := x\<rparr>]\<rparr>)))"

definition is_empty :: "nat \<Rightarrow> resv \<Rightarrow> bool result" where
  "is_empty i s = c_streq (name_at (tables s) i) (empty_name @ [0])"

text \<open>The loop over all tables that looks for the number; it does not stop at a match.\<close>

fun specific_loop :: "nat list \<Rightarrow> int \<Rightarrow> char_ptr \<Rightarrow> resv \<Rightarrow> resv result" where
  "specific_loop [] tableNo nameHld s = Inr s"
| "specific_loop (i # is) tableNo nameHld s =
     (if tnum (tables s ! i) = tableNo
      then rbind (is_empty i s) (\<lambda>e.
           if e then rbind (take_table i nameHld s) (specific_loop is tableNo nameHld)
           else specific_loop is tableNo nameHld (emit [CannotReserve] s))
      else specific_loop is tableNo nameHld s)"

definition reserve_number :: "int \<Rightarrow> int \<Rightarrow> char_ptr \<Rightarrow> int \<Rightarrow> resv \<Rightarrow> resv result" where
  "reserve_number lo hi nameHld tableNo s =
     (if lo < tableNo \<and> tableNo < hi then specific_loop [0..<BUFF_SIZE] tableNo nameHld s
      else Inr (emit [InvalidNumber] s))"

definition reserveSpecificTable :: "char_ptr \<Rightarrow> char_ptr \<Rightarrow> int \<Rightarrow> resv \<Rightarrow> resv result" where
  "reserveSpecificTable nameHld section tableNo s =
     (case section of None \<Rightarrow> Inl NullDeref
      | Some [] \<Rightarrow> Inl OutOfBounds
      | Some (c # _) \<Rightarrow>
          if c = 65 then rbind (wait_A s) (\<lambda>s1. rbind (reserve_number 99 110 nameHld tableNo s1) post_A)
          else if c = 66 then rbind (wait_B s) (\<lambda>s1. rbind (reserve_number 199 210 nameHld tableNo s1) post_B)
          else Inr s)"

text \<open>The loop that looks for the first empty table of a section; the flag is \<open>fail\<close>.\<close>

fun some_loop :: "nat list \<Rightarrow> (int \<Rightarrow> bool) \<Rightarrow> char_ptr \<Rightarrow> resv \<Rightarrow> (bool \<times> resv) result" where
  "some_loop [] sect nameHld s = Inr (True, s)"
| "some_loop (i # is) sect nameHld s =
     (if sect (tnum (tables s ! i))
      then rbind (is_empty i s) (\<lambda>e.
           if e then rbind (take_table i nameHld s) (\<lambda>s1. Inr (False, s1)) else some_loop is sect nameHld s)
      else some_loop is sect nameHld s)"

definition reserve_any :: "(int \<Rightarrow> bool) \<Rightarrow> char_ptr \<Rightarrow> resv \<Rightarrow> resv result" where
  "reserve_any sect nameHld s =
     rbind (some_loop [0..<BUFF_SIZE] sect nameHld s) (\<lambda>(fail, s1).
     Inr (if fail then emit [NoEmptyTable] s1 else s1))"

definition reserveSomeTable :: "char_ptr \<Rightarrow> char_ptr \<Rightarrow> resv \<Rightarrow> resv result" where
  "reserveSomeTable nameHld section s =
     (case section of None \<Rightarrow> Inl NullDeref
      | Some [] \<Rightarrow> Inl OutOfBounds
      | Some (c # _) \<Rightarrow>
          if c = 65 then rbind (wait_A s) (\<lambda>s1. rbind (reserve_any (\<lambda>n. n < 200) nameHld s1) post_A)
          else if c = 66 then rbind (wait_B s) (\<lambda>s1. rbind (reserve_any (\<lambda>n. 199 < n) nameHld s1) post_B)
          else Inr s)"

subsection \<open>The command line\<close>

text \<open>
  \<open>processCmd\<close> also returns the buffer, which \<open>strtok\<close> changes in place. The first letter
  decides: \<open>r\<close>, \<open>s\<close>, \<open>i\<close>, \<open>e\<close>.
\<close>

definition reserve_cmd :: "byte list \<Rightarrow> nat \<Rightarrow> resv \<Rightarrow> (byte list \<times> resv) result" where
  "reserve_cmd cmd sv s =
     rbind (c_strtok 32 cmd sv) (\<lambda>(nm, cmd2, sv2).
     rbind (c_strtok 32 cmd2 sv2) (\<lambda>(sect, cmd3, sv3).
     rbind (c_strtok 32 cmd3 sv3) (\<lambda>(tableChar, cmd4, sv4).
     let ptr = map_option (\<lambda>o'. drop o' cmd4); nameHld = ptr nm; section = ptr sect in
     rbind (case tableChar of
              Some t \<Rightarrow> rbind (c_atoi (drop t cmd4)) (\<lambda>tableNo. reserveSpecificTable nameHld section tableNo s)
            | None \<Rightarrow> reserveSomeTable nameHld section s) (\<lambda>s1.
     Inr (cmd4, s1)))))"

definition processCmd :: "byte list \<Rightarrow> resv \<Rightarrow> (int \<times> byte list \<times> resv) result" where
  "processCmd cmd s =
     rbind (c_strtok 32 cmd 0) (\<lambda>(token, cmd1, sv).
     case token of None \<Rightarrow> Inl NullDeref
     | Some t \<Rightarrow>
         (let c = cmd1 ! t in
          if c = 114 then rbind (reserve_cmd cmd1 sv s) (\<lambda>(cmd2, s1). Inr (1, cmd2, s1))
          else if c = 115 then rbind (printTableInfo s) (\<lambda>s1. Inr (1, cmd1, s1))
          else if c = 105 then rbind (initTables s) (\<lambda>s1. Inr (1, cmd1, s1))
          else if c = 101 then Inr (0, cmd1, s)
          else Inr (1, cmd1, s)))"

text \<open>
  The loop of \<open>main\<close>. It need not end: the value is then \<open>None\<close>.
\<close>

partial_function (option) command_loop :: "byte list \<Rightarrow> resv \<Rightarrow> resv result option" where
  "command_loop cmd s =
     (let (cmd1, rest) = c_fgets 100 cmd (input s) in
      case processCmd cmd1 (s\<lparr>input := rest\<rparr>) of
        Inl e \<Rightarrow> Some (Inl e)
      | Inr (ret, cmd2, s1) \<Rightarrow> if ret = 0 then Some (Inr s1) else command_loop cmd2 s1)"

text \<open>
  \<open>main\<close> from the opening of the semaphores to the end of the loop. The shared memory is
  there already when another process has made it; \<open>cmd\<close> is uninitialised.
\<close>

definition reservation_main :: "resv \<Rightarrow> resv result option" where
  "reservation_main s =
     (let s1 = s\<lparr>mutexA := sem_open_val (mutexA s), mutexB := sem_open_val (mutexB s)\<rparr>;
          (cmd, s2) = indet 100 s1
      in case initTables s2 of Inl e \<Rightarrow> Some (Inl e) | Inr s3 \<Rightarrow> command_loop cmd s3)"

subsection \<open>Invariant and abstraction\<close>

definition tables_ok :: "resv \<Rightarrow> bool" where
  "tables_ok s \<longleftrightarrow> length (tables s) = BUFF_SIZE \<and>
     (\<forall>i<BUFF_SIZE. tnum (tables s ! i) = table_number i \<and> length (tname (tables s ! i)) = 10 \<and>
        tpad (tables s ! i) = [0, 0])"

text \<open>Nobody is inside a section.\<close>

definition mutexes_free :: "resv \<Rightarrow> bool" where
  "mutexes_free s \<longleftrightarrow> mutexA s = Some 1 \<and> mutexB s = Some 1"

text \<open>The abstract state: who holds which table.\<close>

definition guest :: "table \<Rightarrow> byte list option" where
  "guest t = (if tname t = empty_name then None else Some (tname t))"

definition guests :: "resv \<Rightarrow> int \<Rightarrow> byte list option" where
  "guests s n = (case List.find (\<lambda>t. tnum t = n) (tables s) of None \<Rightarrow> None | Some t \<Rightarrow> guest t)"

lemma table_number_inj: "table_number i = table_number j \<Longrightarrow> i < 20 \<Longrightarrow> j < 20 \<Longrightarrow> i = j"
  by (auto simp: table_number_def split: if_splits)

lemma table_number_range: "table_number i < 200 \<longleftrightarrow> i < 10"
  by (auto simp: table_number_def)

lemma length_empty_name [simp]: "length empty_name = 10"
  by code_simp

lemma zero_notin_empty_name [simp]: "0 \<notin> set empty_name"
  by code_simp

lemma tables_okD:
  assumes "tables_ok s"
  shows "length (tables s) = 20" and "\<And>i. i < 20 \<Longrightarrow> tnum (tables s ! i) = table_number i"
    and "\<And>i. i < 20 \<Longrightarrow> length (tname (tables s ! i)) = 10" and "\<And>i. i < 20 \<Longrightarrow> tpad (tables s ! i) = [0, 0]"
  using assms by (simp_all add: tables_ok_def BUFF_SIZE_def)

lemma guests_index:
  assumes "tables_ok s" and "i < 20"
  shows "guests s (table_number i) = guest (tables s ! i)"
proof -
  note t = tables_okD [OF assms(1)]
  have "tnum (tables s ! j) \<noteq> table_number i" if "j < i" for j
    using t(2) [of j] assms(2) that table_number_inj [of j i] by auto
  then have "List.find (\<lambda>t. tnum t = table_number i) (tables s) = Some (tables s ! i)"
    using t(1,2) assms(2) by (auto simp: find_Some_iff intro!: exI [of _ i])
  then show ?thesis by (simp add: guests_def)
qed

lemma guests_outside:
  assumes "tables_ok s" and "\<And>i. i < 20 \<Longrightarrow> n \<noteq> table_number i"
  shows "guests s n = None"
proof -
  note t = tables_okD [OF assms(1)]
  have "List.find (\<lambda>t. tnum t = n) (tables s) = None"
    using t(1,2) assms(2) by (auto simp: find_None_iff in_set_conv_nth)
  then show ?thesis by (simp add: guests_def)
qed

lemma guests_eqI:
  assumes "tables_ok s" and "tables_ok s'" and "\<And>i. i < 20 \<Longrightarrow> guest (tables s' ! i) = g (table_number i)"
    and "\<And>n. (\<And>i. i < 20 \<Longrightarrow> n \<noteq> table_number i) \<Longrightarrow> g n = None"
  shows "guests s' = g"
proof (rule ext)
  fix n
  show "guests s' n = g n"
  proof (cases "\<exists>i<20. n = table_number i")
    case True
    then show ?thesis using guests_index [OF assms(2)] assms(3) by auto
  next
    case False
    then show ?thesis using guests_outside [OF assms(2), of n] assms(4) [of n] by auto
  qed
qed

lemma c_streq_block:
  "length xs = length ys \<Longrightarrow> 0 \<notin> set ys \<Longrightarrow> c_streq (xs @ 0 # r) (ys @ [0]) = Inr (xs = ys)"
  by (induction xs ys rule: list_induct2) auto

lemma is_empty_ok:
  assumes "tables_ok s" and "i < 20"
  shows "is_empty i s = Inr (guest (tables s ! i) = None)"
  using c_streq_block [of "tname (tables s ! i)" empty_name] tables_okD(3,4) [OF assms]
  by (simp add: is_empty_def name_at_def guest_def)

text \<open>Who holds a table with the stored name \<open>x\<close>; a guest called \<open>empty\<close> is nobody.\<close>

definition holder :: "byte list \<Rightarrow> byte list option" where
  "holder x = (if x = empty_name then None else Some x)"

lemma take_table_ok:
  assumes "tables_ok s" and "i < 20" and "load_mem 10 p s = (x, s1)"
  shows "\<exists>s'. take_table i (Some p) s = Inr s' \<and> tables_ok s' \<and> guests s' = (guests s)(table_number i := holder x) \<and>
    mutexA s' = mutexA s \<and> mutexB s' = mutexB s \<and> printed s' = printed s \<and> input s' = input s"
proof -
  note t = tables_okD [OF assms(1)]
  have s1: "s1 = s\<lparr>unk := unk s1\<rparr>" and x: "length x = 10"
    using assms(3) by (auto simp: load_mem_eq)
  let ?s = "s1\<lparr>tables := (tables s1)[i := (tables s1 ! i)\<lparr>tname := x\<rparr>]\<rparr>"
  have f: "tables s1 = tables s" "mutexA s1 = mutexA s" "mutexB s1 = mutexB s" "printed s1 = printed s" "input s1 = input s"
    by (subst s1; simp)+
  have ok: "tables_ok ?s" using t x assms(2) by (simp add: tables_ok_def BUFF_SIZE_def f nth_list_update)
  have "guests ?s = (guests s)(table_number i := holder x)"
  proof (rule guests_eqI [OF assms(1) ok])
    fix j :: nat assume j: "j < 20"
    show "guest (tables ?s ! j) = ((guests s)(table_number i := holder x)) (table_number j)"
      using j assms(2) t(1) guests_index [OF assms(1) j] table_number_inj [of i j]
      by (cases "j = i") (auto simp: f guest_def holder_def)
  next
    fix n assume "\<And>j. j < 20 \<Longrightarrow> n \<noteq> table_number j"
    then show "((guests s)(table_number i := holder x)) n = None"
      using guests_outside [OF assms(1), of n] assms(2) by auto
  qed
  then show ?thesis using assms(3) ok f by (simp add: take_table_def)
qed

subsection \<open>What the loops do\<close>

text \<open>The ten bytes that are stored as the name of the guest.\<close>

definition name_bytes :: "byte list \<Rightarrow> resv \<Rightarrow> byte list" where
  "name_bytes p s = fst (load_mem 10 p s)"

text \<open>One reservation: the table of number \<open>n\<close> goes to the guest, everything else stays.\<close>

definition booked :: "int \<Rightarrow> byte list \<Rightarrow> resv \<Rightarrow> resv \<Rightarrow> bool" where
  "booked n x s s' \<longleftrightarrow> tables_ok s' \<and> guests s' = (guests s)(n \<mapsto> x) \<and>
     mutexA s' = mutexA s \<and> mutexB s' = mutexB s \<and> printed s' = printed s \<and> input s' = input s"

lemma take_table_booked:
  assumes "tables_ok s" and "i < 20" and "name_bytes p s \<noteq> empty_name"
  shows "\<exists>s'. take_table i (Some p) s = Inr s' \<and> booked (table_number i) (name_bytes p s) s s'"
  using take_table_ok [OF assms(1,2), of p "name_bytes p s" "snd (load_mem 10 p s)"] assms(3)
  by (auto simp: booked_def name_bytes_def holder_def)

lemma specific_loop_append:
  "specific_loop (xs @ ys) no h s = rbind (specific_loop xs no h s) (specific_loop ys no h)"
  by (induction xs arbitrary: s) (auto simp: rbind_assoc intro!: rbind_cong)

lemma specific_loop_skip:
  "tables_ok s \<Longrightarrow> \<forall>i\<in>set is. i < 20 \<and> table_number i \<noteq> no \<Longrightarrow> specific_loop is no h s = Inr s"
  by (induction "is") (auto simp: tables_okD(2))

lemma upt_split: "j < n \<Longrightarrow> [0..<n] = [0..<j] @ j # [Suc j..<n]"
proof -
  assume j: "j < n"
  have "[0..<j + (n - j)] = [0..<j] @ [j..<j + (n - j)]" by (rule upt_add_eq_append) (rule le0)
  then show ?thesis by (simp only: le_add_diff_inverse [OF less_imp_le [OF j]] upt_conv_Cons [OF j])
qed

lemma reserve_number_ok:
  assumes "tables_ok s" and j: "j < 20" "table_number j = no" and "lo < no" and "no < hi"
  shows "guests s no = None \<Longrightarrow> name_bytes p s \<noteq> empty_name \<Longrightarrow>
      \<exists>s'. reserve_number lo hi (Some p) no s = Inr s' \<and> booked no (name_bytes p s) s s'"
    and "guests s no \<noteq> None \<Longrightarrow> reserve_number lo hi h no s = Inr (emit [CannotReserve] s)"
proof -
  have others: "\<forall>i\<in>set [0..<j]. i < 20 \<and> table_number i \<noteq> no" "\<forall>i\<in>set [Suc j..<20]. i < 20 \<and> table_number i \<noteq> no"
    using j(1) unfolding j(2) [symmetric] by (auto dest!: table_number_inj)
  have num: "tnum (tables s ! j) = no" using tables_okD(2) [OF assms(1) j(1)] j(2) by simp
  have g: "guest (tables s ! j) = guests s no" using guests_index [OF assms(1) j(1)] j(2) by simp
  have run: "reserve_number lo hi h no s = specific_loop (j # [Suc j..<20]) no h s" for h
    using assms(4,5) specific_loop_skip [OF assms(1) others(1)]
    by (simp only: reserve_number_def BUFF_SIZE_def upt_split [OF j(1)] specific_loop_append) simp
  show "reserve_number lo hi h no s = Inr (emit [CannotReserve] s)" if "guests s no \<noteq> None"
  proof -
    have "tables_ok (emit [CannotReserve] s)" using assms(1) by (simp add: tables_ok_def emit_def)
    then show ?thesis
      using that num g is_empty_ok [OF assms(1) j(1)] specific_loop_skip [OF _ others(2)] by (auto simp: run)
  qed
  show "\<exists>s'. reserve_number lo hi (Some p) no s = Inr s' \<and> booked no (name_bytes p s) s s'"
    if free: "guests s no = None" and x: "name_bytes p s \<noteq> empty_name"
  proof -
    obtain s' where s': "take_table j (Some p) s = Inr s'" "booked no (name_bytes p s) s s'"
      using take_table_booked [OF assms(1) j(1) x] j(2) by auto
    then have "tables_ok s'" by (simp add: booked_def)
    then show ?thesis
      using s' free num g is_empty_ok [OF assms(1) j(1)] specific_loop_skip [OF _ others(2)] by (simp add: run)
  qed
qed

lemma find_upt_Some: "List.find P [0..<n] = Some k \<longleftrightarrow> k < n \<and> P k \<and> (\<forall>j<k. \<not> P j)"
  by (auto simp: find_Some_iff)

lemma some_loop_find:
  "tables_ok s \<Longrightarrow> \<forall>i\<in>set is. i < 20 \<Longrightarrow>
   some_loop is sect h s =
     (case List.find (\<lambda>i. sect (table_number i) \<and> guests s (table_number i) = None) is of
        None \<Rightarrow> Inr (True, s)
      | Some i \<Rightarrow> rbind (take_table i h s) (\<lambda>s1. Inr (False, s1)))"
  by (induction "is") (auto simp: tables_okD(2) is_empty_ok guests_index)

text \<open>The search finds the smallest free number of the section.\<close>

lemma find_smallest:
  assumes "\<forall>i<20. sect (table_number i) \<longleftrightarrow> table_number i \<in> S" and "S \<subseteq> table_number ` {..<20}"
  shows "List.find (\<lambda>i. sect (table_number i) \<and> G (table_number i) = None) [0..<20] = None \<longleftrightarrow> {n \<in> S. G n = None} = {}"
    and "List.find (\<lambda>i. sect (table_number i) \<and> G (table_number i) = None) [0..<20] = Some j \<Longrightarrow>
      j < 20 \<and> table_number j = Min {n \<in> S. G n = None}"
proof -
  show "List.find (\<lambda>i. sect (table_number i) \<and> G (table_number i) = None) [0..<20] = None \<longleftrightarrow> {n \<in> S. G n = None} = {}"
    using assms by (auto simp: find_None_iff subset_iff image_iff)
  assume "List.find (\<lambda>i. sect (table_number i) \<and> G (table_number i) = None) [0..<20] = Some j"
  then have j: "j < 20" "sect (table_number j)" "G (table_number j) = None"
    "\<And>i. i < j \<Longrightarrow> \<not> (sect (table_number i) \<and> G (table_number i) = None)"
    by (auto simp: find_upt_Some)
  have "Min {n \<in> S. G n = None} = table_number j"
  proof (rule Min_eqI)
    show "finite {n \<in> S. G n = None}" using assms(2) by (auto intro: finite_subset)
    show "table_number j \<in> {n \<in> S. G n = None}" using j assms(1) by simp
    fix n assume n: "n \<in> {n \<in> S. G n = None}"
    then obtain i where i: "i < 20" "n = table_number i" using assms(2) by auto
    then have "\<not> i < j" using j(4) [of i] n assms(1) by auto
    then show "table_number j \<le> n" using i by (auto simp: table_number_def)
  qed
  then show "j < 20 \<and> table_number j = Min {n \<in> S. G n = None}" using j(1) by simp
qed

lemma reserve_any_ok:
  assumes "tables_ok s" and "\<forall>i<20. sect (table_number i) \<longleftrightarrow> table_number i \<in> S"
    and "S \<subseteq> table_number ` {..<20}"
  shows "{n \<in> S. guests s n = None} = {} \<Longrightarrow> reserve_any sect h s = Inr (emit [NoEmptyTable] s)"
    and "{n \<in> S. guests s n = None} \<noteq> {} \<Longrightarrow> name_bytes p s \<noteq> empty_name \<Longrightarrow>
      \<exists>s'. reserve_any sect (Some p) s = Inr s' \<and> booked (Min {n \<in> S. guests s n = None}) (name_bytes p s) s s'"
proof -
  have run: "some_loop [0..<BUFF_SIZE] sect h s =
     (case List.find (\<lambda>i. sect (table_number i) \<and> guests s (table_number i) = None) [0..<20] of
        None \<Rightarrow> Inr (True, s)
      | Some i \<Rightarrow> rbind (take_table i h s) (\<lambda>s1. Inr (False, s1)))" for h
    using some_loop_find [OF assms(1), of "[0..<20]" sect h] by (simp add: BUFF_SIZE_def)
  note f = find_smallest [where sect = sect and G = "guests s", OF assms(2,3)]
  show "reserve_any sect h s = Inr (emit [NoEmptyTable] s)" if "{n \<in> S. guests s n = None} = {}"
    using f(1) that by (simp add: reserve_any_def run)
  show "\<exists>s'. reserve_any sect (Some p) s = Inr s' \<and> booked (Min {n \<in> S. guests s n = None}) (name_bytes p s) s s'"
    if ne: "{n \<in> S. guests s n = None} \<noteq> {}" and x: "name_bytes p s \<noteq> empty_name"
  proof -
    obtain j where j: "List.find (\<lambda>i. sect (table_number i) \<and> guests s (table_number i) = None) [0..<20] = Some j"
      using f(1) ne by blast
    note j' = f(2) [OF j]
    obtain s' where "take_table j (Some p) s = Inr s'" "booked (table_number j) (name_bytes p s) s s'"
      using take_table_booked [OF assms(1) _ x, of j] j' by auto
    then show ?thesis using j j' by (simp add: reserve_any_def run)
  qed
qed

subsection \<open>Reserving a table\<close>

text \<open>The numbers of section A (the letter 65) and of section B (66).\<close>

definition section_tables :: "byte \<Rightarrow> int set" where
  "section_tables c = (if c = 65 then {100..109} else if c = 66 then {200..209} else {})"

lemma section_numbers: "section_tables c \<subseteq> table_number ` {..<20}"
proof
  fix n assume n: "n \<in> section_tables c"
  then have "n = table_number (nat (n - (if n < 200 then 100 else 190)))" "nat (n - (if n < 200 then 100 else 190)) < 20"
    by (auto simp: section_tables_def table_number_def split: if_splits)
  then show "n \<in> table_number ` {..<20}" by blast
qed

lemma section_A: "i < 20 \<Longrightarrow> table_number i < 200 \<longleftrightarrow> table_number i \<in> section_tables 65"
  and section_B: "i < 20 \<Longrightarrow> 199 < table_number i \<longleftrightarrow> table_number i \<in> section_tables 66"
  by (auto simp: section_tables_def table_number_def)

lemma section_bounds:
  "c = 65 \<Longrightarrow> 99 < n \<and> n < 110 \<longleftrightarrow> n \<in> section_tables c"
  "c = 66 \<Longrightarrow> 199 < n \<and> n < 210 \<longleftrightarrow> n \<in> section_tables c"
  by (auto simp: section_tables_def)

lemma mutex_irrelevant [simp]:
  "tables_ok (s\<lparr>mutexA := v\<rparr>) = tables_ok s" "tables_ok (s\<lparr>mutexB := v\<rparr>) = tables_ok s"
  "guests (s\<lparr>mutexA := v\<rparr>) = guests s" "guests (s\<lparr>mutexB := v\<rparr>) = guests s"
  "name_bytes p (s\<lparr>mutexA := v\<rparr>) = name_bytes p s" "name_bytes p (s\<lparr>mutexB := v\<rparr>) = name_bytes p s"
  by (simp_all add: tables_ok_def guests_def fun_eq_iff name_bytes_def load_mem_eq)

text \<open>A section that is entered and left changes nothing but what the body does.\<close>

lemma in_section_A:
  assumes "mutexes_free s" and "f (s\<lparr>mutexA := Some 0\<rparr>) = Inr s'" and "mutexA s' = Some 0"
  shows "rbind (wait_A s) (\<lambda>s1. rbind (f s1) post_A) = Inr (s'\<lparr>mutexA := Some 1\<rparr>)"
  using assms by (simp add: mutexes_free_def wait_A_def post_A_def sem_wait_val_def sem_post_val_def)

lemma in_section_B:
  assumes "mutexes_free s" and "f (s\<lparr>mutexB := Some 0\<rparr>) = Inr s'" and "mutexB s' = Some 0"
  shows "rbind (wait_B s) (\<lambda>s1. rbind (f s1) post_B) = Inr (s'\<lparr>mutexB := Some 1\<rparr>)"
  using assms by (simp add: mutexes_free_def wait_B_def post_B_def sem_wait_val_def sem_post_val_def)

lemma emit_in_section:
  assumes "mutexes_free s"
  shows "(emit os (s\<lparr>mutexA := Some 0\<rparr>))\<lparr>mutexA := Some 1\<rparr> = emit os s"
    and "(emit os (s\<lparr>mutexB := Some 0\<rparr>))\<lparr>mutexB := Some 1\<rparr> = emit os s"
  using assms by (simp_all add: emit_def mutexes_free_def)

lemma booked_in_section:
  assumes "mutexes_free s"
  shows "booked n x (s\<lparr>mutexA := Some 0\<rparr>) s' \<Longrightarrow> booked n x s (s'\<lparr>mutexA := Some 1\<rparr>) \<and> mutexA s' = Some 0"
    and "booked n x (s\<lparr>mutexB := Some 0\<rparr>) s' \<Longrightarrow> booked n x s (s'\<lparr>mutexB := Some 1\<rparr>) \<and> mutexB s' = Some 0"
  using assms by (simp_all add: booked_def mutexes_free_def)

text \<open>The two outcomes a caller may see.\<close>

definition specific_outcome :: "byte \<Rightarrow> int \<Rightarrow> byte list \<Rightarrow> resv \<Rightarrow> resv \<Rightarrow> bool" where
  "specific_outcome c no x s s' \<longleftrightarrow>
     (if no \<notin> section_tables c then s' = emit [InvalidNumber] s
      else if guests s no \<noteq> None then s' = emit [CannotReserve] s
      else booked no x s s')"

definition some_outcome :: "byte \<Rightarrow> byte list \<Rightarrow> resv \<Rightarrow> resv \<Rightarrow> bool" where
  "some_outcome c x s s' \<longleftrightarrow>
     (let free = {n \<in> section_tables c. guests s n = None}
      in if free = {} then s' = emit [NoEmptyTable] s else booked (Min free) x s s')"

lemma reserve_number_outcome:
  assumes "tables_ok s" and "name_bytes p s \<noteq> empty_name"
    and "lo < no \<and> no < hi \<longleftrightarrow> no \<in> section_tables c"
  shows "\<exists>s'. reserve_number lo hi (Some p) no s = Inr s' \<and> specific_outcome c no (name_bytes p s) s s'"
proof (cases "no \<in> section_tables c")
  case True
  then obtain j where j: "j < 20" "table_number j = no" using section_numbers by fastforce
  have b: "lo < no" "no < hi" using assms(3) True by auto
  note R = reserve_number_ok [OF assms(1) j b]
  show ?thesis
  proof (cases "guests s no = None")
    case free: True
    show ?thesis using R(1) [OF free assms(2)] True free by (simp add: specific_outcome_def)
  next
    case False
    show ?thesis using R(2) [OF False] True False by (simp add: specific_outcome_def)
  qed
next
  case False
  then show ?thesis using assms(3) by (auto simp: reserve_number_def specific_outcome_def)
qed

lemma reserve_any_outcome:
  assumes "tables_ok s" and "name_bytes p s \<noteq> empty_name"
    and "\<forall>i<20. sect (table_number i) \<longleftrightarrow> table_number i \<in> section_tables c"
  shows "\<exists>s'. reserve_any sect (Some p) s = Inr s' \<and> some_outcome c (name_bytes p s) s s'"
proof (cases "{n \<in> section_tables c. guests s n = None} = {}")
  case True
  then show ?thesis
    using reserve_any_ok(1) [OF assms(1,3) section_numbers True] by (simp add: some_outcome_def Let_def)
next
  case False
  then have "some_outcome c x s s' = booked (Min {n \<in> section_tables c. guests s n = None}) x s s'" for x s'
    by (simp only: some_outcome_def Let_def if_False)
  then show ?thesis using reserve_any_ok(2) [OF assms(1,3) section_numbers False assms(2)] by simp
qed

lemma reserveSpecificTable_ok:
  assumes "tables_ok s" and "mutexes_free s" and "c = 65 \<or> c = 66" and "name_bytes p s \<noteq> empty_name"
  shows "\<exists>s'. reserveSpecificTable (Some p) (Some (c # r)) no s = Inr s' \<and> specific_outcome c no (name_bytes p s) s s'"
proof (cases "c = 65")
  case True
  let ?s = "s\<lparr>mutexA := Some 0\<rparr>"
  obtain s' where s': "reserve_number 99 110 (Some p) no ?s = Inr s'"
      "specific_outcome c no (name_bytes p s) ?s s'"
    using reserve_number_outcome [of ?s p 99 no 110 c] section_bounds(1) [OF True] assms(1,4) by auto
  then have "mutexA s' = Some 0 \<and> specific_outcome c no (name_bytes p s) s (s'\<lparr>mutexA := Some 1\<rparr>)"
    using emit_in_section(1) [OF assms(2)] booked_in_section(1) [OF assms(2)]
    by (auto simp: specific_outcome_def emit_def split: if_splits)
  then show ?thesis
    using in_section_A [where f = "reserve_number 99 110 (Some p) no", OF assms(2) s'(1)] True
    by (simp add: reserveSpecificTable_def)
next
  case False
  then have c: "c = 66" using assms(3) by simp
  let ?s = "s\<lparr>mutexB := Some 0\<rparr>"
  obtain s' where s': "reserve_number 199 210 (Some p) no ?s = Inr s'"
      "specific_outcome c no (name_bytes p s) ?s s'"
    using reserve_number_outcome [of ?s p 199 no 210 c] section_bounds(2) [OF c] assms(1,4) by auto
  then have "mutexB s' = Some 0 \<and> specific_outcome c no (name_bytes p s) s (s'\<lparr>mutexB := Some 1\<rparr>)"
    using emit_in_section(2) [OF assms(2)] booked_in_section(2) [OF assms(2)]
    by (auto simp: specific_outcome_def emit_def split: if_splits)
  then show ?thesis
    using in_section_B [where f = "reserve_number 199 210 (Some p) no", OF assms(2) s'(1)] c
    by (simp add: reserveSpecificTable_def)
qed

lemma reserveSomeTable_ok:
  assumes "tables_ok s" and "mutexes_free s" and "c = 65 \<or> c = 66" and "name_bytes p s \<noteq> empty_name"
  shows "\<exists>s'. reserveSomeTable (Some p) (Some (c # r)) s = Inr s' \<and> some_outcome c (name_bytes p s) s s'"
proof (cases "c = 65")
  case True
  let ?s = "s\<lparr>mutexA := Some 0\<rparr>"
  obtain s' where s': "reserve_any (\<lambda>n. n < 200) (Some p) ?s = Inr s'" "some_outcome c (name_bytes p s) ?s s'"
    using reserve_any_outcome [of ?s p "\<lambda>n. n < 200" c] assms(1,4) True section_A by auto
  then have "mutexA s' = Some 0 \<and> some_outcome c (name_bytes p s) s (s'\<lparr>mutexA := Some 1\<rparr>)"
    using emit_in_section(1) [OF assms(2)] booked_in_section(1) [OF assms(2)]
    by (auto simp: some_outcome_def Let_def emit_def simp del: Collect_empty_eq split: if_splits)
  then show ?thesis
    using in_section_A [where f = "reserve_any (\<lambda>n. n < 200) (Some p)", OF assms(2) s'(1)] True
    by (simp add: reserveSomeTable_def)
next
  case False
  then have c: "c = 66" using assms(3) by simp
  let ?s = "s\<lparr>mutexB := Some 0\<rparr>"
  obtain s' where s': "reserve_any (\<lambda>n. 199 < n) (Some p) ?s = Inr s'" "some_outcome c (name_bytes p s) ?s s'"
    using reserve_any_outcome [of ?s p "\<lambda>n. 199 < n" c] assms(1,4) c section_B by auto
  then have "mutexB s' = Some 0 \<and> some_outcome c (name_bytes p s) s (s'\<lparr>mutexB := Some 1\<rparr>)"
    using emit_in_section(2) [OF assms(2)] booked_in_section(2) [OF assms(2)]
    by (auto simp: some_outcome_def Let_def emit_def simp del: Collect_empty_eq split: if_splits)
  then show ?thesis
    using in_section_B [where f = "reserve_any (\<lambda>n. 199 < n) (Some p)", OF assms(2) s'(1)] c
    by (simp add: reserveSomeTable_def)
qed

subsection \<open>The command line\<close>

lemma strtok_word:
  assumes "tok \<noteq> []" and "d \<notin> set tok" and "0 \<notin> set tok" and "c = d \<or> c = 0" and "d \<noteq> 0" and "n = length pre"
  shows "c_strtok d (pre @ tok @ c # rest) n =
    Inr (Some n, pre @ tok @ 0 # rest, n + length tok + (if c = 0 then 0 else 1))"
  using c_strtok_some [of n "pre @ tok @ c # rest" 0 d tok c rest] assms by (auto simp: list_update_append)

lemma strtok_space:
  assumes "tok \<noteq> []" and "32 \<notin> set tok" and "0 \<notin> set tok" and "n = length pre" and "m = Suc (n + length tok)"
  shows "c_strtok 32 (pre @ tok @ 32 # rest) n = Inr (Some n, pre @ tok @ 0 # rest, m)"
  using strtok_word [OF assms(1-3), of 32 n pre rest] assms(4,5) by simp

lemma strtok_last:
  assumes "tok \<noteq> []" and "32 \<notin> set tok" and "0 \<notin> set tok" and "n = length pre" and "m = n + length tok"
  shows "c_strtok 32 (pre @ tok @ 0 # rest) n = Inr (Some n, pre @ tok @ 0 # rest, m)"
  using strtok_word [OF assms(1-3), of 0 n pre rest] assms(4,5) by simp

lemma strtok_end: "d \<noteq> 0 \<Longrightarrow> n = length pre \<Longrightarrow> c_strtok d (pre @ 0 # rest) n = Inr (None, pre @ 0 # rest, n)"
  using c_strtok_none [of n "pre @ 0 # rest" 0 d rest] by simp

text \<open>The words of a request, whatever the rest of the buffer holds.\<close>

definition plain_name :: "byte list \<Rightarrow> bool" where
  "plain_name nm \<longleftrightarrow> nm \<noteq> [] \<and> 32 \<notin> set nm \<and> 0 \<notin> set nm"

definition digits :: "byte list \<Rightarrow> bool" where
  "digits ds \<longleftrightarrow> ds \<noteq> [] \<and> list_all is_digit ds \<and> digits_value ds < 2147483648"

definition request :: "byte list \<Rightarrow> byte \<Rightarrow> byte list \<Rightarrow> byte list" where
  "request nm c num = [114, 32] @ nm @ [32, c] @ (if num = [] then [] else 32 # num) @ [10, 0]"

lemma digits_nonneg: "list_all is_digit ds \<Longrightarrow> 0 \<le> v \<Longrightarrow> 0 \<le> foldl (\<lambda>v d. 10 * v + (int (unat d) - 48)) v ds"
proof (induction ds arbitrary: v)
  case (Cons d ds)
  then have "48 \<le> d" by (simp add: is_digit_def)
  then have "48 \<le> uint d" by (simp add: word_le_def)
  with Cons show ?case by simp
qed simp

lemma digit_not_space: "is_digit d \<Longrightarrow> \<not> is_space d \<and> d \<noteq> 0 \<and> d \<noteq> 32 \<and> d \<noteq> 43 \<and> d \<noteq> 45"
  by (auto simp: is_digit_def is_space_def word_le_nat_alt)

lemma atoi_digits:
  assumes "digits ds"
  shows "c_atoi (ds @ 10 # 0 # junk) = Inr (digits_value ds)"
proof -
  obtain d ds' where ds: "ds = d # ds'" "list_all is_digit ds" using assms by (cases ds) (auto simp: digits_def)
  have nz: "0 \<notin> set (ds @ [10])" using ds(2) digit_not_space by (auto simp: list_all_iff)
  have c: "cstr (ds @ 10 # 0 # junk) = ds @ [10]" "terminated (ds @ 10 # 0 # junk)"
    using cstr_append_nul [OF nz, of junk] terminated_append_nul [of "ds @ [10]" junk] by simp_all
  have "takeWhile is_digit (ds @ [10]) = ds"
    using takeWhile_digits [of ds 10 "[]"] ds(2) by (auto simp: list_all_iff is_digit_def)
  moreover have "dropWhile is_space (ds @ [10]) = ds @ [10]" "hd (ds @ [10]) \<noteq> 45" "hd (ds @ [10]) \<noteq> 43"
    using ds digit_not_space [of d] by auto
  moreover have "0 \<le> digits_value ds" using digits_nonneg [OF ds(2), of 0] by (simp add: digits_value_def)
  ultimately show ?thesis using assms by (simp add: c_atoi_def c digits_def Let_def)
qed

lemma name_bytes_word:
  assumes "plain_name nm"
  shows "takeWhile (\<lambda>b. b \<noteq> 0) (name_bytes (nm @ 0 # r) s) = take 10 nm" and "name_bytes (nm @ 0 # r) s \<noteq> empty_name"
    and "length (name_bytes (nm @ 0 # r) s) = 10"
proof -
  have 32: "32 \<in> set empty_name" by code_simp
  have nm: "0 \<notin> set nm" "32 \<notin> set nm" using assms by (auto simp: plain_name_def)
  have long: "name_bytes (nm @ 0 # r) s = take 10 nm" if "10 \<le> length nm" using that by (simp add: name_bytes_def load_mem_eq)
  have short: "\<exists>z. name_bytes (nm @ 0 # r) s = nm @ 0 # z" if "length nm < 10"
    using that by (cases "10 - length nm") (auto simp: name_bytes_def load_mem_eq)
  show "takeWhile (\<lambda>b. b \<noteq> 0) (name_bytes (nm @ 0 # r) s) = take 10 nm"
  proof (cases "10 \<le> length nm")
    case True
    then show ?thesis using nm by (auto simp: long takeWhile_eq_all_conv dest: in_set_takeD)
  next
    case False
    then obtain z where "name_bytes (nm @ 0 # r) s = nm @ 0 # z" using short by auto
    moreover have "takeWhile (\<lambda>b. b \<noteq> 0) (nm @ 0 # z) = nm" using nm by (subst takeWhile_append2) auto
    ultimately show ?thesis using False by simp
  qed
  show "name_bytes (nm @ 0 # r) s \<noteq> empty_name"
  proof (cases "10 \<le> length nm")
    case True
    then show ?thesis using nm 32 long by (metis in_set_takeD)
  next
    case False
    then obtain z where "name_bytes (nm @ 0 # r) s = nm @ 0 # z" using short by auto
    then show ?thesis using zero_notin_empty_name by (metis in_set_conv_decomp)
  qed
  show "length (name_bytes (nm @ 0 # r) s) = 10" by (simp add: name_bytes_def)
qed

text \<open>How a request is taken apart.\<close>

lemma processCmd_request:
  assumes "plain_name nm" and "c \<noteq> 32" and "c \<noteq> 0"
  shows "digits ds \<Longrightarrow> processCmd (request nm c ds @ junk) s =
      rbind (reserveSpecificTable (Some (nm @ 0 # c # 0 # ds @ 10 # 0 # junk)) (Some (c # 0 # ds @ 10 # 0 # junk))
        (digits_value ds) s) (\<lambda>s1. Inr (1, [114, 0] @ nm @ [0, c, 0] @ ds @ [10, 0] @ junk, s1))"
    and "processCmd (request nm c [] @ junk) s =
      rbind (reserveSomeTable (Some (nm @ 0 # c # 10 # 0 # junk)) (Some (c # 10 # 0 # junk)) s)
        (\<lambda>s1. Inr (1, [114, 0] @ nm @ [0, c, 10, 0] @ junk, s1))"
proof -
  have nm: "nm \<noteq> []" "32 \<notin> set nm" "0 \<notin> set nm" using assms(1) by (auto simp: plain_name_def)
  have r32: "32 \<notin> set [114 :: byte]" "0 \<notin> set [114 :: byte]" by code_simp+
  have d3: "drop (3 + length nm) (114 # 0 # nm @ 0 # rest) = rest" for rest by (simp add: eval_nat_numeral)
  have d5: "drop (5 + length nm) (114 # 0 # nm @ 0 # x # y # rest) = rest" for x y rest by (simp add: eval_nat_numeral)
  have first: "c_strtok 32 ([114, 32] @ rest) 0 = Inr (Some 0, [114, 0] @ rest, 2)" for rest
    using strtok_space [OF _ r32, of 0 "[]" 2 rest] by simp
  have second: "c_strtok 32 ([114, 0] @ nm @ 32 # rest) 2 = Inr (Some 2, [114, 0] @ nm @ 0 # rest, 3 + length nm)" for rest
    using strtok_space [OF nm, of 2 "[114, 0]" "3 + length nm" rest] by simp
  have third: "c_strtok 32 ([114, 0] @ nm @ 0 # c # 32 # rest) (3 + length nm) =
      Inr (Some (3 + length nm), [114, 0] @ nm @ 0 # c # 0 # rest, 5 + length nm)" for rest
    using strtok_space [of "[c]" "3 + length nm" "[114, 0] @ nm @ [0]" "5 + length nm" rest] assms(2,3) by auto
  show "processCmd (request nm c ds @ junk) s =
      rbind (reserveSpecificTable (Some (nm @ 0 # c # 0 # ds @ 10 # 0 # junk)) (Some (c # 0 # ds @ 10 # 0 # junk))
        (digits_value ds) s) (\<lambda>s1. Inr (1, [114, 0] @ nm @ [0, c, 0] @ ds @ [10, 0] @ junk, s1))" if ds: "digits ds"
  proof -
    have "ds \<noteq> []" "32 \<notin> set (ds @ [10])" "0 \<notin> set (ds @ [10])"
      using ds digit_not_space by (auto simp: digits_def list_all_iff)
    then have fourth: "c_strtok 32 ([114, 0] @ nm @ 0 # c # 0 # ds @ 10 # 0 # junk) (5 + length nm) =
        Inr (Some (5 + length nm), [114, 0] @ nm @ 0 # c # 0 # ds @ 10 # 0 # junk, 6 + length nm + length ds)"
      using strtok_last [of "ds @ [10]" "5 + length nm" "[114, 0] @ nm @ [0, c, 0]" "6 + length nm + length ds" junk] by simp
    show ?thesis
      using first [of "nm @ 32 # c # 32 # ds @ 10 # 0 # junk"] second [of "c # 32 # ds @ 10 # 0 # junk"]
        third [of "ds @ 10 # 0 # junk"] fourth \<open>ds \<noteq> []\<close> atoi_digits [OF ds, of junk]
      by (simp add: request_def processCmd_def reserve_cmd_def Let_def rbind_assoc d3 d5)
  qed
  have end1: "c_strtok 32 ([114, 0] @ nm @ 0 # c # 10 # 0 # junk) (3 + length nm) =
      Inr (Some (3 + length nm), [114, 0] @ nm @ 0 # c # 10 # 0 # junk, 5 + length nm)"
    using strtok_last [of "[c, 10]" "3 + length nm" "[114, 0] @ nm @ [0]" "5 + length nm" junk] assms(2,3) by auto
  have end2: "c_strtok 32 ([114, 0] @ nm @ 0 # c # 10 # 0 # junk) (5 + length nm) =
      Inr (None, [114, 0] @ nm @ 0 # c # 10 # 0 # junk, 5 + length nm)"
    using strtok_end [of 32 "5 + length nm" "[114, 0] @ nm @ [0, c, 10]" junk] by simp
  show "processCmd (request nm c [] @ junk) s =
      rbind (reserveSomeTable (Some (nm @ 0 # c # 10 # 0 # junk)) (Some (c # 10 # 0 # junk)) s)
        (\<lambda>s1. Inr (1, [114, 0] @ nm @ [0, c, 10, 0] @ junk, s1))"
    using first [of "nm @ 32 # c # 10 # 0 # junk"] second [of "c # 10 # 0 # junk"] end1 end2
    by (simp add: request_def processCmd_def reserve_cmd_def Let_def rbind_assoc d3 d5)
qed

subsection \<open>Commands never take a table away\<close>

text \<open>The tables stay well formed and every reservation stays with its guest.\<close>

definition extends :: "resv \<Rightarrow> resv \<Rightarrow> bool" where
  "extends s s' \<longleftrightarrow> tables_ok s' \<and> guests s \<subseteq>\<^sub>m guests s' \<and> mutexA s' = mutexA s \<and> mutexB s' = mutexB s"

lemma extends_refl [intro]: "tables_ok s \<Longrightarrow> extends s s"
  by (simp add: extends_def)

lemma extends_trans: "extends s s1 \<Longrightarrow> extends s1 s2 \<Longrightarrow> extends s s2"
  by (auto simp: extends_def intro: map_le_trans)

lemma extends_tables_ok: "extends s s' \<Longrightarrow> tables_ok s'"
  by (simp add: extends_def)

lemma emit_guests [simp]: "guests (emit os s) = guests s" "tables_ok (emit os s) = tables_ok s"
  "mutexA (emit os s) = mutexA s" "mutexB (emit os s) = mutexB s"
  by (simp_all add: emit_def guests_def tables_ok_def fun_eq_iff)

lemma extends_emit [intro]: "tables_ok s \<Longrightarrow> extends s (emit os s)"
  by (simp add: extends_def)

lemma take_table_extends:
  assumes "tables_ok s" and "i < 20" and "guests s (table_number i) = None" and "take_table i h s = Inr s'"
  shows "extends s s'"
proof (cases h)
  case None
  then show ?thesis using assms(4) by (simp add: take_table_def)
next
  case (Some p)
  show ?thesis
    using take_table_ok [OF assms(1,2), of p "fst (load_mem 10 p s)" "snd (load_mem 10 p s)"] assms(3,4) Some
    by (auto simp: extends_def map_le_def)
qed

lemma specific_loop_extends:
  "specific_loop is no h s = Inr s' \<Longrightarrow> tables_ok s \<Longrightarrow> \<forall>i\<in>set is. i < 20 \<Longrightarrow> extends s s'"
proof (induction "is" arbitrary: s)
  case Nil
  then show ?case by auto
next
  case (Cons i "is")
  have i: "i < 20" and tl: "\<forall>i\<in>set is. i < 20" using Cons.prems(3) by auto
  note E = is_empty_ok [OF Cons.prems(2) i] guests_index [OF Cons.prems(2) i]
  consider (other) "tnum (tables s ! i) \<noteq> no" | (free) "tnum (tables s ! i) = no" "guest (tables s ! i) = None"
    | (held) "tnum (tables s ! i) = no" "guest (tables s ! i) \<noteq> None" by blast
  then show ?case
  proof cases
    case other
    then show ?thesis using Cons.IH [of s] Cons.prems tl by simp
  next
    case free
    then obtain s1 where s1: "take_table i h s = Inr s1" "specific_loop is no h s1 = Inr s'"
      using Cons.prems(1) E by (auto simp: rbind_Inr_iff)
    have "extends s s1" using take_table_extends [OF Cons.prems(2) i _ s1(1)] E free by simp
    then show ?thesis using Cons.IH [OF s1(2) _ tl] extends_tables_ok extends_trans by blast
  next
    case held
    then have "specific_loop is no h (emit [CannotReserve] s) = Inr s'" using Cons.prems(1) E by auto
    then have "extends (emit [CannotReserve] s) s'" using Cons.IH [OF _ _ tl] Cons.prems(2) by simp
    then show ?thesis using Cons.prems(2) extends_emit extends_trans by blast
  qed
qed

lemma some_loop_extends:
  assumes "some_loop [0..<20] sect h s = Inr (f, s')" and "tables_ok s"
  shows "extends s s'"
proof (cases "List.find (\<lambda>i. sect (table_number i) \<and> guests s (table_number i) = None) [0..<20]")
  case None
  then show ?thesis using some_loop_find [OF assms(2), of "[0..<20]" sect h] assms by auto
next
  case (Some i)
  then have "i < 20" "guests s (table_number i) = None" by (auto simp: find_upt_Some)
  moreover have "take_table i h s = Inr s'"
    using some_loop_find [OF assms(2), of "[0..<20]" sect h] Some assms(1) by (cases "take_table i h s") auto
  ultimately show ?thesis using take_table_extends [OF assms(2)] by blast
qed

lemma reserve_number_extends: "reserve_number lo hi h no s = Inr s' \<Longrightarrow> tables_ok s \<Longrightarrow> extends s s'"
  using specific_loop_extends [of "[0..<20]" no h s s'] by (auto simp: reserve_number_def BUFF_SIZE_def split: if_splits)

lemma reserve_any_extends:
  assumes "reserve_any sect h s = Inr s'" and "tables_ok s"
  shows "extends s s'"
proof -
  obtain f s1 where s1: "some_loop [0..<20] sect h s = Inr (f, s1)" "s' = (if f then emit [NoEmptyTable] s1 else s1)"
    using assms(1) by (auto simp: reserve_any_def BUFF_SIZE_def rbind_Inr_iff)
  have "extends s s1" by (rule some_loop_extends [OF s1(1) assms(2)])
  then show ?thesis using s1(2) by (simp add: extends_def)
qed

text \<open>The semaphore protocol around a body that extends.\<close>

lemma section_A_extends:
  assumes "rbind (wait_A s) (\<lambda>s1. rbind (f s1) post_A) = Inr s'" and "tables_ok s"
    and "\<forall>s1 s2. f s1 = Inr s2 \<longrightarrow> tables_ok s1 \<longrightarrow> extends s1 s2"
  shows "extends s s'"
proof -
  obtain s1 s2 where st: "wait_A s = Inr s1" "f s1 = Inr s2" "post_A s2 = Inr s'"
    using assms(1) by (auto simp: rbind_Inr_iff)
  have 1: "s1 = s\<lparr>mutexA := mutexA s1\<rparr>" using st(1) by (auto simp: wait_A_def rbind_Inr_iff)
  have 3: "s' = s2\<lparr>mutexA := mutexA s'\<rparr>" using st(3) by (auto simp: post_A_def rbind_Inr_iff)
  have ok: "tables_ok s1" "guests s1 = guests s" "mutexB s1 = mutexB s" using assms(2) by (subst 1; simp)+
  have e: "extends s1 s2" using assms(3) st(2) ok(1) by blast
  have "tables_ok s' = tables_ok s2" "guests s' = guests s2" "mutexB s' = mutexB s2" by (subst 3; simp)+
  moreover have "mutexA s' = mutexA s" using mA.bracket [OF st(1) _ st(3)] e by (simp add: extends_def)
  ultimately show ?thesis using e ok by (simp add: extends_def)
qed

lemma section_B_extends:
  assumes "rbind (wait_B s) (\<lambda>s1. rbind (f s1) post_B) = Inr s'" and "tables_ok s"
    and "\<forall>s1 s2. f s1 = Inr s2 \<longrightarrow> tables_ok s1 \<longrightarrow> extends s1 s2"
  shows "extends s s'"
proof -
  obtain s1 s2 where st: "wait_B s = Inr s1" "f s1 = Inr s2" "post_B s2 = Inr s'"
    using assms(1) by (auto simp: rbind_Inr_iff)
  have 1: "s1 = s\<lparr>mutexB := mutexB s1\<rparr>" using st(1) by (auto simp: wait_B_def rbind_Inr_iff)
  have 3: "s' = s2\<lparr>mutexB := mutexB s'\<rparr>" using st(3) by (auto simp: post_B_def rbind_Inr_iff)
  have ok: "tables_ok s1" "guests s1 = guests s" "mutexA s1 = mutexA s" using assms(2) by (subst 1; simp)+
  have e: "extends s1 s2" using assms(3) st(2) ok(1) by blast
  have "tables_ok s' = tables_ok s2" "guests s' = guests s2" "mutexA s' = mutexA s2" by (subst 3; simp)+
  moreover have "mutexB s' = mutexB s" using mB.bracket [OF st(1) _ st(3)] e by (simp add: extends_def)
  ultimately show ?thesis using e ok by (simp add: extends_def)
qed

lemma reserveSpecificTable_extends:
  "reserveSpecificTable h sect no s = Inr s' \<Longrightarrow> tables_ok s \<Longrightarrow> extends s s'"
  using section_A_extends [where f = "reserve_number 99 110 h no"] section_B_extends [where f = "reserve_number 199 210 h no"]
    reserve_number_extends
  by (auto simp: reserveSpecificTable_def split: option.splits list.splits if_splits)

lemma reserveSomeTable_extends:
  "reserveSomeTable h sect s = Inr s' \<Longrightarrow> tables_ok s \<Longrightarrow> extends s s'"
  using section_A_extends [where f = "reserve_any (\<lambda>n. n < 200) h"] section_B_extends [where f = "reserve_any (\<lambda>n. 199 < n) h"]
    reserve_any_extends
  by (auto simp: reserveSomeTable_def split: option.splits list.splits if_splits)

lemma printTableInfo_lines:
  assumes "printTableInfo s = Inr s'"
  shows "s' = emit (map (\<lambda>i. TableLine (tnum (tables s ! i)) (cstr (name_at (tables s) i))) [0..<BUFF_SIZE]) s"
  using assms
  by (auto simp: printTableInfo_def wait_A_def wait_B_def post_A_def post_B_def sem_wait_val_def sem_post_val_def
      emit_def rbind_Inr_iff Let_def intro!: resv.equality split: option.splits if_splits)

text \<open>The first character that is not a space decides.\<close>

lemma strtok_first:
  assumes "c_strtok d buf 0 = Inr (Some t, buf', q)"
  shows "buf' ! t = hd (dropWhile (\<lambda>x. x = d) buf)"
proof -
  let ?w = "\<lambda>x. x = d" let ?b = "length (takeWhile ?w buf)"
  have t: "t = ?b" and b: "?b < length buf" "buf ! ?b \<noteq> 0" and buf': "buf' = buf \<or> buf' = buf[?b + length (takeWhile (\<lambda>x. x \<noteq> d \<and> x \<noteq> 0) (drop ?b buf)) := 0]"
    using assms by (auto simp: c_strtok_def Let_def split: if_splits)
  have dw: "drop ?b buf = buf ! ?b # drop (Suc ?b) buf" using b(1) by (rule Cons_nth_drop_Suc [symmetric])
  have "buf ! ?b \<noteq> d" using b(1) by (rule nth_length_takeWhile)
  then have "takeWhile (\<lambda>x. x \<noteq> d \<and> x \<noteq> 0) (drop ?b buf) \<noteq> []" using b(2) by (subst dw) simp
  then have "buf' ! t = buf ! ?b" using buf' t by auto
  also have "\<dots> = hd (dropWhile ?w buf)" using b(1) by (simp add: dropWhile_eq_drop hd_drop_conv_nth)
  finally show ?thesis .
qed

lemma initTables_ok:
  assumes "length (tables s) = 20" and "\<forall>i<20. tpad (tables s ! i) = [0, 0]" and "mutexes_free s"
  shows "\<exists>s'. initTables s = Inr s' \<and> tables_ok s' \<and> guests s' = Map.empty \<and> mutexes_free s' \<and> input s' = input s \<and>
    printed s' = printed s"
proof -
  let ?s = "s\<lparr>tables := map (\<lambda>(i, t). init_table i t) (enumerate 0 (tables s))\<rparr>"
  have run: "initTables s = Inr ?s"
    using assms(3)
    by (auto simp: initTables_def mutexes_free_def wait_A_def wait_B_def post_A_def post_B_def sem_wait_val_def
        sem_post_val_def Let_def intro!: resv.equality)
  have nth: "tables ?s ! i = init_table i (tables s ! i)" if "i < 20" for i
    using that assms(1) by (simp add: nth_enumerate_eq)
  have ok: "tables_ok ?s" using assms(1,2) nth by (auto simp: tables_ok_def BUFF_SIZE_def init_table_def)
  have "guest (tables ?s ! i) = None" if "i < 20" for i
    unfolding guest_def nth [OF that] by (simp add: init_table_def)
  then have "guests ?s = Map.empty" by (intro guests_eqI [OF ok ok]) auto
  then show ?thesis using run ok assms(3) by (auto simp: mutexes_free_def)
qed

lemma processCmd_letter:
  assumes "processCmd cmd s = Inr (r, cmd', s')"
  shows "\<exists>t cmd1 sv. c_strtok 32 cmd 0 = Inr (Some t, cmd1, sv) \<and> cmd1 ! t = hd (dropWhile (\<lambda>b. b = 32) cmd)"
  using assms strtok_first [of 32 cmd] by (auto simp: processCmd_def rbind_Inr_iff split: option.splits)

lemma processCmd_extends:
  assumes "processCmd cmd s = Inr (r, cmd', s')" and "tables_ok s" and "hd (dropWhile (\<lambda>b. b = 32) cmd) \<noteq> 105"
  shows "extends s s'"
proof -
  obtain t cmd1 sv where t: "c_strtok 32 cmd 0 = Inr (Some t, cmd1, sv)" "cmd1 ! t \<noteq> 105"
    using processCmd_letter [OF assms(1)] assms(3) by auto
  consider (reserve) cmd2 where "reserve_cmd cmd1 sv s = Inr (cmd2, s')" | (show_tables) "printTableInfo s = Inr s'" | (none) "s' = s"
    using assms(1) t by (auto simp: processCmd_def rbind_Inr_iff Let_def split: if_splits)
  then show ?thesis
  proof cases
    case reserve
    then show ?thesis
      using reserveSpecificTable_extends reserveSomeTable_extends assms(2)
      by (auto simp: reserve_cmd_def rbind_Inr_iff Let_def split: option.splits)
  next
    case show_tables
    then show ?thesis using printTableInfo_lines assms(2) by blast
  next
    case none
    then show ?thesis using assms(2) by auto
  qed
qed

lemma cstr_block: "cstr (x @ 0 # r) = takeWhile (\<lambda>b. b \<noteq> 0) x"
  by (induction x) auto

lemma printTableInfo_run:
  assumes "mutexes_free s"
  shows "printTableInfo s =
    Inr (emit (map (\<lambda>i. TableLine (tnum (tables s ! i)) (cstr (name_at (tables s) i))) [0..<BUFF_SIZE]) s)"
  using assms
  by (auto simp: printTableInfo_def mutexes_free_def wait_A_def wait_B_def post_A_def post_B_def sem_wait_val_def
      sem_post_val_def emit_def Let_def intro!: resv.equality)

lemma table_lines:
  assumes "tables_ok s"
  shows "map (\<lambda>i. TableLine (tnum (tables s ! i)) (cstr (name_at (tables s) i))) [0..<20] =
    map (\<lambda>i. TableLine (table_number i)
      (case guests s (table_number i) of None \<Rightarrow> empty_name | Some x \<Rightarrow> takeWhile (\<lambda>b. b \<noteq> 0) x)) [0..<20]"
proof (rule map_cong)
  fix i assume "i \<in> set [0..<20]"
  then have i: "i < 20" by simp
  show "TableLine (tnum (tables s ! i)) (cstr (name_at (tables s) i)) = TableLine (table_number i)
      (case guests s (table_number i) of None \<Rightarrow> empty_name | Some x \<Rightarrow> takeWhile (\<lambda>b. b \<noteq> 0) x)"
    using tables_okD(2,4) [OF assms i] guests_index [OF assms i] by (auto simp: name_at_def guest_def cstr_block)
qed simp

lemma main_starts_empty:
  assumes "length (tables s) = 20" and "\<forall>i<20. tpad (tables s ! i) = [0, 0]"
    and "mutexA s = None \<or> mutexA s = Some 1" and "mutexB s = None \<or> mutexB s = Some 1"
  shows "\<exists>cmd s0. reservation_main s = command_loop cmd s0 \<and> length cmd = 100 \<and> tables_ok s0 \<and>
    guests s0 = Map.empty \<and> mutexes_free s0 \<and> input s0 = input s \<and> printed s0 = printed s"
proof -
  let ?s = "snd (indet 100 (s\<lparr>mutexA := Some 1, mutexB := Some 1\<rparr>))"
  let ?cmd = "fst (indet 100 (s\<lparr>mutexA := Some 1, mutexB := Some 1\<rparr>))"
  have "sem_open_val (mutexA s) = Some 1" "sem_open_val (mutexB s) = Some 1"
    using assms(3,4) by (auto simp: sem_open_val_def)
  then have main: "reservation_main s = (case initTables ?s of Inl e \<Rightarrow> Some (Inl e) | Inr s3 \<Rightarrow> command_loop ?cmd s3)"
    by (simp add: reservation_main_def Let_def split_beta del: One_nat_def)
  obtain s0 where "initTables ?s = Inr s0" "tables_ok s0" "guests s0 = Map.empty" "mutexes_free s0" "input s0 = input ?s" "printed s0 = printed ?s"
    using initTables_ok [of ?s] assms(1,2) by (auto simp: indet_def mutexes_free_def)
  then show ?thesis unfolding main by (intro exI [of _ ?cmd] exI [of _ s0]) (simp add: indet_def)
qed

subsection \<open>Properties\<close>

text \<open>A concrete shared memory: all tables empty, one of them then reserved.\<close>

definition demo_tables :: resv where
  "demo_tables = \<lparr>unk = sconst 0, tables = map (\<lambda>i. \<lparr>tnum = table_number i, tname = empty_name, tpad = [0, 0]\<rparr>) [0..<20],
     mutexA = Some 1, mutexB = Some 1, input = [], printed = []\<rparr>"

lemma demo_tables_ok: "tables_ok demo_tables \<and> mutexes_free demo_tables \<and> guests demo_tables = Map.empty"
proof -
  have ok: "tables_ok demo_tables" by (simp add: tables_ok_def demo_tables_def BUFF_SIZE_def)
  have "guests demo_tables = Map.empty"
    by (rule guests_eqI [OF ok ok]) (auto simp: demo_tables_def guest_def)
  then show ?thesis using ok by (simp add: mutexes_free_def demo_tables_def)
qed

text \<open>C15: The command line \<open>r <name> <section> <number>\<close> reserves exactly that table for the name
  (its first ten characters) if the number belongs to the section and the table is empty; it
  prints that the table cannot be reserved when it is taken, and that the number is invalid when
  it is not one of the section. Nothing else changes, the semaphores are free again afterwards,
  and this holds whatever the line buffer holds behind the request.\<close>

theorem request_specific:
  assumes "tables_ok s" and "mutexes_free s" and "c = 65 \<or> c = 66" and "plain_name nm" and "digits ds"
  shows "\<exists>cmd' s' x. processCmd (request nm c ds @ junk) s = Inr (1, cmd', s') \<and>
    length x = 10 \<and> takeWhile (\<lambda>b. b \<noteq> 0) x = take 10 nm \<and> specific_outcome c (digits_value ds) x s s'"
proof -
  let ?p = "nm @ 0 # c # 0 # ds @ 10 # 0 # junk"
  note w = name_bytes_word [OF assms(4), of "c # 0 # ds @ 10 # 0 # junk" s]
  obtain s' where "reserveSpecificTable (Some ?p) (Some (c # 0 # ds @ 10 # 0 # junk)) (digits_value ds) s = Inr s'"
      "specific_outcome c (digits_value ds) (name_bytes ?p s) s s'"
    using reserveSpecificTable_ok [OF assms(1-3) w(2)] by blast
  then show ?thesis using processCmd_request(1) [OF assms(4) _ _ assms(5), of c junk s] assms(3) w by auto
qed

theorem request_specific_witness:
  "\<exists>cmd' s' x. processCmd (request (bytes_of ''bob'') 65 (bytes_of ''103'') @ []) demo_tables = Inr (1, cmd', s') \<and>
    length x = 10 \<and> takeWhile (\<lambda>b. b \<noteq> 0) x = take 10 (bytes_of ''bob'') \<and>
    specific_outcome 65 (digits_value (bytes_of ''103'')) x demo_tables s'"
proof -
  have "plain_name (bytes_of ''bob'')" "digits (bytes_of ''103'')" by code_simp+
  then show ?thesis using request_specific demo_tables_ok by blast
qed

text \<open>C28: The command line \<open>r <name> <section>\<close> without a number gives the guest the empty table of
  the smallest number of the section, and prints that there is none exactly when all ten are
  taken; the semaphores are free again afterwards.\<close>

theorem request_some:
  assumes "tables_ok s" and "mutexes_free s" and "c = 65 \<or> c = 66" and "plain_name nm"
  shows "\<exists>cmd' s' x. processCmd (request nm c [] @ junk) s = Inr (1, cmd', s') \<and>
    length x = 10 \<and> takeWhile (\<lambda>b. b \<noteq> 0) x = take 10 nm \<and> some_outcome c x s s'"
proof -
  let ?p = "nm @ 0 # c # 10 # 0 # junk"
  note w = name_bytes_word [OF assms(4), of "c # 10 # 0 # junk" s]
  obtain s' where "reserveSomeTable (Some ?p) (Some (c # 10 # 0 # junk)) s = Inr s'"
      "some_outcome c (name_bytes ?p s) s s'"
    using reserveSomeTable_ok [OF assms(1-3) w(2)] by blast
  then show ?thesis using processCmd_request(2) [OF assms(4), of c junk s] assms(3) w by auto
qed

theorem request_some_witness:
  "\<exists>cmd' s' x. processCmd (request (bytes_of ''alice'') 66 [] @ []) demo_tables = Inr (1, cmd', s') \<and>
    length x = 10 \<and> takeWhile (\<lambda>b. b \<noteq> 0) x = take 10 (bytes_of ''alice'') \<and> some_outcome 66 x demo_tables s'"
proof -
  have "plain_name (bytes_of ''alice'')" by code_simp
  then show ?thesis using request_some demo_tables_ok by blast
qed

text \<open>C29: No double booking. Whatever the buffer holds, a command that returns and whose first letter is
  not \<open>i\<close> keeps the tables well formed, leaves every reservation with its guest and returns
  both semaphores as it found them.\<close>

theorem commands_keep_reservations:
  assumes "processCmd cmd s = Inr (r, cmd', s')" and "tables_ok s" and "hd (dropWhile (\<lambda>b. b = 32) cmd) \<noteq> 105"
  shows "tables_ok s' \<and> guests s \<subseteq>\<^sub>m guests s' \<and> mutexA s' = mutexA s \<and> mutexB s' = mutexB s"
  using processCmd_extends [OF assms] by (simp add: extends_def)

theorem commands_keep_reservations_witness:
  "\<exists>cmd' s'. processCmd (request (bytes_of ''bob'') 65 (bytes_of ''103'') @ []) demo_tables = Inr (1, cmd', s') \<and>
    tables_ok s' \<and> guests demo_tables \<subseteq>\<^sub>m guests s' \<and> mutexA s' = mutexA demo_tables \<and> mutexB s' = mutexB demo_tables"
proof -
  let ?r = "0 # 65 # 0 # bytes_of ''103'' @ 10 # 0 # []"
  have w: "plain_name (bytes_of ''bob'')" "digits (bytes_of ''103'')" by code_simp+
  obtain s' where s': "reserveSpecificTable (Some (bytes_of ''bob'' @ ?r)) (Some (tl ?r)) (digits_value (bytes_of ''103'')) demo_tables = Inr s'"
    using reserveSpecificTable_ok [OF _ _ _ name_bytes_word(2) [OF w(1), of "tl ?r" demo_tables], of 65] demo_tables_ok by auto
  then have run: "processCmd (request (bytes_of ''bob'') 65 (bytes_of ''103'') @ []) demo_tables =
      Inr (1, [114, 0] @ bytes_of ''bob'' @ [0, 65, 0] @ bytes_of ''103'' @ [10, 0] @ [], s')"
    using processCmd_request(1) [OF w(1) _ _ w(2), of 65 "[]" demo_tables] by simp
  have "hd (dropWhile (\<lambda>b. b = 32) (request (bytes_of ''bob'') 65 (bytes_of ''103'') @ [])) \<noteq> 105" by code_simp
  then show ?thesis using commands_keep_reservations [OF run] demo_tables_ok run by blast
qed

text \<open>The command \<open>s\<close> prints the twenty tables in order, each with its number and with the
  name of its guest (\<open>empty\<close> if it has none): the ten bytes of a name that fills them are
  ended by the zero padding of the structure.\<close>

theorem printTableInfo_correct:
  assumes "tables_ok s" and "mutexes_free s"
  shows "printTableInfo s = Inr (emit (map (\<lambda>i. TableLine (table_number i)
    (case guests s (table_number i) of None \<Rightarrow> empty_name | Some x \<Rightarrow> takeWhile (\<lambda>b. b \<noteq> 0) x)) [0..<20]) s)"
  unfolding printTableInfo_run [OF assms(2)] BUFF_SIZE_def table_lines [OF assms(1)] ..

theorem printTableInfo_correct_witness:
  "printTableInfo demo_tables = Inr (emit (map (\<lambda>i. TableLine (table_number i) empty_name) [0..<20]) demo_tables)"
  using printTableInfo_correct [of demo_tables] demo_tables_ok by simp

text \<open>Starting the program empties all tables: whatever reservations the shared memory holds
  when a process starts, the command loop begins with none of them. The program initialises
  the tables it may share with processes that are running already.\<close>

theorem startup_wipes:
  assumes "length (tables s) = 20" and "\<forall>i<20. tpad (tables s ! i) = [0, 0]"
    and "mutexA s = None \<or> mutexA s = Some 1" and "mutexB s = None \<or> mutexB s = Some 1"
  shows "\<exists>cmd s0. reservation_main s = command_loop cmd s0 \<and> length cmd = 100 \<and> tables_ok s0 \<and>
    guests s0 = Map.empty \<and> mutexes_free s0 \<and> input s0 = input s"
  using main_starts_empty [OF assms] by blast

theorem startup_wipes_witness:
  "let s = demo_tables\<lparr>tables := (tables demo_tables)[3 := \<lparr>tnum = 103, tname = bytes_of ''bob12345  '', tpad = [0, 0]\<rparr>]\<rparr> in
   guests s 103 \<noteq> None \<and>
   (\<exists>cmd s0. reservation_main s = command_loop cmd s0 \<and> length cmd = 100 \<and> tables_ok s0 \<and>
     guests s0 = Map.empty \<and> mutexes_free s0 \<and> input s0 = input s)"
proof -
  let ?s = "demo_tables\<lparr>tables := (tables demo_tables)[3 := \<lparr>tnum = 103, tname = bytes_of ''bob12345  '', tpad = [0, 0]\<rparr>]\<rparr>"
  have f: "length (tables ?s) = 20" "mutexA ?s = Some 1" "mutexB ?s = Some 1" by (simp_all add: demo_tables_def)
  have pad: "\<forall>i<20. tpad (tables ?s ! i) = [0, 0]" by (simp add: demo_tables_def nth_list_update)
  have ok: "tables_ok ?s"
    by (auto simp: tables_ok_def demo_tables_def BUFF_SIZE_def nth_list_update table_number_def bytes_of_def)
  have "bytes_of ''bob12345  '' \<noteq> empty_name" by code_simp
  then have "guests ?s 103 \<noteq> None"
    using guests_index [OF ok, of 3] by (simp add: demo_tables_def guest_def table_number_def)
  then show ?thesis using startup_wipes [OF f(1) pad] f by (simp only: Let_def) blast
qed

lemma no_input: "input s = [] \<Longrightarrow> c_fgets 100 cmd (input s) = (cmd, []) \<and> s\<lparr>input := []\<rparr> = s"
  by (simp add: c_fgets_def)

lemma show_command:
  "processCmd (115 # 10 # 0 # junk) s = rbind (printTableInfo s) (\<lambda>s1. Inr (1, 115 # 10 # 0 # junk, s1))"
proof -
  have w: "[115, 10] \<noteq> []" "32 \<notin> set [115, 10 :: byte]" "0 \<notin> set [115, 10 :: byte]" by code_simp+
  show ?thesis using strtok_last [OF w, of 0 "[]" 2 junk] by (simp add: processCmd_def)
qed

text \<open>A run that ends does not start from an exhausted input and the line \<open>s\<close> in the buffer.\<close>

lemma show_for_ever:
  "command_loop cmd s = Some r \<Longrightarrow> cmd = 115 # 10 # 0 # junk \<Longrightarrow> input s = [] \<Longrightarrow> mutexes_free s \<Longrightarrow> False"
proof (induction cmd s r rule: command_loop.raw_induct [rotated, consumes 1, case_names step])
  case (step loop cmd s r)
  obtain os where "printTableInfo s = Inr (emit os s)"
    using printTableInfo_run [OF step(5)] by blast
  then have "loop cmd (emit os s) = Some r"
    using step(2,3) no_input [OF step(4)] by (simp add: show_command)
  then show False
    using step(1) [OF _ step(3), of "emit os s" r] step(4,5) by (simp add: emit_def mutexes_free_def)
qed

text \<open>C38: At the end of the input \<open>fgets\<close> leaves the last line in the buffer and \<open>main\<close> does not look:
  after a last line \<open>s\<close> the program shows the tables again and again and never ends.\<close>

theorem end_of_input_repeats:
  assumes "input s = []" and "mutexes_free s"
  shows "command_loop (115 # 10 # 0 # junk) s = None"
proof (cases "command_loop (115 # 10 # 0 # junk) s")
  case (Some r)
  then show ?thesis using show_for_ever assms by blast
qed

theorem end_of_input_repeats_witness: "command_loop (115 # 10 # 0 # []) demo_tables = None"
  using end_of_input_repeats [of demo_tables "[]"] demo_tables_ok by (simp add: demo_tables_def)

text \<open>After a last line that reserves, the words of the buffer are ended by NUL bytes already, so
  the second run of \<open>processCmd\<close> over it finds no section and dereferences \<open>NULL\<close>.\<close>

theorem end_of_input_crash:
  assumes "tables_ok s" and "mutexes_free s" and "c = 65 \<or> c = 66" and "plain_name nm" and "input s = []"
  shows "command_loop (request nm c [] @ junk) s = Some (Inl NullDeref)"
proof -
  let ?p = "nm @ 0 # c # 10 # 0 # junk"
  obtain s' where s': "reserveSomeTable (Some ?p) (Some (c # 10 # 0 # junk)) s = Inr s'" "some_outcome c (name_bytes ?p s) s s'"
    using reserveSomeTable_ok [OF assms(1-3) name_bytes_word(2) [OF assms(4)]] by blast
  have empty: "input s' = []"
    using s'(2) assms(5) by (auto simp: some_outcome_def Let_def booked_def emit_def simp del: Collect_empty_eq split: if_splits)
  have run: "processCmd (request nm c [] @ junk) s = Inr (1, [114, 0] @ nm @ [0, c, 10, 0] @ junk, s')"
    using processCmd_request(2) [OF assms(4), of c junk s] assms(3) s'(1) by auto
  have r: "[114] \<noteq> []" "32 \<notin> set [114 :: byte]" "0 \<notin> set [114 :: byte]" by code_simp+
  have "processCmd ([114, 0] @ nm @ [0, c, 10, 0] @ junk) s' = Inl NullDeref"
    using strtok_last [OF r, of 0 "[]" 1 "nm @ [0, c, 10, 0] @ junk"] strtok_end [of 32 1 "[114]" "nm @ [0, c, 10, 0] @ junk"]
    by (simp add: processCmd_def reserve_cmd_def reserveSomeTable_def Let_def)
  then have "command_loop ([114, 0] @ nm @ [0, c, 10, 0] @ junk) s' = Some (Inl NullDeref)"
    unfolding command_loop.simps [of _ s'] using no_input [OF empty] by simp
  then show ?thesis
    unfolding command_loop.simps [of "request nm c [] @ junk"] using run no_input [OF assms(5)] by simp
qed

theorem end_of_input_crash_witness:
  "command_loop (request (bytes_of ''bob'') 65 [] @ []) demo_tables = Some (Inl NullDeref)"
proof -
  have "plain_name (bytes_of ''bob'')" by code_simp
  moreover have "input demo_tables = []" by (simp add: demo_tables_def)
  ultimately show ?thesis using end_of_input_crash demo_tables_ok by blast
qed

end
