(* ===== verification/Reservation_Locks.thy ===== *)
theory Reservation_Locks
  imports Reservation
begin

text \<open>
  Several processes of the reservation program on the same shared memory. Every process
  is at a place in one of the four functions that touch the tables; \<open>advance\<close> is the next
  action of a process there: a wait or a post, the comparison of one table, the copy of
  the name into it. Between the comparison and the copy any other process may run.

  The invariant says who holds which semaphore and that a table a process is about to
  take is still empty; with it a reservation made by one process is never overwritten by
  another, and the processes never wait for each other in a circle.
\<close>

subsection \<open>Processes\<close>

datatype section_id = SecA | SecB

text \<open>The order in which a process takes the semaphores when it needs both.\<close>

instantiation section_id :: linorder
begin

definition less_section_id :: "section_id \<Rightarrow> section_id \<Rightarrow> bool" where
  "sec < sec' \<longleftrightarrow> sec = SecA \<and> sec' = SecB"

definition less_eq_section_id :: "section_id \<Rightarrow> section_id \<Rightarrow> bool" where
  "sec \<le> sec' \<longleftrightarrow> sec = SecA \<or> sec' = SecB"

instance
proof
  fix a b c :: section_id
  show "a < b \<longleftrightarrow> a \<le> b \<and> \<not> b \<le> a"
    by (cases a; cases b) (simp_all add: less_section_id_def less_eq_section_id_def)
  show "a \<le> a" "a \<le> b \<or> b \<le> a" by (cases a; cases b; simp add: less_eq_section_id_def)+
  show "a \<le> c" if "a \<le> b" "b \<le> c" using that by (cases a; cases b; cases c) (simp_all add: less_eq_section_id_def)
  show "a = b" if "a \<le> b" "b \<le> a" using that by (cases a; cases b) (simp_all add: less_eq_section_id_def)
qed

end

lemma section_upward:
  assumes step: "\<And>sec. (\<And>sec'. sec < sec' \<Longrightarrow> P sec') \<Longrightarrow> P (sec :: section_id)"
  shows "P sec"
proof -
  have B: "P SecB"
  proof (rule step)
    fix sec' assume "SecB < sec'"
    then show "P sec'" by (simp add: less_section_id_def)
  qed
  have "P SecA"
  proof (rule step)
    fix sec' assume "SecA < sec'"
    then show "P sec'" using B by (simp add: less_section_id_def)
  qed
  with B show ?thesis by (cases sec) simp_all
qed

lemma section_neq [simp]: "sec \<noteq> SecA \<longleftrightarrow> sec = SecB" "sec \<noteq> SecB \<longleftrightarrow> sec = SecA"
  by (cases sec; simp)+

text \<open>\<open>reserveSpecificTable\<close> and \<open>reserveSomeTable\<close>\<close>

datatype request_kind = Specific int | AnyTable

text \<open>\<open>initTables\<close> and \<open>printTableInfo\<close>\<close>

datatype both_kind = Init | Show

datatype pc =
    Idle
  | WaitSec section_id request_kind "byte list"
  | Scan section_id request_kind "byte list" nat
  | Copy section_id request_kind "byte list" nat
  | PostSec section_id
  | WaitBothA both_kind
  | WaitBothB both_kind
  | BothBody both_kind nat
  | PostBothA
  | PostBothB

record conc =
  lockA :: "nat option"
  lockB :: "nat option"
  names :: "byte list list"
  pcs :: "nat \<Rightarrow> pc"

definition valid_number :: "section_id \<Rightarrow> request_kind \<Rightarrow> bool" where
  "valid_number sec r =
     (case r of AnyTable \<Rightarrow> True
      | Specific n \<Rightarrow> (case sec of SecA \<Rightarrow> 99 < n \<and> n < 110 | SecB \<Rightarrow> 199 < n \<and> n < 210))"

definition wanted :: "section_id \<Rightarrow> request_kind \<Rightarrow> nat \<Rightarrow> bool" where
  "wanted sec r i =
     (case r of Specific n \<Rightarrow> table_number i = n
      | AnyTable \<Rightarrow> (case sec of SecA \<Rightarrow> table_number i < 200 | SecB \<Rightarrow> 199 < table_number i))"

fun wait_sec :: "section_id \<Rightarrow> conc \<Rightarrow> conc result" where
  "wait_sec SecA s = rbind (sem_wait_val (lockA s)) (\<lambda>v. Inr (s\<lparr>lockA := v\<rparr>))"
| "wait_sec SecB s = rbind (sem_wait_val (lockB s)) (\<lambda>v. Inr (s\<lparr>lockB := v\<rparr>))"

fun post_sec :: "section_id \<Rightarrow> conc \<Rightarrow> conc result" where
  "post_sec SecA s = rbind (sem_post_val (lockA s)) (\<lambda>v. Inr (s\<lparr>lockA := v\<rparr>))"
| "post_sec SecB s = rbind (sem_post_val (lockB s)) (\<lambda>v. Inr (s\<lparr>lockB := v\<rparr>))"

fun lock_of :: "section_id \<Rightarrow> conc \<Rightarrow> nat option" where
  "lock_of SecA s = lockA s"
| "lock_of SecB s = lockB s"

interpretation cs: semaphore "wait_sec sec" "post_sec sec" "lock_of sec" for sec
  by (unfold_locales; cases sec)
    (auto simp: sem_wait_val_def sem_post_val_def split: option.splits if_splits)

text \<open>The next action of a process at a place: the place after it and the new memory.\<close>

fun advance :: "pc \<Rightarrow> conc \<Rightarrow> (pc \<times> conc) result" where
  "advance Idle s = Inr (Idle, s)"
| "advance (WaitSec sec r x) s =
     rbind (wait_sec sec s) (\<lambda>s1. Inr (if valid_number sec r then Scan sec r x 0 else PostSec sec, s1))"
| "advance (Scan sec r x i) s =
     Inr (if i < BUFF_SIZE then if wanted sec r i \<and> names s ! i = empty_name then Copy sec r x i else Scan sec r x (Suc i)
          else PostSec sec, s)"
| "advance (Copy sec r x i) s =
     Inr (case r of Specific n \<Rightarrow> Scan sec r x (Suc i) | AnyTable \<Rightarrow> PostSec sec, s\<lparr>names := (names s)[i := x]\<rparr>)"
| "advance (PostSec sec) s = rbind (post_sec sec s) (\<lambda>s1. Inr (Idle, s1))"
| "advance (WaitBothA k) s = rbind (wait_sec SecA s) (\<lambda>s1. Inr (WaitBothB k, s1))"
| "advance (WaitBothB k) s = rbind (wait_sec SecB s) (\<lambda>s1. Inr (BothBody k 0, s1))"
| "advance (BothBody k i) s =
     (if i < BUFF_SIZE then Inr (BothBody k (Suc i), case k of Init \<Rightarrow> s\<lparr>names := (names s)[i := empty_name]\<rparr> | Show \<Rightarrow> s)
      else Inr (PostBothA, s))"
| "advance PostBothA s = rbind (post_sec SecA s) (\<lambda>s1. Inr (PostBothB, s1))"
| "advance PostBothB s = rbind (post_sec SecB s) (\<lambda>s1. Inr (Idle, s1))"

definition move :: "nat \<Rightarrow> pc \<Rightarrow> conc \<Rightarrow> conc" where
  "move p c s = s\<lparr>pcs := (pcs s)(p := c)\<rparr>"

text \<open>A process that is reading its input starts the command it reads.\<close>

inductive starts :: "pc \<Rightarrow> bool" where
  "starts (WaitSec sec r x)"
| "starts (WaitBothA k)"

inductive step :: "nat \<Rightarrow> conc \<Rightarrow> conc \<Rightarrow> bool" where
  command: "pcs s p = Idle \<Longrightarrow> starts c \<Longrightarrow> step p s (move p c s)"
| action: "pcs s p \<noteq> Idle \<Longrightarrow> advance (pcs s p) s = Inr (c, s') \<Longrightarrow> step p s (move p c s')"

inductive_cases stepE: "step p s s'"
inductive_cases starts_cases: "starts c"
inductive_simps starts_simps: "starts Idle" "starts (Copy sec r x i)"

inductive reach :: "conc \<Rightarrow> bool" where
  boot: "lockA s = Some 1 \<Longrightarrow> lockB s = Some 1 \<Longrightarrow> length (names s) = BUFF_SIZE \<Longrightarrow> \<forall>p. pcs s p = Idle \<Longrightarrow> reach s"
| after: "reach s \<Longrightarrow> step p s s' \<Longrightarrow> reach s'"

subsection \<open>Who holds what\<close>

fun holds :: "section_id \<Rightarrow> pc \<Rightarrow> bool" where
  "holds sec (Scan sec' r x i) = (sec' = sec)"
| "holds sec (Copy sec' r x i) = (sec' = sec)"
| "holds sec (PostSec sec') = (sec' = sec)"
| "holds sec (WaitBothB k) = (sec = SecA)"
| "holds sec (BothBody k i) = True"
| "holds sec PostBothA = True"
| "holds sec PostBothB = (sec = SecB)"
| "holds sec c = False"

definition holders :: "section_id \<Rightarrow> conc \<Rightarrow> nat set" where
  "holders sec s = {p. holds sec (pcs s p)}"

definition lock_ok :: "section_id \<Rightarrow> conc \<Rightarrow> bool" where
  "lock_ok sec s \<longleftrightarrow>
     lock_of sec s = Some 1 \<and> holders sec s = {} \<or> lock_of sec s = Some 0 \<and> (\<exists>p. holders sec s = {p})"

text \<open>The tables of a section by index.\<close>

definition in_section :: "section_id \<Rightarrow> nat \<Rightarrow> bool" where
  "in_section sec i \<longleftrightarrow> (case sec of SecA \<Rightarrow> i < 10 | SecB \<Rightarrow> 10 \<le> i \<and> i < 20)"

fun pc_ok :: "byte list list \<Rightarrow> pc \<Rightarrow> bool" where
  "pc_ok ns (Scan sec r x i) = valid_number sec r"
| "pc_ok ns (Copy sec r x i) = (valid_number sec r \<and> in_section sec i \<and> ns ! i = empty_name)"
| "pc_ok ns c = True"

definition conc_inv :: "conc \<Rightarrow> bool" where
  "conc_inv s \<longleftrightarrow> length (names s) = BUFF_SIZE \<and> (\<forall>sec. lock_ok sec s) \<and> (\<forall>p. pc_ok (names s) (pcs s p))"

lemma wanted_in_section: "wanted sec r i \<Longrightarrow> valid_number sec r \<Longrightarrow> i < 20 \<Longrightarrow> in_section sec i"
  by (auto simp: wanted_def valid_number_def in_section_def table_number_def
      split: request_kind.splits section_id.splits if_splits)

lemma holders_move: "holders sec (move p c s) = (if holds sec c then insert p (holders sec s) else holders sec s - {p})"
  by (auto simp: holders_def move_def)

lemma move_simps [simp]: "names (move p c s) = names s" "lock_of sec (move p c s) = lock_of sec s"
  "pcs (move p c s) = (pcs s)(p := c)"
  by (cases sec; simp add: move_def)+

text \<open>An action that takes, keeps, gives back or does not touch a semaphore.\<close>

lemma lock_ok_keep:
  assumes "lock_ok sec s" and "lock_of sec s' = lock_of sec s" and "pcs s' = pcs s" and "holds sec c = holds sec (pcs s p)"
  shows "lock_ok sec (move p c s')"
proof -
  have "holders sec (move p c s') = holders sec s"
    using assms(3,4) by (auto simp: holders_def)
  then show ?thesis using assms(1,2) by (simp add: lock_ok_def)
qed

lemma lock_ok_take:
  assumes "lock_ok sec s" and "wait_sec sec s = Inr s'" and "pcs s' = pcs s" and "holds sec c"
  shows "lock_ok sec (move p c s')"
proof -
  have "lock_of sec s = Some 1 \<and> holders sec s = {}" "lock_of sec s' = Some 0"
    using assms(1) cs.wait_val [OF assms(2)] by (auto simp: lock_ok_def)
  moreover have "holders sec s' = holders sec s" using assms(3) by (simp add: holders_def)
  ultimately show ?thesis using assms(4) by (simp add: lock_ok_def holders_move)
qed

lemma lock_ok_give:
  assumes "lock_ok sec s" and "post_sec sec s = Inr s'" and "pcs s' = pcs s" and "\<not> holds sec c" and "holds sec (pcs s p)"
  shows "lock_ok sec (move p c s')"
proof -
  have "p \<in> holders sec s" using assms(5) by (simp add: holders_def)
  then have "lock_of sec s = Some 0 \<and> holders sec s = {p}" using assms(1) by (auto simp: lock_ok_def)
  moreover have "lock_of sec s' = Some 1" using calculation cs.post_val [OF assms(2)] by auto
  moreover have "holders sec s' = holders sec s" using assms(3) by (simp add: holders_def)
  ultimately show ?thesis using assms(4) by (simp add: lock_ok_def holders_move)
qed

lemma lock_of_other [simp]: "sec \<noteq> SecA \<Longrightarrow> lock_of sec (s\<lparr>lockA := v\<rparr>) = lock_of sec s"
  "sec \<noteq> SecB \<Longrightarrow> lock_of sec (s\<lparr>lockB := v\<rparr>) = lock_of sec s" "lock_of sec (s\<lparr>names := ns\<rparr>) = lock_of sec s"
  by (cases sec; simp)+

lemma wait_sec_frame:
  "wait_sec sec s = Inr s' \<Longrightarrow> names s' = names s \<and> pcs s' = pcs s \<and> (\<forall>sec'. sec' \<noteq> sec \<longrightarrow> lock_of sec' s' = lock_of sec' s)"
  by (cases sec) (auto simp: rbind_Inr_iff)

lemma post_sec_frame:
  "post_sec sec s = Inr s' \<Longrightarrow> names s' = names s \<and> pcs s' = pcs s \<and> (\<forall>sec'. sec' \<noteq> sec \<longrightarrow> lock_of sec' s' = lock_of sec' s)"
  by (cases sec) (auto simp: rbind_Inr_iff)

subsection \<open>The invariant\<close>

lemma only_holder:
  assumes "conc_inv s" and "holds sec (pcs s p)" and "holds sec (pcs s q)"
  shows "p = q"
proof -
  have "p \<in> holders sec s" "q \<in> holders sec s" using assms(2,3) by (simp_all add: holders_def)
  moreover have "lock_ok sec s" using assms(1) by (simp add: conc_inv_def)
  ultimately show ?thesis by (auto simp: lock_ok_def)
qed

text \<open>Writing a table of a section that is held disturbs no other process.\<close>

lemma pc_ok_write:
  assumes "conc_inv s" and "\<forall>sec. in_section sec j \<longrightarrow> holds sec (pcs s p)" and "q \<noteq> p"
  shows "pc_ok ((names s)[j := x]) (pcs s q)"
proof -
  have ok: "pc_ok (names s) (pcs s q)" using assms(1) by (simp add: conc_inv_def)
  have "i \<noteq> j" if "pcs s q = Copy sec r y i" for sec r y i
    using that ok assms(2,3) only_holder [OF assms(1), of sec q p] by auto
  then show ?thesis using ok by (cases "pcs s q") auto
qed

lemma conc_invI:
  assumes "length (names s') = BUFF_SIZE" and "lock_ok SecA (move p c s')" and "lock_ok SecB (move p c s')"
    and "pc_ok (names s') c" and "\<forall>q. q \<noteq> p \<longrightarrow> pc_ok (names s') (pcs s' q)"
  shows "conc_inv (move p c s')"
proof -
  have "lock_ok sec (move p c s')" for sec using assms(2,3) by (cases sec) simp_all
  then show ?thesis using assms(1,4,5) by (simp add: conc_inv_def)
qed

lemma conc_invD:
  assumes "conc_inv s"
  shows "length (names s) = BUFF_SIZE" and "lock_ok sec s" and "pc_ok (names s) (pcs s q)"
  using assms by (simp_all add: conc_inv_def)

text \<open>Only a wait takes and only a post gives back.\<close>

lemma keep_inv:
  assumes "conc_inv s" and "\<forall>sec. holds sec c = holds sec (pcs s p)" and "pc_ok (names s) c"
  shows "conc_inv (move p c s)"
  using assms conc_invD [OF assms(1)] by (auto intro!: conc_invI lock_ok_keep)

lemma write_inv:
  assumes "conc_inv s" and "\<forall>sec. holds sec c = holds sec (pcs s p)" and "\<forall>sec. in_section sec j \<longrightarrow> holds sec (pcs s p)"
    and "\<forall>ns. pc_ok ns c"
  shows "conc_inv (move p c (s\<lparr>names := (names s)[j := x]\<rparr>))"
  using assms conc_invD [OF assms(1)] pc_ok_write [OF assms(1,3)]
  by (auto intro!: conc_invI lock_ok_keep)

lemma wait_inv:
  assumes "conc_inv s" and "wait_sec sec s = Inr s'" and "holds sec c"
    and "\<forall>sec'. sec' \<noteq> sec \<longrightarrow> holds sec' c = holds sec' (pcs s p)" and "pc_ok (names s) c"
  shows "conc_inv (move p c s')"
proof -
  note fr = wait_sec_frame [OF assms(2)]
  have "lock_ok sec' (move p c s')" for sec'
    using lock_ok_take [OF conc_invD(2) [OF assms(1)] assms(2) _ assms(3)] lock_ok_keep [OF conc_invD(2) [OF assms(1)], of sec' s' c p] fr assms(4)
    by (cases "sec' = sec") auto
  then show ?thesis using assms(5) conc_invD [OF assms(1)] fr by (auto intro!: conc_invI)
qed

lemma post_inv:
  assumes "conc_inv s" and "post_sec sec s = Inr s'" and "holds sec (pcs s p)" and "\<not> holds sec c"
    and "\<forall>sec'. sec' \<noteq> sec \<longrightarrow> holds sec' c = holds sec' (pcs s p)" and "pc_ok (names s) c"
  shows "conc_inv (move p c s')"
proof -
  note fr = post_sec_frame [OF assms(2)]
  have "lock_ok sec' (move p c s')" for sec'
    using lock_ok_give [OF conc_invD(2) [OF assms(1)] assms(2) _ assms(4,3)] lock_ok_keep [OF conc_invD(2) [OF assms(1)], of sec' s' c p] fr assms(5)
    by (cases "sec' = sec") auto
  then show ?thesis using assms(6) conc_invD [OF assms(1)] fr by (auto intro!: conc_invI)
qed

lemma take_action_inv:
  assumes "conc_inv s" and "advance (pcs s p) s = Inr (c, s')"
    and "pcs s p = WaitSec sec r x \<or> pcs s p = WaitBothA k \<or> pcs s p = WaitBothB k"
  shows "conc_inv (move p c s')"
  using assms(3)
proof (elim disjE)
  assume p: "pcs s p = WaitSec sec r x"
  then have w: "wait_sec sec s = Inr s'" and c: "c = (if valid_number sec r then Scan sec r x 0 else PostSec sec)"
    using assms(2) by (auto simp: rbind_Inr_iff)
  show ?thesis unfolding c by (rule wait_inv [OF assms(1) w]) (simp_all add: p)
next
  assume p: "pcs s p = WaitBothA k"
  then have w: "wait_sec SecA s = Inr s'" and c: "c = WaitBothB k"
    using assms(2) by (simp_all only: advance.simps rbind_Inr_iff) auto
  show ?thesis unfolding c by (rule wait_inv [OF assms(1) w]) (simp_all add: p)
next
  assume p: "pcs s p = WaitBothB k"
  then have w: "wait_sec SecB s = Inr s'" and c: "c = BothBody k 0"
    using assms(2) by (simp_all only: advance.simps rbind_Inr_iff) auto
  show ?thesis unfolding c by (rule wait_inv [OF assms(1) w]) (simp_all add: p)
qed

lemma give_action_inv:
  assumes "conc_inv s" and "advance (pcs s p) s = Inr (c, s')"
    and "pcs s p = PostSec sec \<or> pcs s p = PostBothA \<or> pcs s p = PostBothB"
  shows "conc_inv (move p c s')"
  using assms(3)
proof (elim disjE)
  assume p: "pcs s p = PostSec sec"
  then have w: "post_sec sec s = Inr s'" and c: "c = Idle" using assms(2) by (auto simp: rbind_Inr_iff)
  show ?thesis unfolding c by (rule post_inv [OF assms(1) w]) (simp_all add: p)
next
  assume p: "pcs s p = PostBothA"
  then have w: "post_sec SecA s = Inr s'" and c: "c = PostBothB"
    using assms(2) by (simp_all only: advance.simps rbind_Inr_iff) auto
  show ?thesis unfolding c by (rule post_inv [OF assms(1) w]) (simp_all add: p)
next
  assume p: "pcs s p = PostBothB"
  then have w: "post_sec SecB s = Inr s'" and c: "c = Idle"
    using assms(2) by (simp_all only: advance.simps rbind_Inr_iff) auto
  show ?thesis unfolding c by (rule post_inv [OF assms(1) w]) (simp_all add: p)
qed

lemma body_action_inv:
  assumes "conc_inv s" and "advance (pcs s p) s = Inr (c, s')" and p: "pcs s p = BothBody k i"
  shows "conc_inv (move p c s')"
proof -
  have only: "\<forall>sec'. in_section sec' i \<longrightarrow> holds sec' (pcs s p)" using p by simp
  consider "c = PostBothA" "s' = s" | "c = BothBody k (Suc i)" "s' = s"
    | "c = BothBody k (Suc i)" "s' = s\<lparr>names := (names s)[i := empty_name]\<rparr>"
    using assms(2) p by (auto split: if_splits both_kind.splits)
  then show ?thesis
  proof cases
    case 3
    show ?thesis unfolding 3 by (rule write_inv [OF assms(1) _ only]) (simp_all add: p)
  qed (simp_all add: keep_inv [OF assms(1)] p)
qed

lemma copy_action_inv:
  assumes "conc_inv s" and "advance (pcs s p) s = Inr (c, s')" and p: "pcs s p = Copy sec r x i"
  shows "conc_inv (move p c s')"
proof -
  have ok: "valid_number sec r" "in_section sec i" using conc_invD(3) [OF assms(1), of p] p by simp_all
  then have only: "\<forall>sec'. in_section sec' i \<longrightarrow> holds sec' (pcs s p)"
    using p by (auto simp: in_section_def split: section_id.splits)
  have s': "s' = s\<lparr>names := (names s)[i := x]\<rparr>"
    and c: "c = (case r of Specific n \<Rightarrow> Scan sec r x (Suc i) | AnyTable \<Rightarrow> PostSec sec)"
    using assms(2) p by simp_all
  show ?thesis unfolding s' c
    by (rule write_inv [OF assms(1) _ only]) (use p ok in \<open>auto split: request_kind.split\<close>)
qed

lemma action_inv:
  assumes "conc_inv s" and "advance (pcs s p) s = Inr (c, s')"
  shows "conc_inv (move p c s')"
proof (cases "pcs s p")
  case Idle
  then show ?thesis using assms by (auto intro!: keep_inv)
next
  case (Scan sec r x i)
  have "valid_number sec r" using conc_invD(3) [OF assms(1), of p] Scan by simp
  then show ?thesis using assms Scan wanted_in_section [of sec r i]
    by (auto simp: BUFF_SIZE_def intro!: keep_inv split: if_splits)
qed (simp_all add: take_action_inv [OF assms] give_action_inv [OF assms] body_action_inv [OF assms] copy_action_inv [OF assms])

lemma step_inv: "step p s s' \<Longrightarrow> conc_inv s \<Longrightarrow> conc_inv s'"
proof (erule stepE)
  fix c assume "s' = move p c s" "pcs s p = Idle" "starts c" "conc_inv s"
  then show "conc_inv s'" by (auto elim!: starts_cases intro!: keep_inv)
next
  fix c s1 assume "s' = move p c s1" "advance (pcs s p) s = Inr (c, s1)" "conc_inv s"
  then show "conc_inv s'" using action_inv by simp
qed

lemma reach_inv: "reach s \<Longrightarrow> conc_inv s"
proof (induction rule: reach.induct)
  case (boot s)
  then have "holders sec s = {}" "lock_of sec s = Some 1" for sec
    by (simp add: holders_def, cases sec, simp_all)
  with boot show ?case by (simp add: conc_inv_def lock_ok_def)
next
  case (after s p s')
  then show ?case using step_inv by blast
qed

subsection \<open>Progress\<close>

lemma holder_posts:
  assumes "conc_inv s" and "holds sec (pcs s q)"
  shows "\<exists>s'. post_sec sec s = Inr s'"
proof -
  have "q \<in> holders sec s" using assms(2) by (simp add: holders_def)
  then have "lock_of sec s = Some 0" using conc_invD(2) [OF assms(1), of sec] by (auto simp: lock_ok_def)
  then show ?thesis by (cases sec) (simp_all add: sem_post_val_def)
qed

lemma free_lock_waits: "lock_of sec s = Some 1 \<Longrightarrow> \<exists>s'. wait_sec sec s = Inr s'"
  by (cases sec) (simp_all add: sem_wait_val_def)

definition can_move :: "nat \<Rightarrow> conc \<Rightarrow> bool" where
  "can_move p s \<longleftrightarrow> pcs s p \<noteq> Idle \<and> (\<exists>c s'. advance (pcs s p) s = Inr (c, s'))"

text \<open>The section whose semaphore a process waits for is behind all those it holds.\<close>

fun waits :: "section_id \<Rightarrow> pc \<Rightarrow> bool" where
  "waits sec (WaitSec sec' r x) = (sec' = sec)"
| "waits sec (WaitBothA k) = (sec = SecA)"
| "waits sec (WaitBothB k) = (sec = SecB)"
| "waits sec c = False"

lemma lock_order: "waits sec c \<Longrightarrow> holds sec' c \<Longrightarrow> sec' < sec"
  by (cases c) (auto simp: less_section_id_def)

lemma lock_held:
  assumes "conc_inv s" and "lock_of sec s \<noteq> Some 1"
  shows "\<exists>r. holds sec (pcs s r)"
  using conc_invD(2) [OF assms(1), of sec] assms(2) by (auto simp: lock_ok_def holders_def)

lemma moves_unless_waits:
  assumes "conc_inv s" and "pcs s p \<noteq> Idle" and "\<And>sec. waits sec (pcs s p) \<Longrightarrow> lock_of sec s = Some 1"
  shows "can_move p s"
proof -
  have post: "\<exists>s'. post_sec sec s = Inr s'" if "holds sec (pcs s p)" for sec
    using holder_posts [OF assms(1) that] .
  have wait: "\<exists>s'. wait_sec sec s = Inr s'" if "waits sec (pcs s p)" for sec
    using free_lock_waits [OF assms(3) [OF that]] .
  show ?thesis
  proof (cases "pcs s p")
    case (PostSec sec)
    then show ?thesis using post [of sec] by (auto simp: can_move_def simp del: post_sec.simps)
  next
    case PostBothA
    then show ?thesis using post [of SecA] by (auto simp: can_move_def simp del: post_sec.simps)
  next
    case PostBothB
    then show ?thesis using post [of SecB] by (auto simp: can_move_def simp del: post_sec.simps)
  qed (use assms(2) wait in \<open>auto simp: can_move_def simp del: wait_sec.simps\<close>)
qed

lemma holder_moves: "conc_inv s \<Longrightarrow> holds sec (pcs s q) \<Longrightarrow> \<exists>r. can_move r s"
proof (induction sec arbitrary: q rule: section_upward)
  case (1 sec)
  show ?case
  proof (cases "\<exists>sec'. waits sec' (pcs s q) \<and> lock_of sec' s \<noteq> Some 1")
    case True
    then obtain sec' r where "waits sec' (pcs s q)" "holds sec' (pcs s r)" using lock_held [OF "1.prems"(1)] by blast
    then show ?thesis using "1.IH" "1.prems" lock_order by blast
  next
    case False
    have "pcs s q \<noteq> Idle" using "1.prems"(2) by auto
    then show ?thesis using moves_unless_waits [OF "1.prems"(1)] False by blast
  qed
qed

lemma some_can_move:
  assumes "conc_inv s" and "pcs s p \<noteq> Idle"
  shows "\<exists>q. can_move q s"
proof (cases "\<exists>sec. waits sec (pcs s p) \<and> lock_of sec s \<noteq> Some 1")
  case True
  then obtain sec r where "holds sec (pcs s r)" using lock_held [OF assms(1)] by blast
  then show ?thesis using holder_moves [OF assms(1)] by blast
next
  case False
  then show ?thesis using moves_unless_waits [OF assms] by blast
qed

text \<open>Every action brings the command of its process nearer to its end.\<close>

fun rank :: "pc \<Rightarrow> nat" where
  "rank Idle = 0"
| "rank (WaitSec sec r x) = 43"
| "rank (Scan sec r x i) = 2 * (20 - i) + 2"
| "rank (Copy sec r x i) = 2 * (20 - i) + 1"
| "rank (PostSec sec) = 1"
| "rank (WaitBothA k) = 25"
| "rank (WaitBothB k) = 24"
| "rank (BothBody k i) = 20 - i + 3"
| "rank PostBothA = 2"
| "rank PostBothB = 1"

lemma advance_rank:
  "conc_inv s \<Longrightarrow> pcs s p \<noteq> Idle \<Longrightarrow> advance (pcs s p) s = Inr (c, s') \<Longrightarrow> rank c < rank (pcs s p) \<and> pcs s' = pcs s"
  using conc_invD(3) [of s p] wait_sec_frame post_sec_frame
  by (cases "pcs s p")
    (auto simp: rbind_Inr_iff BUFF_SIZE_def in_section_def simp del: wait_sec.simps post_sec.simps
      split: if_splits request_kind.splits both_kind.splits section_id.splits)

text \<open>Runs in which the processes only finish the commands they have begun.\<close>

definition busy :: "conc \<Rightarrow> nat set" where
  "busy s = {p. pcs s p \<noteq> Idle}"

definition action_step :: "conc \<Rightarrow> conc \<Rightarrow> bool" where
  "action_step s s' \<longleftrightarrow> (\<exists>p c s1. pcs s p \<noteq> Idle \<and> advance (pcs s p) s = Inr (c, s1) \<and> s' = move p c s1)"

definition work_left :: "conc \<Rightarrow> nat" where
  "work_left s = (\<Sum>p\<in>busy s. rank (pcs s p))"

lemma action_step_work:
  assumes "conc_inv s" and "finite (busy s)" and "action_step s s'"
  shows "conc_inv s' \<and> finite (busy s') \<and> work_left s' < work_left s"
proof -
  obtain p c s1 where p: "pcs s p \<noteq> Idle" "advance (pcs s p) s = Inr (c, s1)" "s' = move p c s1"
    using assms(3) by (auto simp: action_step_def)
  note r = advance_rank [OF assms(1) p(1,2)]
  have sub: "busy s' \<subseteq> busy s" using p(1,3) r by (auto simp: busy_def split: if_splits)
  have "work_left s' = (\<Sum>q\<in>busy s. rank (pcs s' q))"
    unfolding work_left_def using assms(2) sub by (intro sum.mono_neutral_left) (auto simp: busy_def)
  also have "\<dots> < (\<Sum>q\<in>busy s. rank (pcs s q))"
    using assms(2) p r by (intro sum_strict_mono_ex1) (auto simp: busy_def)
  finally show ?thesis
    using action_inv [OF assms(1) p(2)] p(3) finite_subset [OF sub assms(2)] by (simp add: work_left_def)
qed

lemma idle_locks_free:
  assumes "conc_inv s" and "busy s = {}"
  shows "lock_of sec s = Some 1"
proof -
  have "holders sec s = {}" using assms(2) by (auto simp: holders_def busy_def)
  then show ?thesis using conc_invD(2) [OF assms(1), of sec] by (simp add: lock_ok_def)
qed

lemma runs_to_idle:
  "conc_inv s \<Longrightarrow> finite (busy s) \<Longrightarrow> \<exists>s'. action_step\<^sup>*\<^sup>* s s' \<and> conc_inv s' \<and> busy s' = {}"
proof (induction "work_left s" arbitrary: s rule: less_induct)
  case less
  show ?case
  proof (cases "busy s = {}")
    case True
    then show ?thesis using less.prems by blast
  next
    case False
    then obtain q where "can_move q s" using some_can_move [OF less.prems(1)] by (auto simp: busy_def)
    then obtain s1 where s1: "action_step s s1" by (auto simp: can_move_def action_step_def)
    note w = action_step_work [OF less.prems s1]
    then obtain s' where "action_step\<^sup>*\<^sup>* s1 s'" "conc_inv s'" "busy s' = {}" using less.hyps by blast
    then show ?thesis using s1 converse_rtranclp_into_rtranclp [of action_step s s1 s'] by blast
  qed
qed

subsection \<open>Properties\<close>

text \<open>A run of two processes: one has begun to reserve in section A, the other to show the tables.\<close>

definition demo_boot_conc :: conc where
  "demo_boot_conc = \<lparr>lockA = Some 1, lockB = Some 1, names = replicate 20 empty_name, pcs = (\<lambda>_. Idle)\<rparr>"

definition demo_conc :: conc where
  "demo_conc = move 1 (WaitBothA Show) (move 0 (WaitSec SecA AnyTable (replicate 10 120)) demo_boot_conc)"

lemma demo_boot_reach: "reach demo_boot_conc"
  by (rule reach.boot) (simp_all add: demo_boot_conc_def BUFF_SIZE_def)

lemma demo_reach: "reach demo_conc"
  unfolding demo_conc_def
  by (rule reach.after [OF reach.after [OF demo_boot_reach step.command] step.command])
    (auto simp: demo_boot_conc_def intro: starts.intros)

definition demo_inside :: conc where
  "demo_inside = move 0 (Scan SecA AnyTable (replicate 10 120) 0) (demo_conc\<lparr>lockA := Some 0\<rparr>)"

lemma demo_inside_reach: "reach demo_inside"
proof -
  have "step 0 demo_conc demo_inside"
    unfolding demo_inside_def
    by (rule step.action) (simp_all add: demo_conc_def demo_boot_conc_def sem_wait_val_def valid_number_def move_def)
  then show ?thesis using reach.after demo_reach by blast
qed

text \<open>Table 103 is reserved and process 0 is about to copy its name into table 100.\<close>

definition demo_copying :: conc where
  "demo_copying = \<lparr>lockA = Some 0, lockB = Some 1, names = (replicate 20 empty_name)[3 := replicate 10 120],
     pcs = (\<lambda>_. Idle)(0 := Copy SecA AnyTable (replicate 10 120) 0)\<rparr>"

lemma demo_copying_reach: "reach demo_copying"
proof -
  let ?x = "replicate 10 120"
  let ?s0 = "\<lparr>lockA = Some 1, lockB = Some 1, names = (replicate 20 empty_name)[3 := ?x], pcs = (\<lambda>_. Idle)\<rparr>"
  let ?s1 = "move 0 (WaitSec SecA AnyTable ?x) ?s0"
  let ?s2 = "move 0 (Scan SecA AnyTable ?x 0) (?s1\<lparr>lockA := Some 0\<rparr>)"
  have "reach ?s0" by (rule reach.boot) (simp_all add: BUFF_SIZE_def)
  moreover have "step 0 ?s0 ?s1" by (rule step.command) (auto intro: starts.intros)
  moreover have "step 0 ?s1 ?s2"
    by (rule step.action) (simp_all add: sem_wait_val_def valid_number_def move_def)
  moreover have "step 0 ?s2 (move 0 (Copy SecA AnyTable ?x 0) ?s2)"
    by (rule step.action) (simp_all add: wanted_def BUFF_SIZE_def table_number_def move_def)
  moreover have "move 0 (Copy SecA AnyTable ?x 0) ?s2 = demo_copying"
    by (auto simp: demo_copying_def move_def)
  ultimately show ?thesis using reach.after by metis
qed

text \<open>C9: Mutual exclusion: in every reachable state of any number of processes at most one of them is
  between the wait and the post of the semaphore of a section.\<close>

theorem mutual_exclusion:
  assumes "reach s" and "holds sec (pcs s p)" and "holds sec (pcs s q)"
  shows "p = q"
  using only_holder [OF reach_inv [OF assms(1)] assms(2,3)] .

theorem mutual_exclusion_witness: "{q. holds SecA (pcs demo_inside q)} = {0}"
proof -
  have "holds SecA (pcs demo_inside 0)" by (simp add: demo_inside_def)
  then show ?thesis using mutual_exclusion [OF demo_inside_reach] by blast
qed

text \<open>C7: No double booking under interleaving: although a process compares the name of a table in one
  action and overwrites it in a later one, no action of any process other than the loop of
  \<open>initTables\<close> changes a table that is reserved.\<close>

theorem reserved_stays:
  assumes "reach s" and "step p s s'" and "\<forall>j. pcs s p \<noteq> BothBody Init j" and "names s ! i \<noteq> empty_name"
  shows "names s' ! i = names s ! i"
proof -
  have ok: "pc_ok (names s) (pcs s p)" using conc_invD(3) [OF reach_inv [OF assms(1)]] .
  have other: "(names s)[j := x] ! i = names s ! i" if "names s ! j = empty_name" for j x
    using that assms(4) nth_list_update_neq [of j i] by metis
  have "names s1 ! i = names s ! i" if "advance (pcs s p) s = Inr (c, s1)" for c s1
    using that ok assms(3,4) wait_sec_frame post_sec_frame
    by (cases "pcs s p") (auto simp: rbind_Inr_iff other simp del: wait_sec.simps post_sec.simps
        split: if_splits both_kind.splits)
  then show ?thesis using assms(2) by (auto elim!: stepE)
qed

theorem reserved_stays_witness:
  "names (move 0 (PostSec SecA) (demo_copying\<lparr>names := (names demo_copying)[0 := replicate 10 120]\<rparr>)) ! 3 = names demo_copying ! 3"
proof (rule reserved_stays [OF demo_copying_reach])
  show "step 0 demo_copying (move 0 (PostSec SecA) (demo_copying\<lparr>names := (names demo_copying)[0 := replicate 10 120]\<rparr>))"
    by (rule step.action) (simp_all add: demo_copying_def)
  show "\<forall>j. pcs demo_copying 0 \<noteq> BothBody Init j" by (simp add: demo_copying_def)
  have "replicate 10 120 \<noteq> empty_name" by code_simp
  then show "names demo_copying ! 3 \<noteq> empty_name" by (simp add: demo_copying_def)
qed

text \<open>C8: No deadlock, and every command ends: from every reachable state with finitely many busy
  processes the actions of these processes alone lead to a state in which all commands are
  done and both semaphores are free; each action moreover lowers \<open>work_left\<close>, so every
  sequence of such actions is finite.\<close>

theorem commands_finish:
  assumes "reach s" and "finite (busy s)"
  shows "(\<exists>s'. action_step\<^sup>*\<^sup>* s s' \<and> busy s' = {} \<and> lockA s' = Some 1 \<and> lockB s' = Some 1) \<and>
    (\<forall>s'. action_step s s' \<longrightarrow> work_left s' < work_left s)"
proof -
  obtain s' where "action_step\<^sup>*\<^sup>* s s'" "conc_inv s'" "busy s' = {}"
    using runs_to_idle [OF reach_inv [OF assms(1)] assms(2)] by blast
  then show ?thesis
    using idle_locks_free [of s' SecA] idle_locks_free [of s' SecB] action_step_work [OF reach_inv [OF assms(1)] assms(2)] by auto
qed

theorem commands_finish_witness:
  "\<exists>s'. action_step\<^sup>*\<^sup>* demo_conc s' \<and> busy s' = {} \<and> lockA s' = Some 1 \<and> lockB s' = Some 1"
proof -
  have "busy demo_conc = {0, 1}" by (auto simp: busy_def demo_conc_def demo_boot_conc_def)
  then show ?thesis using commands_finish [OF demo_reach] by simp
qed

end
