(* ===== verification/Reservation_Actions.thy ===== *)
theory Reservation_Actions
  imports Reservation_Locks
begin

text \<open>
  What connects the two models of \<^verbatim>\<open>Reservation system/main.c\<close>: \<open>models s c\<close> says that \<open>c\<close>, the
  shared memory of \<open>Reservation_Locks\<close>, is the one of \<open>s\<close>, the state of \<open>Reservation\<close>; \<open>code_of\<close> is the function
  of \<open>Reservation\<close> that a process executes from a place where it starts.
\<close>

subsection \<open>The shared memory\<close>

definition models :: "resv \<Rightarrow> conc \<Rightarrow> bool" where
  "models s c \<longleftrightarrow> tables_ok s \<and> lockA c = mutexA s \<and> lockB c = mutexB s \<and> names c = map tname (tables s)"

subsection \<open>The functions\<close>

fun letter :: "section_id \<Rightarrow> byte" where
  "letter SecA = 65"
| "letter SecB = 66"

fun code_of :: "pc \<Rightarrow> resv \<Rightarrow> resv result" where
  "code_of (WaitSec sec (Specific n) x) s = reserveSpecificTable (Some x) (Some [letter sec]) n s"
| "code_of (WaitSec sec AnyTable x) s = reserveSomeTable (Some x) (Some [letter sec]) s"
| "code_of (WaitBothA Init) s = initTables s"
| "code_of (WaitBothA Show) s = printTableInfo s"
| "code_of _ s = Inr s"

fun stored_name :: "pc \<Rightarrow> byte list" where
  "stored_name (WaitSec sec r x) = x"
| "stored_name _ = replicate 10 0"

text \<open>The parts of the functions for the two sections.\<close>

fun wait_of :: "section_id \<Rightarrow> resv \<Rightarrow> resv result" where
  "wait_of SecA = wait_A"
| "wait_of SecB = wait_B"

fun post_of :: "section_id \<Rightarrow> resv \<Rightarrow> resv result" where
  "post_of SecA = post_A"
| "post_of SecB = post_B"

definition numbers_of :: "section_id \<Rightarrow> int \<Rightarrow> bool" where
  "numbers_of sec n \<longleftrightarrow> (case sec of SecA \<Rightarrow> n < 200 | SecB \<Rightarrow> 199 < n)"

subsection \<open>Steps that keep the relation\<close>

lemma move_move [simp]: "move p c (move p d s) = move p c s"
  by (simp add: move_def)

lemma models_emit [simp]: "models (emit os s) c = models s c"
  by (simp add: models_def emit_def tables_ok_def)

lemma models_move [simp]: "models s (move p d c) = models s c"
  by (simp add: models_def move_def)

lemma models_init:
  assumes "models s c"
  shows "models (s\<lparr>tables := map (\<lambda>(i, t). init_table i t) (enumerate 0 (tables s))\<rparr>)
    (c\<lparr>names := replicate 20 empty_name\<rparr>)"
proof -
  have t: "tables_ok s" using assms by (simp add: models_def)
  have "map tname (map (\<lambda>(i, t). init_table i t) (enumerate 0 (tables s))) = replicate 20 empty_name"
    using tables_okD(1) [OF t] by (intro nth_equalityI) (simp_all add: nth_enumerate_eq init_table_def)
  then show ?thesis
    using assms t by (simp add: models_def tables_ok_def BUFF_SIZE_def nth_enumerate_eq init_table_def)
qed

end
