(* ===== verification/Reservation_Serial.thy ===== *)
theory Reservation_Serial
  imports Reservation_Actions
begin

text \<open>
  Any number of processes of \<^verbatim>\<open>Reservation system/main.c\<close> behave as if every command took place
  in a single moment between its start and its end. \<open>runs\<close> are the interleaved actions of
  \<open>Reservation_Locks\<close> with what they print; \<open>object_runs\<close> are the functions of the source, each executed at
  once on the shared memory. Both produce histories: which process starts which command, and what the
  command has printed when it ends. Every history of the first is one of the second, and the commands
  of a complete history can be put into one sequence that has the same effect and prints the same.
\<close>

subsection \<open>What an action prints\<close>

text \<open>The names are those in the shared memory; on the screen a name ends at its first NUL.\<close>

definition table_line :: "byte list list \<Rightarrow> nat \<Rightarrow> out_line" where
  "table_line ns i = TableLine (table_number i) (takeWhile (\<lambda>b. b \<noteq> 0) (ns ! i))"

fun prints :: "pc \<Rightarrow> conc \<Rightarrow> out_line list" where
  "prints (WaitSec sec r x) s = (if valid_number sec r then [] else [InvalidNumber])"
| "prints (Scan sec (Specific n) x i) s =
     (if i < BUFF_SIZE \<and> table_number i = n \<and> names s ! i \<noteq> empty_name then [CannotReserve] else [])"
| "prints (Scan sec AnyTable x i) s = (if i < BUFF_SIZE then [] else [NoEmptyTable])"
| "prints (BothBody Show i) s = (if i < BUFF_SIZE then [table_line (names s) i] else [])"
| "prints _ s = []"

subsection \<open>Histories\<close>

datatype event = Begins nat pc | Ends nat "out_line list"

text \<open>A command of a process; the name is in a buffer of at least ten bytes.\<close>

definition command :: "pc \<Rightarrow> bool" where
  "command a \<longleftrightarrow> starts a \<and> length (stored_name a) = 10"

text \<open>The interleaved processes; the third argument is what each has printed since its command began.\<close>

inductive runs :: "conc \<Rightarrow> event list \<Rightarrow> (nat \<Rightarrow> out_line list) \<Rightarrow> conc \<Rightarrow> bool" for s0 where
  nothing: "runs s0 [] (\<lambda>_. []) s0"
| begins: "runs s0 h out s \<Longrightarrow> pcs s p = Idle \<Longrightarrow> command a \<Longrightarrow> runs s0 (h @ [Begins p a]) (out(p := [])) (move p a s)"
| acts: "runs s0 h out s \<Longrightarrow> pcs s p \<noteq> Idle \<Longrightarrow> advance (pcs s p) s = Inr (c, s') \<Longrightarrow> o' = out p @ prints (pcs s p) s \<Longrightarrow>
    runs s0 (h @ (if c = Idle then [Ends p o'] else [])) (out(p := o')) (move p c s')"

text \<open>The functions of the source, each executed at once at some moment after its start.\<close>

datatype task = Ready | Called pc | Answer "out_line list"

definition at_once :: "pc \<Rightarrow> resv \<Rightarrow> (out_line list \<times> resv) result" where
  "at_once a r = rbind (code_of a (r\<lparr>printed := []\<rparr>)) (\<lambda>r1. Inr (printed r1, r1))"

inductive object_runs :: "resv \<Rightarrow> event list \<Rightarrow> (nat \<Rightarrow> task) \<Rightarrow> resv \<Rightarrow> bool" for r0 where
  nothing: "object_runs r0 [] (\<lambda>_. Ready) r0"
| begins: "object_runs r0 h t r \<Longrightarrow> t p = Ready \<Longrightarrow> command a \<Longrightarrow> object_runs r0 (h @ [Begins p a]) (t(p := Called a)) r"
| performs: "object_runs r0 h t r \<Longrightarrow> t p = Called a \<Longrightarrow> at_once a r = Inr (o', r') \<Longrightarrow> object_runs r0 h (t(p := Answer o')) r'"
| ends: "object_runs r0 h t r \<Longrightarrow> t p = Answer o' \<Longrightarrow> object_runs r0 (h @ [Ends p o']) (t(p := Ready)) r"

subsection \<open>The functions executed at once\<close>

definition object_ok :: "resv \<Rightarrow> byte list list \<Rightarrow> bool" where
  "object_ok r ns \<longleftrightarrow> tables_ok r \<and> mutexes_free r \<and> map tname (tables r) = ns"

lemma object_okD:
  assumes "object_ok r ns"
  shows "tables_ok r" and "mutexes_free r" and "length ns = 20" and "i < 20 \<Longrightarrow> tname (tables r ! i) = ns ! i"
    and "i < 20 \<Longrightarrow> guests r (table_number i) = holder (ns ! i)"
proof -
  show o: "tables_ok r" "mutexes_free r" using assms by (simp_all add: object_ok_def)
  show l: "length ns = 20" using assms tables_okD(1) [OF o(1)] by (auto simp: object_ok_def)
  show n: "i < 20 \<Longrightarrow> tname (tables r ! i) = ns ! i" using assms tables_okD(1) [OF o(1)] by (auto simp: object_ok_def)
  show "i < 20 \<Longrightarrow> guests r (table_number i) = holder (ns ! i)"
    using guests_index [OF o(1)] n by (simp add: guest_def holder_def)
qed

lemma object_ok_printed [simp]: "object_ok (r\<lparr>printed := os\<rparr>) ns = object_ok r ns"
  by (simp add: object_ok_def tables_ok_def mutexes_free_def)

lemma object_ok_emit [simp]: "object_ok (emit os r) ns = object_ok r ns"
  by (simp add: emit_def object_ok_def tables_ok_def mutexes_free_def)

text \<open>What a command does to the names and what it prints, as the code says it.\<close>

definition answers :: "pc \<Rightarrow> byte list list \<Rightarrow> out_line list \<Rightarrow> byte list list \<Rightarrow> bool" where
  "answers a ns os ns' \<longleftrightarrow> (\<forall>r. object_ok r ns \<longrightarrow> (\<exists>r'. at_once a r = Inr (os, r') \<and> object_ok r' ns'))"

lemma answersI:
  assumes "\<And>r. object_ok r ns \<Longrightarrow> \<exists>r'. code_of a r = Inr r' \<and> printed r' = printed r @ os \<and> object_ok r' ns'"
  shows "answers a ns os ns'"
  unfolding answers_def
proof (intro allI impI)
  fix r assume "object_ok r ns"
  then have "object_ok (r\<lparr>printed := []\<rparr>) ns" by simp
  from assms [OF this] show "\<exists>r'. at_once a r = Inr (os, r') \<and> object_ok r' ns'" by (auto simp: at_once_def)
qed

text \<open>The body of a section, with the semaphore at whatever value.\<close>

definition contents :: "resv \<Rightarrow> byte list list \<Rightarrow> bool" where
  "contents r ns \<longleftrightarrow> tables_ok r \<and> map tname (tables r) = ns"

definition in_body :: "resv \<Rightarrow> resv \<Rightarrow> out_line list \<Rightarrow> byte list list \<Rightarrow> bool" where
  "in_body r r' os ns \<longleftrightarrow> contents r' ns \<and> mutexA r' = mutexA r \<and> mutexB r' = mutexB r \<and> printed r' = printed r @ os"

lemma contentsD:
  assumes "contents r ns" and "i < 20"
  shows "tables_ok r" and "is_empty i r = Inr (ns ! i = empty_name)" and "tnum (tables r ! i) = table_number i"
    and "guests r (table_number i) = None \<longleftrightarrow> ns ! i = empty_name"
proof -
  show o: "tables_ok r" using assms(1) by (simp add: contents_def)
  have n: "tname (tables r ! i) = ns ! i" using assms tables_okD(1) [OF o] by (auto simp: contents_def)
  show "is_empty i r = Inr (ns ! i = empty_name)" using is_empty_ok [OF o assms(2)] by (simp add: guest_def n)
  show "tnum (tables r ! i) = table_number i" using tables_okD(2) [OF o assms(2)] .
  show "guests r (table_number i) = None \<longleftrightarrow> ns ! i = empty_name" using guests_index [OF o assms(2)] by (simp add: guest_def n)
qed

lemma emit_body: "contents r ns \<Longrightarrow> in_body r (emit os r) os ns"
  by (simp add: in_body_def contents_def emit_def tables_ok_def)

lemma take_body:
  assumes "contents r ns" and "i < 20" and "length x = 10"
  shows "\<exists>r'. take_table i (Some x) r = Inr r' \<and> in_body r r' [] (ns[i := x])"
proof -
  have "take_table i (Some x) r = Inr (r\<lparr>tables := (tables r)[i := (tables r ! i)\<lparr>tname := x\<rparr>]\<rparr>)"
    using assms(3) by (simp add: take_table_def load_mem_def)
  then show ?thesis
    using assms by (auto simp: in_body_def contents_def map_update tables_ok_def BUFF_SIZE_def nth_list_update)
qed

lemma specific_body:
  assumes "contents r ns" and "i < 20" and "table_number i = n" and "lo < n" and "n < hi" and "length x = 10"
  shows "\<exists>r'. reserve_number lo hi (Some x) n r = Inr r' \<and>
    in_body r r' (if ns ! i = empty_name then [] else [CannotReserve]) (if ns ! i = empty_name then ns[i := x] else ns)"
proof -
  note c = contentsD [OF assms(1,2)]
  have others: "\<forall>j\<in>set [0..<i]. j < 20 \<and> table_number j \<noteq> n" "\<forall>j\<in>set [Suc i..<20]. j < 20 \<and> table_number j \<noteq> n"
    using assms(2) unfolding assms(3) [symmetric] by (auto dest!: table_number_inj)
  obtain r' where r': "(if ns ! i = empty_name then take_table i (Some x) r else Inr (emit [CannotReserve] r)) = Inr r'"
    "in_body r r' (if ns ! i = empty_name then [] else [CannotReserve]) (if ns ! i = empty_name then ns[i := x] else ns)"
    using take_body [OF assms(1,2,6)] emit_body [OF assms(1)] by (cases "ns ! i = empty_name") auto
  then have "specific_loop [Suc i..<20] n (Some x) r' = Inr r'"
    using specific_loop_skip [OF _ others(2)] by (simp add: in_body_def contents_def)
  then have "specific_loop (i # [Suc i..<20]) n (Some x) r = Inr r'"
    using c assms(3) r'(1) by (auto split: if_splits)
  then have "reserve_number lo hi (Some x) n r = Inr r'"
    using specific_loop_skip [OF c(1) others(1)] assms(4,5)
    by (simp only: reserve_number_def BUFF_SIZE_def upt_split [OF assms(2)] specific_loop_append) simp
  then show ?thesis using r'(2) by blast
qed

lemma any_body:
  assumes "contents r ns" and "length x = 10"
  shows "(\<forall>j<20. sect (table_number j) \<longrightarrow> ns ! j \<noteq> empty_name) \<Longrightarrow>
      \<exists>r'. reserve_any sect (Some x) r = Inr r' \<and> in_body r r' [NoEmptyTable] ns"
    and "i < 20 \<Longrightarrow> sect (table_number i) \<Longrightarrow> ns ! i = empty_name \<Longrightarrow> (\<forall>j<i. sect (table_number j) \<longrightarrow> ns ! j \<noteq> empty_name) \<Longrightarrow>
      \<exists>r'. reserve_any sect (Some x) r = Inr r' \<and> in_body r r' [] (ns[i := x])"
proof -
  have ok: "tables_ok r" using assms(1) by (simp add: contents_def)
  note c = contentsD(4) [OF assms(1)]
  note run = some_loop_find [OF ok, of "[0..<20]" sect "Some x"]
  show "\<exists>r'. reserve_any sect (Some x) r = Inr r' \<and> in_body r r' [NoEmptyTable] ns"
    if "\<forall>j<20. sect (table_number j) \<longrightarrow> ns ! j \<noteq> empty_name"
  proof -
    have "List.find (\<lambda>i. sect (table_number i) \<and> guests r (table_number i) = None) [0..<20] = None"
      using that c by (auto simp: find_None_iff)
    then show ?thesis using run emit_body [OF assms(1)] by (simp add: reserve_any_def BUFF_SIZE_def)
  qed
  show "\<exists>r'. reserve_any sect (Some x) r = Inr r' \<and> in_body r r' [] (ns[i := x])"
    if "i < 20" "sect (table_number i)" "ns ! i = empty_name" "\<forall>j<i. sect (table_number j) \<longrightarrow> ns ! j \<noteq> empty_name"
  proof -
    have "List.find (\<lambda>i. sect (table_number i) \<and> guests r (table_number i) = None) [0..<20] = Some i"
      unfolding find_upt_Some using that c by auto
    then show ?thesis using run take_body [OF assms(1) that(1) assms(2)] by (auto simp: reserve_any_def BUFF_SIZE_def)
  qed
qed

text \<open>A section that is entered and left.\<close>

fun section_body :: "section_id \<Rightarrow> request_kind \<Rightarrow> byte list \<Rightarrow> resv \<Rightarrow> resv result" where
  "section_body SecA (Specific n) x = reserve_number 99 110 (Some x) n"
| "section_body SecB (Specific n) x = reserve_number 199 210 (Some x) n"
| "section_body sec AnyTable x = reserve_any (numbers_of sec) (Some x)"

lemma code_of_section: "code_of (WaitSec sec r x) s = rbind (wait_of sec s) (\<lambda>s1. rbind (section_body sec r x s1) (post_of sec))"
proof -
  have "numbers_of SecA = (\<lambda>n. n < 200)" "numbers_of SecB = (\<lambda>n. 199 < n)" by (auto simp: numbers_of_def)
  then show ?thesis
    by (cases sec; cases r) (simp_all add: reserveSpecificTable_def reserveSomeTable_def)
qed

lemma section_answers:
  assumes "\<And>s. contents s ns \<Longrightarrow> \<exists>s'. section_body sec r x s = Inr s' \<and> in_body s s' os ns'"
  shows "answers (WaitSec sec r x) ns os ns'"
proof (rule answersI)
  fix s assume s: "object_ok s ns"
  let ?l = "case sec of SecA \<Rightarrow> s\<lparr>mutexA := Some 0\<rparr> | SecB \<Rightarrow> s\<lparr>mutexB := Some 0\<rparr>"
  have w: "wait_of sec s = Inr ?l" "contents ?l ns" "printed ?l = printed s"
    using s by (cases sec; simp add: object_ok_def mutexes_free_def contents_def wait_A_def wait_B_def sem_wait_val_def)+
  obtain s' where s': "section_body sec r x ?l = Inr s'" "in_body ?l s' os ns'" using assms [OF w(2)] by blast
  let ?u = "case sec of SecA \<Rightarrow> s'\<lparr>mutexA := Some 1\<rparr> | SecB \<Rightarrow> s'\<lparr>mutexB := Some 1\<rparr>"
  have "post_of sec s' = Inr ?u \<and> object_ok ?u ns' \<and> printed ?u = printed s @ os"
    using s s'(2) w(3)
    by (cases sec) (simp_all add: object_ok_def mutexes_free_def contents_def in_body_def post_A_def post_B_def sem_post_val_def)
  then show "\<exists>s'. code_of (WaitSec sec r x) s = Inr s' \<and> printed s' = printed s @ os \<and> object_ok s' ns'"
    using w(1) s'(1) by (auto simp: code_of_section)
qed

lemma wanted_numbers: "wanted sec AnyTable j = numbers_of sec (table_number j)"
  by (simp add: wanted_def numbers_of_def)

lemma invalid_answers: "\<not> valid_number sec r \<Longrightarrow> answers (WaitSec sec r x) ns [InvalidNumber] ns"
  by (rule section_answers, cases r; cases sec) (auto simp: valid_number_def reserve_number_def intro: emit_body)

lemma specific_answers:
  assumes "valid_number sec (Specific n)" and "i < 20" and "table_number i = n" and "length x = 10"
  shows "answers (WaitSec sec (Specific n) x) ns (if ns ! i = empty_name then [] else [CannotReserve])
    (if ns ! i = empty_name then ns[i := x] else ns)"
  using assms specific_body [OF _ assms(2,3) _ _ assms(4)]
  by (intro section_answers) (cases sec; simp add: valid_number_def)

lemma any_answers:
  assumes "length x = 10"
  shows "\<forall>j<20. wanted sec AnyTable j \<longrightarrow> ns ! j \<noteq> empty_name \<Longrightarrow> answers (WaitSec sec AnyTable x) ns [NoEmptyTable] ns"
    and "i < 20 \<Longrightarrow> wanted sec AnyTable i \<Longrightarrow> ns ! i = empty_name \<Longrightarrow> \<forall>j<i. wanted sec AnyTable j \<longrightarrow> ns ! j \<noteq> empty_name \<Longrightarrow>
      answers (WaitSec sec AnyTable x) ns [] (ns[i := x])"
  using any_body [where sect = "numbers_of sec" and ns = ns, OF _ assms]
  by (auto intro!: section_answers simp: wanted_numbers)

lemma init_answers: "answers (WaitBothA Init) ns [] (replicate 20 empty_name)"
proof (rule answersI)
  fix r assume r: "object_ok r ns"
  let ?r = "r\<lparr>tables := map (\<lambda>(i, t). init_table i t) (enumerate 0 (tables r))\<rparr>"
  have "models r \<lparr>lockA = Some 1, lockB = Some 1, names = ns, pcs = (\<lambda>_. Idle)\<rparr>"
    using r by (simp add: models_def object_ok_def mutexes_free_def)
  from models_init [OF this] have "object_ok ?r (replicate 20 empty_name)"
    using r by (simp add: models_def object_ok_def mutexes_free_def)
  moreover have "initTables r = Inr ?r"
    using r by (simp add: object_ok_def mutexes_free_def initTables_def wait_A_def wait_B_def post_A_def post_B_def
        sem_wait_val_def sem_post_val_def)
  ultimately show "\<exists>r'. code_of (WaitBothA Init) r = Inr r' \<and> printed r' = printed r @ [] \<and> object_ok r' (replicate 20 empty_name)"
    by simp
qed

lemma show_answers: "answers (WaitBothA Show) ns (map (table_line ns) [0..<20]) ns"
proof (rule answersI)
  fix r assume r: "object_ok r ns"
  note d = object_okD [OF r]
  have e: "takeWhile (\<lambda>b. b \<noteq> 0) empty_name = empty_name"
    unfolding takeWhile_eq_all_conv using zero_notin_empty_name by blast
  have l: "map (\<lambda>i. TableLine (table_number i) (case guests r (table_number i) of None \<Rightarrow> empty_name | Some x \<Rightarrow> takeWhile (\<lambda>b. b \<noteq> 0) x)) [0..<20] =
      map (table_line ns) [0..<20]"
    using d(5) by (intro map_cong) (auto simp: table_line_def holder_def e)
  have "printTableInfo r = Inr (emit (map (table_line ns) [0..<20]) r)"
    unfolding printTableInfo_run [OF d(2)] BUFF_SIZE_def table_lines [OF d(1)] l ..
  then show "\<exists>r'. code_of (WaitBothA Show) r = Inr r' \<and> printed r' = printed r @ map (table_line ns) [0..<20] \<and> object_ok r' ns"
    using r by (simp add: emit_def [of _ r])
qed

subsection \<open>The simulation\<close>

text \<open>
  The names the functions executed at once have left: those in the shared memory, unless a process is in the loop
  of \<open>initTables\<close>, whose moment is the beginning of the loop.
\<close>

fun initialising :: "pc \<Rightarrow> bool" where
  "initialising (BothBody Init i) = True"
| "initialising _ = False"

definition shadow :: "conc \<Rightarrow> byte list list" where
  "shadow s = (if \<exists>p. initialising (pcs s p) then replicate 20 empty_name else names s)"

definition full :: "byte list list \<Rightarrow> section_id \<Rightarrow> nat \<Rightarrow> bool" where
  "full ns sec i \<longleftrightarrow> (\<forall>j<20. j < i \<and> wanted sec AnyTable j \<longrightarrow> ns ! j \<noteq> empty_name)"

text \<open>What a place says about the command: whether its moment has come, and what it has printed.\<close>

fun task_ok :: "byte list list \<Rightarrow> pc \<Rightarrow> out_line list \<Rightarrow> task \<Rightarrow> bool" where
  "task_ok ns Idle o' t = (t = Ready)"
| "task_ok ns (WaitSec sec r x) o' t = (o' = [] \<and> t = Called (WaitSec sec r x) \<and> length x = 10)"
| "task_ok ns (Scan sec (Specific n) x i) o' t =
     (if \<exists>j<i. table_number j = n then t = Answer o' else o' = [] \<and> t = Called (WaitSec sec (Specific n) x) \<and> length x = 10)"
| "task_ok ns (Scan sec AnyTable x i) o' t =
     (o' = [] \<and> t = Called (WaitSec sec AnyTable x) \<and> length x = 10 \<and> full ns sec i)"
| "task_ok ns (Copy sec r x i) o' t =
     (o' = [] \<and> t = Called (WaitSec sec r x) \<and> length x = 10 \<and> wanted sec r i \<and> (r = AnyTable \<longrightarrow> full ns sec i))"
| "task_ok ns (PostSec sec) o' t = (t = Answer o')"
| "task_ok ns (WaitBothA k) o' t = (o' = [] \<and> t = Called (WaitBothA k))"
| "task_ok ns (WaitBothB k) o' t = (o' = [] \<and> t = Called (WaitBothA k))"
| "task_ok ns (BothBody Init i) o' t = (o' = [] \<and> t = Answer [])"
| "task_ok ns (BothBody Show i) o' t = (o' = take i (map (table_line ns) [0..<20]) \<and> t = Answer (map (table_line ns) [0..<20]))"
| "task_ok ns PostBothA o' t = (t = Answer o')"
| "task_ok ns PostBothB o' t = (t = Answer o')"

text \<open>The tables before the place of \<open>initTables\<close> are empty.\<close>

definition emptied :: "pc \<Rightarrow> byte list list \<Rightarrow> bool" where
  "emptied c ns \<longleftrightarrow> (case c of BothBody Init i \<Rightarrow> take i ns = replicate (min i 20) empty_name | _ \<Rightarrow> True)"

lemma initialising_holds: "initialising c \<Longrightarrow> holds sec c"
  by (cases c rule: initialising.cases) simp_all

lemma shadow_names:
  assumes "conc_inv s" and "holds sec (pcs s p)" and "\<not> initialising (pcs s p)"
  shows "shadow s = names s"
proof -
  have "\<not> initialising (pcs s q)" for q
    using only_holder [OF assms(1,2), of q] initialising_holds [of "pcs s q" sec] assms(3) by auto
  then show ?thesis by (simp add: shadow_def)
qed

lemma shadow_move:
  assumes "\<not> initialising (pcs s p)" and "\<not> initialising c" and "names s' = names s" and "pcs s' = pcs s"
  shows "shadow (move p c s') = shadow s"
proof -
  have "(\<exists>q. initialising (pcs (move p c s') q)) \<longleftrightarrow> (\<exists>q. initialising (pcs s q))" using assms by auto
  then show ?thesis using assms(3) by (simp add: shadow_def)
qed

text \<open>A process changes tables only of sections it holds; the others do not notice.\<close>

lemma other_tasks:
  assumes "conc_inv s" and "q \<noteq> p" and "task_ok ns (pcs s q) o' t" and "length ns = 20" and "length ns' = 20"
    and "\<And>j sec. j < 20 \<Longrightarrow> ns' ! j \<noteq> ns ! j \<Longrightarrow> in_section sec j \<Longrightarrow> holds sec (pcs s p)"
  shows "task_ok ns' (pcs s q) o' t"
proof -
  have same: "ns' ! j = ns ! j" if "j < 20" "in_section sec j" "holds sec (pcs s q)" for j sec
    using assms(2,6) only_holder [OF assms(1) that(3), of p] that by blast
  have full: "full ns' sec i = full ns sec i" if "holds sec (pcs s q)" for sec i
  proof -
    have "ns' ! j = ns ! j" if "j < 20" "wanted sec AnyTable j" for j
      using same [OF that(1) wanted_in_section [OF that(2) _ that(1)] \<open>holds sec (pcs s q)\<close>] by (simp add: valid_number_def)
    then show ?thesis by (auto simp: full_def)
  qed
  have all: "ns' = ns" if "holds SecA (pcs s q)" "holds SecB (pcs s q)"
  proof (rule nth_equalityI)
    show "length ns' = length ns" using assms(4,5) by simp
    fix j assume "j < length ns'"
    then have "j < 20" "in_section (if j < 10 then SecA else SecB) j" using assms(5) by (auto simp: in_section_def)
    then show "ns' ! j = ns ! j" using same that by metis
  qed
  show ?thesis
    using assms(3) full all by (cases "(ns, pcs s q, o', t)" rule: task_ok.cases) auto
qed

text \<open>An action of a process: its moment may come, and then the command is executed at once.\<close>

definition moment :: "task \<Rightarrow> byte list list \<Rightarrow> task \<Rightarrow> byte list list \<Rightarrow> bool" where
  "moment t ns t' ns' \<longleftrightarrow> t' = t \<and> ns' = ns \<or> (\<exists>a os. t = Called a \<and> answers a ns os ns' \<and> t' = Answer os)"

text \<open>The place after the action; at its end the command has its answer.\<close>

definition arrives :: "byte list list \<Rightarrow> pc \<Rightarrow> out_line list \<Rightarrow> task \<Rightarrow> bool" where
  "arrives ns c o' t \<longleftrightarrow> (if c = Idle then t = Answer o' else task_ok ns c o' t)"

lemma full_Suc: "full ns sec (Suc i) \<longleftrightarrow> full ns sec i \<and> (i < 20 \<and> wanted sec AnyTable i \<longrightarrow> ns ! i \<noteq> empty_name)"
  by (auto simp: full_def less_Suc_eq)

lemma full_0 [simp]: "full ns sec 0"
  by (simp add: full_def)

lemma number_below: "table_number i = n \<Longrightarrow> \<not> (\<exists>j<i. table_number j = n)"
  by (auto simp: table_number_def split: if_splits)

lemma number_Suc: "(\<exists>j<Suc i. table_number j = n) \<longleftrightarrow> table_number i = n \<or> (\<exists>j<i. table_number j = n)"
  by (auto simp: less_Suc_eq)

lemma valid_index: "valid_number sec (Specific n) \<Longrightarrow> \<exists>j<20. table_number j = n"
proof -
  assume "valid_number sec (Specific n)"
  then have "table_number (nat (n - (if n < 200 then 100 else 190))) = n \<and> nat (n - (if n < 200 then 100 else 190)) < 20"
    by (cases sec) (auto simp: valid_number_def table_number_def)
  then show ?thesis by blast
qed

lemma scan_specific_moment:
  assumes "task_ok ns (Scan sec (Specific n) x i) o' t" and "valid_number sec (Specific n)"
    and "advance (Scan sec (Specific n) x i) s = Inr (c, s')" and "names s = ns"
  shows "\<exists>t'. moment t ns t' ns \<and> arrives ns c (o' @ prints (Scan sec (Specific n) x i) s) t'"
proof (cases "i < 20 \<and> table_number i = n")
  case True
  then have t: "o' = []" "t = Called (WaitSec sec (Specific n) x)" "length x = 10"
    using assms(1) number_below [of i n] by auto
  show ?thesis
  proof (cases "ns ! i = empty_name")
    case True
    then show ?thesis
      using t \<open>i < 20 \<and> table_number i = n\<close> assms(3,4)
      by (intro exI [of _ t]) (auto simp: BUFF_SIZE_def wanted_def moment_def arrives_def)
  next
    case False
    have "answers (WaitSec sec (Specific n) x) ns [CannotReserve] ns"
      using specific_answers [OF assms(2) _ _ t(3), of i ns] True False by simp
    then show ?thesis
      using t True False assms(3,4)
      by (intro exI [of _ "Answer [CannotReserve]"]) (auto simp: BUFF_SIZE_def wanted_def moment_def arrives_def)
  qed
next
  case False
  then have c: "c = (if i < 20 then Scan sec (Specific n) x (Suc i) else PostSec sec)"
    using assms(3) by (auto simp: BUFF_SIZE_def wanted_def)
  obtain j where "j < 20" "table_number j = n" using valid_index [OF assms(2)] by blast
  then have "\<exists>j<i. table_number j = n" if "i \<ge> 20" using that by (intro exI [of _ j]) simp
  then have "i < 20 \<or> (\<exists>j<i. table_number j = n)" using not_less by blast
  then show ?thesis
    using assms(1) False unfolding c
    by (intro exI [of _ t]) (cases "\<exists>j<i. table_number j = n"; simp add: BUFF_SIZE_def moment_def arrives_def number_Suc)
qed

lemma scan_any_moment:
  assumes "task_ok ns (Scan sec AnyTable x i) o' t" and "advance (Scan sec AnyTable x i) s = Inr (c, s')" and "names s = ns"
  shows "\<exists>t'. moment t ns t' ns \<and> arrives ns c (o' @ prints (Scan sec AnyTable x i) s) t'"
proof (cases "i < 20")
  case True
  then show ?thesis
    using assms by (intro exI [of _ t]) (auto simp: BUFF_SIZE_def moment_def arrives_def full_Suc split: if_splits)
next
  case False
  then have "\<forall>j<20. wanted sec AnyTable j \<longrightarrow> ns ! j \<noteq> empty_name" using assms(1) by (auto simp: full_def)
  then have "answers (WaitSec sec AnyTable x) ns [NoEmptyTable] ns" using any_answers(1) assms(1) by simp
  then show ?thesis
    using False assms by (intro exI [of _ "Answer [NoEmptyTable]"]) (auto simp: BUFF_SIZE_def moment_def arrives_def)
qed

lemma copy_moment:
  assumes "task_ok ns (Copy sec r x i) o' t" and "pc_ok ns (Copy sec r x i)"
    and "advance (Copy sec r x i) s = Inr (c, s')" and "names s = ns"
  shows "\<exists>t'. moment t ns t' (ns[i := x]) \<and> arrives (ns[i := x]) c (o' @ prints (Copy sec r x i) s) t'"
proof -
  have i: "i < 20" "valid_number sec r" "ns ! i = empty_name"
    using assms(2) by (auto simp: in_section_def split: section_id.splits)
  have t: "o' = []" "t = Called (WaitSec sec r x)" "length x = 10" "wanted sec r i" "r = AnyTable \<longrightarrow> full ns sec i"
    using assms(1) by simp_all
  have "answers (WaitSec sec r x) ns [] (ns[i := x])"
  proof (cases r)
    case (Specific n)
    then show ?thesis using specific_answers [of sec n i x ns] i t by (simp add: wanted_def)
  next
    case AnyTable
    then show ?thesis using any_answers(2) [OF t(3) i(1), of sec ns] i t by (simp add: full_def)
  qed
  then show ?thesis
    using t assms(3) by (intro exI [of _ "Answer []"])
      (auto simp: moment_def arrives_def number_Suc wanted_def split: request_kind.splits)
qed

lemma init_loop_moment:
  assumes "task_ok ns (BothBody Init i) o' t" and "emptied (BothBody Init i) (names s)" and "length (names s) = 20"
    and "advance (BothBody Init i) s = Inr (c, s')"
  shows "arrives ns c o' t \<and> emptied c (names s') \<and> (i \<ge> 20 \<longrightarrow> c = PostBothA \<and> names s' = replicate 20 empty_name) \<and>
    (i < 20 \<longrightarrow> initialising c)"
proof (cases "i < 20")
  case True
  then have "take (Suc i) ((names s)[i := empty_name]) = replicate (Suc i) empty_name"
    using assms(2,3) by (simp add: emptied_def take_Suc_conv_app_nth replicate_append_same)
  then show ?thesis using assms True by (auto simp: BUFF_SIZE_def arrives_def emptied_def)
next
  case False
  then have "names s = replicate 20 empty_name" using assms(2,3) by (simp add: emptied_def)
  then show ?thesis using assms False by (auto simp: BUFF_SIZE_def arrives_def emptied_def)
qed

lemma show_loop_arrives:
  assumes "task_ok ns (BothBody Show i) o' t" and "names s = ns" and "advance (BothBody Show i) s = Inr (c, s')"
  shows "arrives ns c (o' @ prints (BothBody Show i) s) t"
proof (cases "i < 20")
  case True
  then have "take (Suc i) (map (table_line ns) [0..<20]) = take i (map (table_line ns) [0..<20]) @ [table_line ns i]"
    by (simp add: take_Suc_conv_app_nth)
  then show ?thesis using assms True by (auto simp: BUFF_SIZE_def arrives_def)
next
  case False
  then show ?thesis using assms by (auto simp: BUFF_SIZE_def arrives_def)
qed

text \<open>Any action of a process: its own place.\<close>

definition goes :: "conc \<Rightarrow> nat \<Rightarrow> out_line list \<Rightarrow> task \<Rightarrow> pc \<Rightarrow> conc \<Rightarrow> bool" where
  "goes s p o' t c s' \<longleftrightarrow> (\<exists>t'. moment t (shadow s) t' (shadow (move p c s')) \<and>
     arrives (shadow (move p c s')) c (o' @ prints (pcs s p) s) t' \<and> emptied c (names s'))"

lemma goesI:
  assumes "shadow (move p c s') = ns'" and "moment t (shadow s) t' ns'" and "arrives ns' c (o' @ prints (pcs s p) s) t'"
    and "emptied c (names s')"
  shows "goes s p o' t c s'"
  using assms by (auto simp: goes_def)

lemma emptied_other: "\<not> initialising c \<Longrightarrow> emptied c ns"
  by (cases c rule: initialising.cases) (simp_all add: emptied_def)

text \<open>An action that changes no name.\<close>

lemma goes_still:
  assumes "names s' = names s" and "pcs s' = pcs s" and "\<not> initialising (pcs s p)" and "\<not> initialising c"
    and "\<exists>t'. moment t (shadow s) t' (shadow s) \<and> arrives (shadow s) c (o' @ prints (pcs s p) s) t'"
  shows "goes s p o' t c s'"
  using assms(5) shadow_move [OF assms(3,4,1,2)] emptied_other [OF assms(4)] by (auto simp: goes_def)

lemma wait_goes:
  assumes "pcs s p = WaitSec sec r x \<or> pcs s p = WaitBothA k" and "advance (pcs s p) s = Inr (c, s')"
    and "task_ok (shadow s) (pcs s p) o' t"
  shows "goes s p o' t c s'"
proof (rule goes_still)
  obtain sec' where w: "wait_sec sec' s = Inr s'"
    using assms(1,2) by (elim disjE) (simp_all only: advance.simps rbind_Inr_iff, blast+)
  show "names s' = names s" "pcs s' = pcs s" using wait_sec_frame [OF w] by simp_all
  show "\<not> initialising (pcs s p)" using assms(1) by auto
  show "\<not> initialising c" using assms(1,2) by (elim disjE) (auto simp: rbind_Inr_iff simp del: wait_sec.simps split: if_splits)
  show "\<exists>t'. moment t (shadow s) t' (shadow s) \<and> arrives (shadow s) c (o' @ prints (pcs s p) s) t'"
    using assms(1)
  proof (elim disjE)
    assume p: "pcs s p = WaitSec sec r x"
    have c: "c = (if valid_number sec r then Scan sec r x 0 else PostSec sec)"
      using assms(2) by (auto simp: p rbind_Inr_iff simp del: wait_sec.simps)
    have t: "o' = []" "t = Called (WaitSec sec r x)" "length x = 10" using assms(3) by (simp_all add: p)
    show ?thesis
    proof (cases "valid_number sec r")
      case True
      then show ?thesis using t c by (intro exI [of _ t]) (cases r; simp add: p moment_def arrives_def)
    next
      case False
      then show ?thesis
        using t c invalid_answers [OF False] by (intro exI [of _ "Answer [InvalidNumber]"]) (auto simp: p moment_def arrives_def)
    qed
  next
    assume p: "pcs s p = WaitBothA k"
    have "c = WaitBothB k" using assms(2) by (auto simp: p rbind_Inr_iff simp del: wait_sec.simps)
    then show ?thesis using assms(3) by (intro exI [of _ t]) (simp add: p moment_def arrives_def)
  qed
qed

lemma post_goes:
  assumes "pcs s p = PostSec sec \<or> pcs s p = PostBothA \<or> pcs s p = PostBothB" and "advance (pcs s p) s = Inr (c, s')"
    and "task_ok (shadow s) (pcs s p) o' t"
  shows "goes s p o' t c s'"
proof (rule goes_still)
  obtain sec' where w: "post_sec sec' s = Inr s'"
    using assms(1,2) by (elim disjE) (simp_all only: advance.simps rbind_Inr_iff, blast+)
  show "names s' = names s" "pcs s' = pcs s" using post_sec_frame [OF w] by simp_all
  show "\<not> initialising (pcs s p)" using assms(1) by auto
  show "\<not> initialising c" using assms(1,2) by (elim disjE) (auto simp: rbind_Inr_iff simp del: post_sec.simps)
  show "\<exists>t'. moment t (shadow s) t' (shadow s) \<and> arrives (shadow s) c (o' @ prints (pcs s p) s) t'"
    using assms by (auto simp: moment_def arrives_def rbind_Inr_iff simp del: post_sec.simps)
qed

lemma scan_goes:
  assumes "conc_inv s" and "pcs s p = Scan sec r x i" and "advance (pcs s p) s = Inr (c, s')"
    and "task_ok (shadow s) (pcs s p) o' t"
  shows "goes s p o' t c s'"
proof (rule goes_still)
  have n: "shadow s = names s" using shadow_names [OF assms(1), of sec p] by (simp add: assms(2))
  have v: "valid_number sec r" using conc_invD(3) [OF assms(1), of p] by (simp add: assms(2))
  have a: "task_ok (shadow s) (Scan sec r x i) o' t" "advance (Scan sec r x i) s = Inr (c, s')"
    using assms(2-4) by (simp_all only:)
  show "names s' = names s" "pcs s' = pcs s" "\<not> initialising (pcs s p)" "\<not> initialising c"
    using assms(2,3) by (auto split: if_splits)
  show "\<exists>t'. moment t (shadow s) t' (shadow s) \<and> arrives (shadow s) c (o' @ prints (pcs s p) s) t'"
  proof (cases r)
    case (Specific n)
    show ?thesis using scan_specific_moment [OF a(1) [unfolded Specific] v [unfolded Specific] a(2) [unfolded Specific] n [symmetric]]
      by (simp only: assms(2) Specific)
  next
    case AnyTable
    show ?thesis using scan_any_moment [OF a(1) [unfolded AnyTable] a(2) [unfolded AnyTable] n [symmetric]]
      by (simp only: assms(2) AnyTable)
  qed
qed

lemma copy_goes:
  assumes "conc_inv s" and "pcs s p = Copy sec r x i" and "advance (pcs s p) s = Inr (c, s')"
    and "task_ok (shadow s) (pcs s p) o' t"
  shows "goes s p o' t c s'"
proof -
  have n: "shadow s = names s" using shadow_names [OF assms(1), of sec p] by (simp add: assms(2))
  have c: "names s' = (names s)[i := x]" "\<not> initialising c" "holds sec c"
    using assms(2,3) by (auto split: request_kind.splits)
  have sh: "shadow (move p c s') = (names s)[i := x]"
    using shadow_names [OF action_inv [OF assms(1,3)], of sec p] c by simp
  have "task_ok (names s) (Copy sec r x i) o' t" "pc_ok (names s) (Copy sec r x i)" "advance (Copy sec r x i) s = Inr (c, s')"
    using assms(2-4) n conc_invD(3) [OF assms(1), of p] by (simp_all only:)
  from copy_moment [OF this refl]
  obtain t' where "moment t (names s) t' ((names s)[i := x])"
      "arrives ((names s)[i := x]) c (o' @ prints (Copy sec r x i) s) t'" by blast
  then show ?thesis using emptied_other [OF c(2)] by (intro goesI [OF sh, where t' = t']) (simp_all only: n assms(2))
qed

lemma wait_B_goes:
  assumes "conc_inv s" and "pcs s p = WaitBothB k" and "advance (pcs s p) s = Inr (c, s')"
    and "task_ok (shadow s) (pcs s p) o' t"
  shows "goes s p o' t c s'"
proof -
  have w: "wait_sec SecB s = Inr s'" and c: "c = BothBody k 0"
    using assms(2,3) by (simp_all only: advance.simps rbind_Inr_iff) auto
  have t: "o' = []" "t = Called (WaitBothA k)" using assms(2,4) by simp_all
  show ?thesis
  proof (cases k)
    case Init
    then have "shadow (move p c s') = replicate 20 empty_name" using c by (auto simp: shadow_def intro!: exI [of _ p])
    then show ?thesis
      using init_answers [of "shadow s"] t Init c
      by (intro goesI [where t' = "Answer []"]) (auto simp: assms(2) moment_def arrives_def emptied_def)
  next
    case Show
    then show ?thesis
      using show_answers [of "shadow s"] t c wait_sec_frame [OF w] by (intro goes_still) (auto simp: assms(2) moment_def arrives_def)
  qed
qed

lemma body_goes:
  assumes "conc_inv s" and "pcs s p = BothBody k i" and "advance (pcs s p) s = Inr (c, s')"
    and "task_ok (shadow s) (pcs s p) o' t" and "emptied (pcs s p) (names s)"
  shows "goes s p o' t c s'"
proof (cases k)
  case Init
  have "initialising (pcs s p)" using assms(2) Init by simp
  then have r: "shadow s = replicate 20 empty_name" by (auto simp: shadow_def)
  have l: "arrives (shadow s) c o' t" "emptied c (names s')" "i < 20 \<or> (c = PostBothA \<and> names s' = replicate 20 empty_name)"
      "i < 20 \<longrightarrow> initialising c"
    using init_loop_moment [of "shadow s" i o' t s c s'] assms(2-5) conc_invD(1) [OF assms(1)] by (auto simp: Init BUFF_SIZE_def)
  then have "shadow (move p c s') = shadow s" unfolding r by (auto simp: shadow_def)
  then show ?thesis using l(1,2) by (intro goesI [where t' = t]) (auto simp: assms(2) Init moment_def)
next
  case Show
  have n: "shadow s = names s" using shadow_names [OF assms(1), of SecA p] by (simp add: assms(2) Show)
  have a: "task_ok (shadow s) (BothBody Show i) o' t" "advance (BothBody Show i) s = Inr (c, s')"
    using assms(2-4) Show by (simp_all only:)
  show ?thesis
  proof (rule goes_still)
    show "names s' = names s" "pcs s' = pcs s" "\<not> initialising c" using a(2) by (auto split: if_splits)
    show "\<not> initialising (pcs s p)" using assms(2) Show by simp
    show "\<exists>t'. moment t (shadow s) t' (shadow s) \<and> arrives (shadow s) c (o' @ prints (pcs s p) s) t'"
      using show_loop_arrives [OF a(1) n [symmetric] a(2)] by (auto simp only: assms(2) Show moment_def)
  qed
qed

lemma own_moment:
  assumes "conc_inv s" and "pcs s p \<noteq> Idle" and "advance (pcs s p) s = Inr (c, s')" and "task_ok (shadow s) (pcs s p) o' t"
    and "emptied (pcs s p) (names s)"
  shows "goes s p o' t c s'"
proof (cases "pcs s p")
  case Idle
  then show ?thesis using assms(2) by contradiction
next
  case (WaitSec sec r x)
  show ?thesis by (rule wait_goes [OF disjI1 [OF WaitSec] assms(3,4)])
next
  case (Scan sec r x i)
  show ?thesis by (rule scan_goes [OF assms(1) Scan assms(3,4)])
next
  case (Copy sec r x i)
  show ?thesis by (rule copy_goes [OF assms(1) Copy assms(3,4)])
next
  case (PostSec sec)
  show ?thesis by (rule post_goes [OF disjI1 [OF PostSec] assms(3,4)])
next
  case (WaitBothA k)
  show ?thesis by (rule wait_goes [OF disjI2 [OF WaitBothA] assms(3,4)])
next
  case (WaitBothB k)
  show ?thesis by (rule wait_B_goes [OF assms(1) WaitBothB assms(3,4)])
next
  case (BothBody k i)
  show ?thesis by (rule body_goes [OF assms(1) BothBody assms(3-5)])
next
  case PostBothA
  show ?thesis by (rule post_goes [OF disjI2 [OF disjI1 [OF PostBothA]] assms(3,4)])
next
  case PostBothB
  show ?thesis by (rule post_goes [OF disjI2 [OF disjI2 [OF PostBothB]] assms(3,4)])
qed

text \<open>Only a copy and the loop of \<open>initTables\<close> write, and only in sections the process holds.\<close>

lemma quiet_advance:
  assumes "advance (pcs s p) s = Inr (c, s')" and "\<not> initialising (pcs s p)" and "\<And>sec r x i. pcs s p \<noteq> Copy sec r x i"
  shows "names s' = names s \<and> pcs s' = pcs s"
  using assms wait_sec_frame post_sec_frame
  by (cases "pcs s p") (auto simp: rbind_Inr_iff simp del: wait_sec.simps post_sec.simps split: if_splits both_kind.splits)

lemma shadow_changes:
  assumes "conc_inv s" and "advance (pcs s p) s = Inr (c, s')" and "shadow (move p c s') ! j \<noteq> shadow s ! j" and "in_section sec j"
  shows "holds sec c"
proof (cases "initialising c")
  case True
  then show ?thesis by (rule initialising_holds)
next
  case c: False
  show ?thesis
  proof (cases "initialising (pcs s p)")
    case True
    then obtain i where "pcs s p = BothBody Init i" by (cases "pcs s p" rule: initialising.cases) simp_all
    then show ?thesis using assms(2) by (auto split: if_splits)
  next
    case p: False
    show ?thesis
    proof (cases "\<exists>sec r x i. pcs s p = Copy sec r x i")
      case True
      then obtain sec' r x i where cp: "pcs s p = Copy sec' r x i" by blast
      have after: "names s' = (names s)[i := x]" "holds sec' c" using assms(2) by (auto simp: cp split: request_kind.splits)
      have "shadow s = names s" "shadow (move p c s') = names s'"
        using shadow_names [OF assms(1), of sec' p] shadow_names [OF action_inv [OF assms(1,2)], of sec' p] after(2) c p
        by (simp_all add: cp)
      then have "j = i" using assms(3) after(1) by (metis nth_list_update_neq)
      moreover have "in_section sec' i" using conc_invD(3) [OF assms(1), of p] by (simp add: cp)
      ultimately have "sec = sec'" using assms(4) by (auto simp: in_section_def split: section_id.splits)
      then show ?thesis using after(2) by simp
    next
      case False
      then have "names s' = names s \<and> pcs s' = pcs s" using quiet_advance [OF assms(2) p] by blast
      then show ?thesis using shadow_move [OF p c, of s'] assms(3) by simp
    qed
  qed
qed

lemma emptied_other_process:
  assumes "conc_inv s" and "advance (pcs s p) s = Inr (c, s')" and "q \<noteq> p" and "emptied (pcs s q) (names s)"
  shows "emptied (pcs s q) (names s')"
proof (cases "initialising (pcs s q)")
  case True
  then have q: "holds sec (pcs s q)" for sec by (rule initialising_holds)
  have n: "\<not> holds sec (pcs s p)" for sec using only_holder [OF assms(1) q, of sec p] assms(3) by auto
  have "\<not> initialising (pcs s p)" using n initialising_holds by blast
  moreover have "pcs s p \<noteq> Copy sec r x i" for sec r x i using n [of sec] by auto
  ultimately have "names s' = names s" using quiet_advance [OF assms(2)] by blast
  then show ?thesis using assms(4) by simp
next
  case False
  then show ?thesis by (rule emptied_other)
qed

text \<open>Both kinds of runs side by side.\<close>

definition simulated :: "conc \<Rightarrow> (nat \<Rightarrow> out_line list) \<Rightarrow> (nat \<Rightarrow> task) \<Rightarrow> resv \<Rightarrow> bool" where
  "simulated s out t r \<longleftrightarrow> conc_inv s \<and> object_ok r (shadow s) \<and>
     (\<forall>p. task_ok (shadow s) (pcs s p) (out p) (t p) \<and> emptied (pcs s p) (names s))"

lemma length_shadow: "conc_inv s \<Longrightarrow> length (shadow s) = 20"
  using conc_invD(1) by (simp add: shadow_def BUFF_SIZE_def)

lemma simulated_begins:
  assumes "simulated s out t r" and "pcs s p = Idle" and "command a"
  shows "simulated (move p a s) (out(p := [])) (t(p := Called a)) r"
proof -
  have a: "\<not> initialising a" "starts a" "length (stored_name a) = 10" "task_ok ns a [] (Called a)" for ns
    using assms(3) by (auto simp: command_def elim!: starts_cases)
  have "shadow (move p a s) = shadow s" using assms(2) a(1) by (intro shadow_move) simp_all
  moreover have "conc_inv (move p a s)"
    using step_inv [OF step.command [of s p a]] assms(1,2) a(2) by (simp add: simulated_def)
  ultimately show ?thesis using assms(1) a(4) emptied_other [OF a(1)] by (simp add: simulated_def)
qed

lemma moment_performs:
  assumes "moment t ns t' ns'" and "object_ok r ns"
  shows "\<exists>r'. (t' = t \<and> r' = r \<or> (\<exists>a os. t = Called a \<and> at_once a r = Inr (os, r') \<and> t' = Answer os)) \<and> object_ok r' ns'"
proof (cases "t' = t \<and> ns' = ns")
  case True
  then show ?thesis using assms(2) by blast
next
  case False
  then obtain a os where a: "t = Called a" "answers a ns os ns'" "t' = Answer os" using assms(1) by (auto simp: moment_def)
  then obtain r' where "at_once a r = Inr (os, r')" "object_ok r' ns'" using assms(2) by (auto simp: answers_def)
  then show ?thesis using a by blast
qed

lemma simulated_moves:
  assumes "simulated s out t r" and "pcs s p \<noteq> Idle" and "advance (pcs s p) s = Inr (c, s')"
    and "o' = out p @ prints (pcs s p) s"
  shows "\<exists>t' r'. (t' = t p \<and> r' = r \<or> (\<exists>a os. t p = Called a \<and> at_once a r = Inr (os, r') \<and> t' = Answer os)) \<and>
    arrives (shadow (move p c s')) c o' t' \<and>
    simulated (move p c s') (out(p := o')) (t(p := if c = Idle then Ready else t')) r'"
proof -
  have inv: "conc_inv s" "object_ok r (shadow s)" "task_ok (shadow s) (pcs s p) (out p) (t p)" "emptied (pcs s p) (names s)"
    using assms(1) by (simp_all add: simulated_def)
  note inv' = action_inv [OF inv(1) assms(3)]
  obtain t' where t': "moment (t p) (shadow s) t' (shadow (move p c s'))" "arrives (shadow (move p c s')) c o' t'" "emptied c (names s')"
    using own_moment [OF inv(1) assms(2,3) inv(3,4)] by (auto simp: goes_def assms(4))
  obtain r' where r': "t' = t p \<and> r' = r \<or> (\<exists>a os. t p = Called a \<and> at_once a r = Inr (os, r') \<and> t' = Answer os)"
      "object_ok r' (shadow (move p c s'))"
    using moment_performs [OF t'(1) inv(2)] by blast
  have pcs: "pcs s' = pcs s" using advance_rank [OF inv(1) assms(2,3)] by simp
  have "task_ok (shadow (move p c s')) (pcs s q) (out q) (t q) \<and> emptied (pcs s q) (names s')" if "q \<noteq> p" for q
  proof
    have same: "pcs (move p c s') q = pcs s q" "pcs (move p c s') p = c" using that pcs by simp_all
    have "task_ok (shadow s) (pcs (move p c s') q) (out q) (t q)" using assms(1) unfolding same simulated_def by blast
    then have "task_ok (shadow (move p c s')) (pcs (move p c s') q) (out q) (t q)"
    proof (rule other_tasks [OF inv' that _ length_shadow [OF inv(1)] length_shadow [OF inv']])
      fix j sec assume "shadow (move p c s') ! j \<noteq> shadow s ! j" "in_section sec j"
      then show "holds sec (pcs (move p c s') p)" unfolding same by (rule shadow_changes [OF inv(1) assms(3)])
    qed
    then show "task_ok (shadow (move p c s')) (pcs s q) (out q) (t q)" unfolding same .
    show "emptied (pcs s q) (names s')"
      using emptied_other_process [OF inv(1) assms(3) that] assms(1) by (simp add: simulated_def)
  qed
  moreover have "task_ok (shadow (move p c s')) c o' (if c = Idle then Ready else t')" using t'(2) by (simp add: arrives_def)
  ultimately have "task_ok (shadow (move p c s')) (pcs (move p c s') q) ((out(p := o')) q) ((t(p := if c = Idle then Ready else t')) q) \<and>
      emptied (pcs (move p c s') q) (names (move p c s'))" for q
    using t'(3) by (cases "q = p") (simp_all add: pcs)
  then have "simulated (move p c s') (out(p := o')) (t(p := if c = Idle then Ready else t')) r'"
    using inv' r'(2) unfolding simulated_def by blast
  then show ?thesis using r'(1) t'(2) by blast
qed

text \<open>A state in which no process has begun a command.\<close>

definition quiet :: "conc \<Rightarrow> resv \<Rightarrow> bool" where
  "quiet s r \<longleftrightarrow> models r s \<and> mutexes_free r \<and> (\<forall>p. pcs s p = Idle)"

lemma quiet_simulated: "quiet s r \<Longrightarrow> simulated s (\<lambda>_. []) (\<lambda>_. Ready) r"
proof -
  assume q: "quiet s r"
  then have "reach s" by (intro reach.boot) (auto simp: quiet_def models_def mutexes_free_def tables_ok_def)
  then show ?thesis
    using q reach_inv [of s] by (auto simp: simulated_def quiet_def models_def object_ok_def shadow_def emptied_def)
qed

lemma runs_simulated:
  "runs s0 h out s \<Longrightarrow> quiet s0 r0 \<Longrightarrow> \<exists>t r. object_runs r0 h t r \<and> simulated s out t r"
proof (induction rule: runs.induct)
  case nothing
  then show ?case using quiet_simulated object_runs.nothing by blast
next
  case (begins h out s p a)
  then obtain t r where o: "object_runs r0 h t r" "simulated s out t r" by blast
  then have "t p = Ready" using begins.hyps(2) by (auto simp: simulated_def dest: spec [of _ p])
  then show ?case using object_runs.begins [OF o(1) _ begins.hyps(3)] simulated_begins [OF o(2) begins.hyps(2,3)] by blast
next
  case (acts h out s p c s' o')
  then obtain t r where o: "object_runs r0 h t r" "simulated s out t r" by blast
  from simulated_moves [OF o(2) acts.hyps(2-4)] obtain t' r' where
    m: "t' = t p \<and> r' = r \<or> (\<exists>a os. t p = Called a \<and> at_once a r = Inr (os, r') \<and> t' = Answer os)"
      "arrives (shadow (move p c s')) c o' t'"
      "simulated (move p c s') (out(p := o')) (t(p := if c = Idle then Ready else t')) r'" by blast
  have r: "object_runs r0 h (t(p := t')) r'" using m(1) o(1) object_runs.performs [OF o(1)] by auto
  show ?case
  proof (cases "c = Idle")
    case True
    then have "t' = Answer o'" using m(2) by (simp add: arrives_def)
    then have "object_runs r0 (h @ [Ends p o']) (t(p := Ready)) r'" using object_runs.ends [OF r, of p o'] by simp
    then show ?thesis using m(3) unfolding True by (simp only: refl if_True) blast
  next
    case False
    then have "object_runs r0 (h @ (if c = Idle then [Ends p o'] else [])) (t(p := t')) r'" using r by simp
    then show ?thesis using m(3) False by (simp only: if_False) blast
  qed
qed

subsection \<open>Complete histories\<close>

text \<open>The sequence of the moments, and what executing it one command after the other leaves and prints.\<close>

fun one_by_one :: "(nat \<times> pc) list \<Rightarrow> resv \<Rightarrow> ((nat \<times> out_line list) list \<times> resv) result" where
  "one_by_one [] r = Inr ([], r)"
| "one_by_one ((p, a) # l) r =
     rbind (at_once a r) (\<lambda>(o', r1). rbind (one_by_one l r1) (\<lambda>(os, r2). Inr ((p, o') # os, r2)))"

definition of_process :: "nat \<Rightarrow> (nat \<times> 'a) list \<Rightarrow> 'a list" where
  "of_process p l = map snd (filter (\<lambda>x. fst x = p) l)"

fun begun :: "event list \<Rightarrow> (nat \<times> pc) list" where
  "begun [] = []"
| "begun (Begins p a # h) = (p, a) # begun h"
| "begun (Ends p os # h) = begun h"

fun ended :: "event list \<Rightarrow> (nat \<times> out_line list) list" where
  "ended [] = []"
| "ended (Begins p a # h) = ended h"
| "ended (Ends p os # h) = (p, os) # ended h"

lemma begun_append [simp]: "begun (h @ h') = begun h @ begun h'"
  by (induction h rule: begun.induct) simp_all

lemma ended_append [simp]: "ended (h @ h') = ended h @ ended h'"
  by (induction h rule: ended.induct) simp_all

lemma of_process_append [simp]: "of_process p (l @ l') = of_process p l @ of_process p l'"
  by (simp add: of_process_def)

lemma of_process_single [simp]: "of_process p [] = []" "of_process p [(q, a)] = (if p = q then [a] else [])"
  by (simp_all add: of_process_def)

lemma one_by_one_snoc:
  "one_by_one l r0 = Inr (os, r) \<Longrightarrow> at_once a r = Inr (o', r') \<Longrightarrow> one_by_one (l @ [(p, a)]) r0 = Inr (os @ [(p, o')], r')"
  by (induction l r0 arbitrary: os rule: one_by_one.induct) (auto simp: rbind_Inr_iff)

fun called :: "task \<Rightarrow> pc list" where
  "called (Called a) = [a]"
| "called _ = []"

fun answered :: "task \<Rightarrow> out_line list list" where
  "answered (Answer os) = [os]"
| "answered _ = []"

lemma object_one_by_one:
  "object_runs r0 h t r \<Longrightarrow> \<exists>l os. one_by_one l r0 = Inr (os, r) \<and>
     (\<forall>p. of_process p (begun h) = of_process p l @ called (t p) \<and> of_process p os = of_process p (ended h) @ answered (t p))"
proof (induction rule: object_runs.induct)
  case nothing
  then show ?case by (intro exI [of _ "[]"]) simp
next
  case (begins h t r p a)
  then obtain l os where "one_by_one l r0 = Inr (os, r)"
    "\<forall>p. of_process p (begun h) = of_process p l @ called (t p) \<and> of_process p os = of_process p (ended h) @ answered (t p)" by blast
  then show ?case using begins.hyps(2) by (intro exI [of _ l] exI [of _ os]) auto
next
  case (performs h t r p a o' r')
  then obtain l os where "one_by_one l r0 = Inr (os, r)"
    "\<forall>p. of_process p (begun h) = of_process p l @ called (t p) \<and> of_process p os = of_process p (ended h) @ answered (t p)" by blast
  then show ?case
    using performs.hyps(2) one_by_one_snoc [OF _ performs.hyps(3), of l r0 os p]
    by (intro exI [of _ "l @ [(p, a)]"] exI [of _ "os @ [(p, o')]"]) auto
next
  case (ends h t r p o')
  then obtain l os where "one_by_one l r0 = Inr (os, r)"
    "\<forall>p. of_process p (begun h) = of_process p l @ called (t p) \<and> of_process p os = of_process p (ended h) @ answered (t p)" by blast
  then show ?case using ends.hyps(2) by (intro exI [of _ l] exI [of _ os]) auto
qed

lemma complete_history:
  assumes "quiet s0 r0" and "runs s0 h out s" and "busy s = {}"
  shows "\<exists>l os r. one_by_one l r0 = Inr (os, r) \<and> models r s \<and>
    (\<forall>p. of_process p l = of_process p (begun h) \<and> of_process p os = of_process p (ended h))"
proof -
  obtain t r where o: "object_runs r0 h t r" "simulated s out t r" using runs_simulated [OF assms(2,1)] by blast
  have idle: "pcs s p = Idle" for p using assms(3) by (auto simp: busy_def)
  then have "t p = Ready" for p using o(2) by (auto simp: simulated_def dest: spec [of _ p])
  moreover obtain l os where "one_by_one l r0 = Inr (os, r)"
    "\<forall>p. of_process p (begun h) = of_process p l @ called (t p) \<and> of_process p os = of_process p (ended h) @ answered (t p)"
    using object_one_by_one [OF o(1)] by blast
  moreover have "models r s"
    using o(2) idle idle_locks_free [OF _ assms(3), of SecA] idle_locks_free [OF _ assms(3), of SecB]
    by (auto simp: simulated_def object_ok_def models_def shadow_def mutexes_free_def)
  ultimately show ?thesis by (intro exI [of _ l] exI [of _ os] exI [of _ r]) auto
qed

subsection \<open>Properties\<close>

text \<open>
  A run of two processes: while process 0 reserves a table of section A, process 1 asks for
  a number that section B does not have.
\<close>

definition demo_name :: "byte list" where
  "demo_name = replicate 10 120"

definition demo_history :: "event list" where
  "demo_history = [Begins 0 (WaitSec SecA AnyTable demo_name), Begins 1 (WaitSec SecB (Specific 7) demo_name),
     Ends 1 [InvalidNumber], Ends 0 []]"

text \<open>A run along a schedule, for examples.\<close>

datatype turn = Start nat pc | Go nat

fun play :: "turn list \<Rightarrow> event list \<times> (nat \<Rightarrow> out_line list) \<times> conc \<Rightarrow> (event list \<times> (nat \<Rightarrow> out_line list) \<times> conc) option" where
  "play [] z = Some z"
| "play (Start p a # ts) (h, out, s) =
     (if pcs s p = Idle \<and> command a then play ts (h @ [Begins p a], out(p := []), move p a s) else None)"
| "play (Go p # ts) (h, out, s) =
     (if pcs s p = Idle then None
      else case advance (pcs s p) s of
        Inl e \<Rightarrow> None
      | Inr (c, s') \<Rightarrow> (let o' = out p @ prints (pcs s p) s in
          play ts (h @ (if c = Idle then [Ends p o'] else []), out(p := o'), move p c s')))"

lemma play_runs: "play ts (h, out, s) = Some (h', out', s') \<Longrightarrow> runs s0 h out s \<Longrightarrow> runs s0 h' out' s'"
proof (induction ts "(h, out, s)" arbitrary: h out s rule: play.induct)
  case (2 p a ts h out s)
  then show ?case using runs.begins by (auto split: if_splits)
next
  case (3 p ts h out s)
  then show ?case using runs.acts by (auto simp: Let_def split: if_splits sum.splits)
qed simp

lemma command_simps [simp]: "command (WaitSec sec r x) \<longleftrightarrow> length x = 10" "command (WaitBothA k)"
  by (simp_all add: command_def starts.intros)

lemma demo_runs:
  "\<exists>out. runs demo_boot_conc demo_history out (demo_boot_conc\<lparr>names := (names demo_boot_conc)[0 := demo_name]\<rparr>)"
proof -
  let ?ts = "[Start 0 (WaitSec SecA AnyTable demo_name), Go 0, Start 1 (WaitSec SecB (Specific 7) demo_name), Go 0, Go 1, Go 0, Go 1, Go 0]"
  have "\<exists>out s. play ?ts ([], \<lambda>_. [], demo_boot_conc) = Some (demo_history, out, s) \<and>
      s = demo_boot_conc\<lparr>names := (names demo_boot_conc)[0 := demo_name]\<rparr>"
    by (intro exI [of _ "(\<lambda>_. [])(1 := [InvalidNumber])"])
      (simp add: demo_boot_conc_def demo_history_def demo_name_def move_def sem_wait_val_def sem_post_val_def valid_number_def
        wanted_def table_number_def BUFF_SIZE_def fun_eq_iff Let_def)
  then show ?thesis using play_runs [OF _ runs.nothing] by blast
qed

lemma demo_quiet: "quiet demo_boot_conc demo_tables"
  using demo_tables_ok by (auto simp: quiet_def models_def demo_boot_conc_def mutexes_free_def demo_tables_def comp_def map_replicate_const)

text \<open>C5: Every command takes place in a single moment: whatever the processes do, and however their
  actions are interleaved, the history - who starts which command when, and what each command has
  printed when it ends - is one of an object that executes each function of the source at once
  at some moment between its start and its end; and the names in the shared memory are those of the
  object, but for an \<open>initTables\<close> that is still running.\<close>

theorem commands_atomic:
  assumes "quiet s0 r0" and "runs s0 h out s"
  shows "\<exists>t r. object_runs r0 h t r \<and> map tname (tables r) = shadow s"
proof -
  obtain t r where "object_runs r0 h t r" "simulated s out t r" using runs_simulated [OF assms(2,1)] by blast
  then show ?thesis by (auto simp: simulated_def object_ok_def)
qed

theorem commands_atomic_witness:
  "\<exists>t r. object_runs demo_tables demo_history t r \<and> map tname (tables r) = (replicate 20 empty_name)[0 := demo_name]"
proof -
  obtain out where r: "runs demo_boot_conc demo_history out (demo_boot_conc\<lparr>names := (names demo_boot_conc)[0 := demo_name]\<rparr>)"
    using demo_runs by blast
  have "shadow (demo_boot_conc\<lparr>names := (names demo_boot_conc)[0 := demo_name]\<rparr>) = (replicate 20 empty_name)[0 := demo_name]"
    by (simp add: shadow_def demo_boot_conc_def)
  then show ?thesis using commands_atomic [OF demo_quiet r] by simp
qed

text \<open>C11: When all commands are done, there is an order in which the functions of the source, executed
  one after the other by a single process, leave the same tables and semaphores, and in which every
  process has started the same commands in the same order and has got the same lines printed by each of
  them.\<close>

theorem serial_order:
  assumes "quiet s0 r0" and "runs s0 h out s" and "busy s = {}"
  shows "\<exists>l os r. one_by_one l r0 = Inr (os, r) \<and> models r s \<and>
    (\<forall>p. of_process p l = of_process p (begun h) \<and> of_process p os = of_process p (ended h))"
  by (rule complete_history [OF assms])

theorem serial_order_witness:
  "\<exists>l os r. one_by_one l demo_tables = Inr (os, r) \<and> map tname (tables r) = (replicate 20 empty_name)[0 := demo_name] \<and>
    of_process 0 l = [WaitSec SecA AnyTable demo_name] \<and> of_process 1 os = [[InvalidNumber]]"
proof -
  let ?s = "demo_boot_conc\<lparr>names := (names demo_boot_conc)[0 := demo_name]\<rparr>"
  obtain out where r: "runs demo_boot_conc demo_history out ?s" using demo_runs by blast
  have "busy ?s = {}" by (simp add: busy_def demo_boot_conc_def)
  from serial_order [OF demo_quiet r this] obtain l os r where "one_by_one l demo_tables = Inr (os, r)" "models r ?s"
    "of_process 0 l = of_process 0 (begun demo_history)" "of_process 1 os = of_process 1 (ended demo_history)" by blast
  moreover have "names ?s = (replicate 20 empty_name)[0 := demo_name]" by (simp add: demo_boot_conc_def)
  ultimately show ?thesis
    by (intro exI [of _ l] exI [of _ os] exI [of _ r]) (auto simp: models_def demo_history_def of_process_def)
qed

end
