(* ===== verification/Namespaces.thy ===== *)
theory Namespaces
  imports Reservation
begin

text \<open>
  The system-wide names the reservation program leaves behind, and
  \<^verbatim>\<open>Reservation system/clearout.c\<close>, which is to remove them: the shared memory
  object with the tables and the two named semaphores.
\<close>

subsection \<open>Names\<close>

record namespaces =
  shm_objs :: "string \<rightharpoonup> table list"
  sem_vals :: "string \<rightharpoonup> nat"

definition BUFF_SHM :: string where
  "BUFF_SHM = ''/yijiezhou_BUFF''"

definition BUFF_MUTEX_A :: string where
  "BUFF_MUTEX_A = ''/yijiezhou_MUTEX_A''"

definition BUFF_MUTEX_B :: string where
  "BUFF_MUTEX_B = ''/yijiezhou_MUTEX_B''"

definition shm_unlink :: "string \<Rightarrow> 'a namespaces_scheme \<Rightarrow> int \<times> 'a namespaces_scheme" where
  "shm_unlink n s = (if shm_objs s n = None then (-1, s) else (0, s\<lparr>shm_objs := (shm_objs s)(n := None)\<rparr>))"

definition sem_unlink :: "string \<Rightarrow> 'a namespaces_scheme \<Rightarrow> int \<times> 'a namespaces_scheme" where
  "sem_unlink n s = (if sem_vals s n = None then (-1, s) else (0, s\<lparr>sem_vals := (sem_vals s)(n := None)\<rparr>))"

definition clearout_main :: "'a namespaces_scheme \<Rightarrow> int \<times> 'a namespaces_scheme" where
  "clearout_main s =
     (let (r1, s1) = shm_unlink BUFF_MUTEX_A s;
          (r2, s2) = shm_unlink BUFF_MUTEX_B s1;
          (r3, s3) = sem_unlink BUFF_MUTEX_A s2;
          (r4, s4) = sem_unlink BUFF_MUTEX_B s3
      in (0, s4))"

text \<open>
  What a process of the reservation program finds when it opens these names: a new object
  has twenty tables of zero bytes (\<open>ftruncate\<close>).
\<close>

definition zero_tables :: "table list" where
  "zero_tables = replicate BUFF_SIZE \<lparr>tnum = 0, tname = replicate 10 0, tpad = [0, 0]\<rparr>"

definition attach :: "byte stream \<Rightarrow> byte list \<Rightarrow> 'a namespaces_scheme \<Rightarrow> resv" where
  "attach junk inp s =
     \<lparr>unk = junk, tables = (case shm_objs s BUFF_SHM of None \<Rightarrow> zero_tables | Some ts \<Rightarrow> ts),
      mutexA = sem_vals s BUFF_MUTEX_A, mutexB = sem_vals s BUFF_MUTEX_B, input = inp, printed = []\<rparr>"

lemma unlink_simps [simp]:
  "shm_objs (snd (shm_unlink n s)) = (shm_objs s)(n := None)" "sem_vals (snd (shm_unlink n s)) = sem_vals s"
  "sem_vals (snd (sem_unlink n s)) = (sem_vals s)(n := None)" "shm_objs (snd (sem_unlink n s)) = shm_objs s"
  by (auto simp: shm_unlink_def sem_unlink_def)

lemma names_distinct [simp]:
  "BUFF_SHM \<noteq> BUFF_MUTEX_A" "BUFF_SHM \<noteq> BUFF_MUTEX_B" "BUFF_MUTEX_A \<noteq> BUFF_MUTEX_B"
  by (simp_all add: BUFF_SHM_def BUFF_MUTEX_A_def BUFF_MUTEX_B_def)

lemma clearout_effect:
  "fst (clearout_main s) = 0"
  "sem_vals (snd (clearout_main s)) = (sem_vals s)(BUFF_MUTEX_A := None, BUFF_MUTEX_B := None)"
  "shm_objs (snd (clearout_main s)) = (shm_objs s)(BUFF_MUTEX_A := None, BUFF_MUTEX_B := None)"
  by (simp_all add: clearout_main_def Let_def split_beta)

subsection \<open>Properties\<close>

text \<open>C40: After \<open>clearout\<close> a program that starts gets fresh semaphores, whatever state a killed
  process left them in, and reaches its command loop with empty tables and nobody inside a section.\<close>

theorem clearout_restarts:
  assumes "\<forall>ts. shm_objs s BUFF_SHM = Some ts \<longrightarrow> length ts = 20 \<and> (\<forall>i<20. tpad (ts ! i) = [0, 0])"
  shows "\<exists>cmd s0. reservation_main (attach junk inp (snd (clearout_main s))) = command_loop cmd s0 \<and>
    tables_ok s0 \<and> guests s0 = Map.empty \<and> mutexes_free s0 \<and> input s0 = inp"
proof -
  let ?a = "attach junk inp (snd (clearout_main s))"
  have f: "mutexA ?a = None" "mutexB ?a = None" "input ?a = inp"
    by (simp_all add: attach_def clearout_effect)
  have t: "length (tables ?a) = 20" "\<forall>i<20. tpad (tables ?a ! i) = [0, 0]"
    using assms by (auto simp: attach_def clearout_effect zero_tables_def BUFF_SIZE_def split: option.splits)
  show ?thesis using main_starts_empty [OF t] f by auto
qed

text \<open>A process was killed inside both sections.\<close>

theorem clearout_restarts_witness:
  "let s = \<lparr>shm_objs = [BUFF_SHM \<mapsto> tables demo_tables], sem_vals = [BUFF_MUTEX_A \<mapsto> 0, BUFF_MUTEX_B \<mapsto> 0]\<rparr> in
   \<exists>cmd s0. reservation_main (attach (sconst 0) [] (snd (clearout_main s))) = command_loop cmd s0 \<and>
     tables_ok s0 \<and> guests s0 = Map.empty \<and> mutexes_free s0 \<and> input s0 = []"
proof -
  let ?s = "\<lparr>shm_objs = [BUFF_SHM \<mapsto> tables demo_tables], sem_vals = [BUFF_MUTEX_A \<mapsto> 0, BUFF_MUTEX_B \<mapsto> 0]\<rparr>"
  have "\<forall>ts. shm_objs ?s BUFF_SHM = Some ts \<longrightarrow> length ts = 20 \<and> (\<forall>i<20. tpad (ts ! i) = [0, 0])"
    by (simp add: demo_tables_def)
  from clearout_restarts [OF this] show ?thesis by (simp only: Let_def)
qed

text \<open>\<open>clearout\<close> does not remove the shared memory: it unlinks the names of the semaphores
  as shared memory objects, and the tables with all reservations are still there afterwards.\<close>

theorem clearout_leaves_tables:
  "shm_objs (snd (clearout_main s)) BUFF_SHM = shm_objs s BUFF_SHM \<and>
    sem_vals (snd (clearout_main s)) BUFF_MUTEX_A = None \<and> sem_vals (snd (clearout_main s)) BUFF_MUTEX_B = None"
  by (simp add: clearout_effect)

end
