(* ===== verification/Fd_Table.thy ===== *)
theory Fd_Table
  imports C_Library
begin

text \<open>
  The file descriptors of a process and its standard output, as
  \<^verbatim>\<open>A_simple_shell/redirect_test.c\<close>, \<open>buildin_cat\<close> of the shell and the standard input
  of the reservation program use them: \<open>open\<close>, \<open>close\<close>, \<open>dup\<close> and \<open>dup2\<close> with the rule of
  the lowest free number, and \<open>printf\<close> with its buffer.

  A descriptor table is the list of what the numbers 0, 1, 2, ... refer to; everything
  behind the list is closed. The files are named by values of a type of their own.
\<close>

subsection \<open>The table\<close>

type_synonym 'f fd_list = "'f option list"

definition fd_get :: "int \<Rightarrow> 'f fd_list \<Rightarrow> 'f option" where
  "fd_get d t = (if 0 \<le> d \<and> d < int (length t) then t ! nat d else None)"

definition fd_put :: "nat \<Rightarrow> 'f option \<Rightarrow> 'f fd_list \<Rightarrow> 'f fd_list" where
  "fd_put n x t = (t @ replicate (Suc n - length t) None)[n := x]"

definition fd_lowest :: "'f fd_list \<Rightarrow> nat" where
  "fd_lowest t = length (takeWhile (\<lambda>x. x \<noteq> None) t)"

text \<open>The argument of \<open>c_open\<close> is the file the path leads to, \<open>None\<close> if it cannot be opened.\<close>

definition c_open :: "'f option \<Rightarrow> 'f fd_list \<Rightarrow> int \<times> 'f fd_list" where
  "c_open f t = (case f of None \<Rightarrow> (-1, t) | Some x \<Rightarrow> (int (fd_lowest t), fd_put (fd_lowest t) (Some x) t))"

definition c_close :: "int \<Rightarrow> 'f fd_list \<Rightarrow> int \<times> 'f fd_list" where
  "c_close d t = (if fd_get d t = None then (-1, t) else (0, fd_put (nat d) None t))"

definition c_dup :: "int \<Rightarrow> 'f fd_list \<Rightarrow> int \<times> 'f fd_list" where
  "c_dup d t = c_open (fd_get d t) t"

definition c_dup2 :: "int \<Rightarrow> int \<Rightarrow> 'f fd_list \<Rightarrow> int \<times> 'f fd_list" where
  "c_dup2 d e t =
     (if fd_get d t = None \<or> e < 0 then (-1, t)
      else if d = e then (e, t) else (e, fd_put (nat e) (fd_get d t) t))"

lemma fd_get_put: "fd_get d (fd_put n x t) = (if d = int n then x else fd_get d t)"
  by (auto simp: fd_get_def fd_put_def nth_list_update nth_append)

lemma fd_lowest_free: "fd_get (int (fd_lowest t)) t = None"
proof (cases "fd_lowest t < length t")
  case True
  then have "t ! fd_lowest t = None" using nth_length_takeWhile [of "\<lambda>x. x \<noteq> None" t] by (simp add: fd_lowest_def)
  then show ?thesis by (simp add: fd_get_def)
qed (simp add: fd_get_def)

lemma fd_below_lowest: "n < fd_lowest t \<Longrightarrow> fd_get (int n) t \<noteq> None"
proof -
  assume n: "n < fd_lowest t"
  then have "n < length t" using length_takeWhile_le [of "\<lambda>x. x \<noteq> None" t] unfolding fd_lowest_def by linarith
  moreover have "t ! n \<noteq> None"
    using n takeWhile_nth [of n "\<lambda>x. x \<noteq> None" t] nth_mem [of n "takeWhile (\<lambda>x. x \<noteq> None) t"] set_takeWhileD [of _ "\<lambda>x. x \<noteq> None" t]
    unfolding fd_lowest_def by metis
  ultimately show ?thesis by (simp add: fd_get_def)
qed

text \<open>The lowest free number is the only number that is free and has none free below it.\<close>

lemma fd_lowest_eqI:
  assumes "fd_get (int n) t = None" and "\<forall>m<n. fd_get (int m) t \<noteq> None"
  shows "fd_lowest t = n"
  using assms fd_lowest_free [of t] fd_below_lowest [of n t] by (metis linorder_neqE_nat)

lemma c_open_ok: "c_open (Some x) t = (int (fd_lowest t), fd_put (fd_lowest t) (Some x) t)"
  by (simp add: c_open_def)

subsection \<open>Redirecting a descriptor\<close>

text \<open>
  \<open>fd = open(...); close(d); dup(fd);\<close> gives the number \<open>d\<close> to the file when all numbers
  below \<open>d\<close> are in use.
\<close>

definition redirect_fd :: "int \<Rightarrow> 'f option \<Rightarrow> 'f fd_list \<Rightarrow> int \<times> int \<times> 'f fd_list" where
  "redirect_fd d f t =
     (let (fd, t1) = c_open f t; (r, t2) = c_close d t1; (e, t3) = c_dup fd t2 in (fd, e, t3))"

lemma redirect_fd_ok:
  assumes "\<forall>m\<le>d. fd_get (int m) t \<noteq> None"
  shows "\<exists>t'. redirect_fd (int d) (Some x) t = (int (fd_lowest t), int d, t') \<and>
    fd_get (int d) t' = Some x \<and> fd_get (int (fd_lowest t)) t' = Some x \<and>
    (\<forall>e. e \<noteq> int d \<longrightarrow> e \<noteq> int (fd_lowest t) \<longrightarrow> fd_get e t' = fd_get e t)"
proof -
  let ?n = "fd_lowest t" let ?t1 = "fd_put ?n (Some x) t" let ?t2 = "fd_put d None ?t1"
  have n: "?n \<noteq> d" using assms fd_lowest_free [of t] by auto
  have "fd_lowest ?t2 = d"
    using assms by (intro fd_lowest_eqI) (auto simp: fd_get_put)
  then have run: "redirect_fd (int d) (Some x) t = (int ?n, int d, fd_put d (Some x) ?t2)"
    using assms n by (auto simp: redirect_fd_def c_open_ok c_close_def c_dup_def fd_get_put)
  show ?thesis unfolding run using n by (auto simp: fd_get_put)
qed

lemma redirect_fd_fails:
  assumes "fd_get (int d) t \<noteq> None"
  shows "redirect_fd (int d) None t = (-1, -1, fd_put d None t)"
  using assms by (auto simp: redirect_fd_def c_open_def c_close_def c_dup_def fd_get_def [of "-1"])

subsection \<open>The standard output\<close>

text \<open>
  \<open>line_buffered\<close> holds when the standard output was a terminal at the start;
  \<open>written\<close> is what has left the process, with the file it went to.
\<close>

record 'f proc = mem +
  fds :: "'f fd_list"
  out_buf :: "byte list"
  line_buffered :: bool
  written :: "('f \<times> byte list) list"

definition flush_out :: "('f, 'a) proc_scheme \<Rightarrow> ('f, 'a) proc_scheme" where
  "flush_out s =
     (if out_buf s = [] then s
      else s\<lparr>out_buf := [], written := (case fd_get 1 (fds s) of None \<Rightarrow> written s | Some f \<Rightarrow> written s @ [(f, out_buf s)])\<rparr>)"

text \<open>The texts printed here are far shorter than the buffer of the library.\<close>

definition c_printf :: "byte list \<Rightarrow> ('f, 'a) proc_scheme \<Rightarrow> ('f, 'a) proc_scheme" where
  "c_printf txt s =
     (let s1 = s\<lparr>out_buf := out_buf s @ txt\<rparr>
      in if line_buffered s \<and> txt \<noteq> [] \<and> last txt = 10 then flush_out s1 else s1)"

text \<open>\<open>redirect_test.c\<close>; the end of \<open>main\<close> flushes the standard output.\<close>

definition redirect_main :: "'f option \<Rightarrow> 'f proc \<Rightarrow> 'f proc" where
  "redirect_main f s =
     (let s1 = c_printf (bytes_of ''initiate redirect'' @ [10]) s;
          (fd_1, dup_fd, t3) = redirect_fd 1 f (fds s1);
          s2 = c_printf (bytes_of ''A simple program output.'') (s1\<lparr>fds := t3\<rparr>);
          (r2, t4) = c_close fd_1 (fds s2)
      in flush_out (s2\<lparr>fds := t4\<rparr>))"

subsection \<open>The standard input of the reservation program\<close>

text \<open>The two places of its \<open>main\<close> that deal with descriptor 0.\<close>

definition rewire_stdin :: "'f option \<Rightarrow> 'f fd_list \<Rightarrow> int \<times> 'f fd_list" where
  "rewire_stdin f t =
     (let (fdstdin, e, t3) = redirect_fd 0 f t in (fdstdin, t3))"

definition reset_stdin :: "'f fd_list \<Rightarrow> 'f fd_list" where
  "reset_stdin t = snd (c_dup2 0 0 t)"

subsection \<open>Properties\<close>

text \<open>\<open>redirect_test\<close>, started with 0, 1 and 2 open, sends its last text to the file. The
  first text goes to the old standard output if that is a terminal and to the file as well
  otherwise, since it is still in the buffer when descriptor 1 changes. If the file cannot be
  opened, what is in the buffer then is lost.\<close>

theorem redirect_main_output:
  assumes "fd_get 0 (fds s) \<noteq> None" and "fd_get 1 (fds s) = Some term" and "out_buf s = []"
  shows "written (redirect_main (Some x) s) = written s @
      (if line_buffered s then [(term, bytes_of ''initiate redirect'' @ [10]), (x, bytes_of ''A simple program output.'')]
       else [(x, bytes_of ''initiate redirect'' @ [10] @ bytes_of ''A simple program output.'')]) \<and>
    written (redirect_main None s) = written s @
      (if line_buffered s then [(term, bytes_of ''initiate redirect'' @ [10])] else [])"
proof -
  have texts: "bytes_of ''initiate redirect'' \<noteq> []" "last (bytes_of ''A simple program output.'') \<noteq> 10"
      "bytes_of ''A simple program output.'' \<noteq> []"
    by code_simp+
  have low: "\<forall>m\<le>1. fd_get (int m) (fds s) \<noteq> None"
    using assms(1,2) by (auto simp: le_Suc_eq)
  obtain t' where t': "redirect_fd 1 (Some x) (fds s) = (int (fd_lowest (fds s)), 1, t')" "fd_get 1 t' = Some x"
      "fd_get (int (fd_lowest (fds s))) t' = Some x"
    using redirect_fd_ok [OF low, of x] by auto
  have n: "int (fd_lowest (fds s)) \<noteq> 1" using fd_lowest_free [of "fds s"] assms(2) by auto
  have closed: "redirect_fd 1 None (fds s) = (-1, -1, fd_put 1 None (fds s))"
    using redirect_fd_fails [of 1 "fds s"] assms(2) by simp
  show ?thesis
    using assms(2,3) texts t' n
    by (auto simp: redirect_main_def c_printf_def flush_out_def closed Let_def c_close_def fd_get_put)
qed

theorem redirect_main_output_witness:
  "let s = \<lparr>unk = sconst 0, fds = [Some ''tty'', Some ''tty'', Some ''tty''], out_buf = [], line_buffered = True, written = []\<rparr> in
   written (redirect_main (Some ''redirect.txt'') s) =
     [(''tty'', bytes_of ''initiate redirect'' @ [10]), (''redirect.txt'', bytes_of ''A simple program output.'')] \<and>
   written (redirect_main None s) = [(''tty'', bytes_of ''initiate redirect'' @ [10])]"
proof -
  let ?s = "\<lparr>unk = sconst 0, fds = [Some ''tty'', Some ''tty'', Some ''tty''], out_buf = [], line_buffered = True, written = []\<rparr>"
  have "fd_get 0 (fds ?s) \<noteq> None" "fd_get 1 (fds ?s) = Some ''tty''" "out_buf ?s = []" by (simp_all add: fd_get_def)
  from redirect_main_output [OF this, of "''redirect.txt''"] show ?thesis by (simp add: Let_def)
qed

text \<open>Rewiring the standard input of the reservation program to a file makes descriptor 0 that
  file and keeps a second descriptor to it; the old standard input is gone from the table
  unless another descriptor has it, and the \<open>dup2\<close> at the end of \<open>main\<close> that is to reset it
  changes nothing. A file that cannot be opened leaves the program without standard input.\<close>

theorem rewire_stdin_correct:
  assumes "fd_get 0 t \<noteq> None"
  shows "fd_get 0 (snd (rewire_stdin (Some x) t)) = Some x \<and>
    reset_stdin (snd (rewire_stdin (Some x) t)) = snd (rewire_stdin (Some x) t) \<and>
    (\<forall>d. d \<noteq> 0 \<and> d \<noteq> fst (rewire_stdin (Some x) t) \<longrightarrow> fd_get d (snd (rewire_stdin (Some x) t)) = fd_get d t) \<and>
    fd_get 0 (snd (rewire_stdin None t)) = None"
proof -
  have low: "\<forall>m\<le>0. fd_get (int m) t \<noteq> None" using assms by simp
  obtain t' where t': "redirect_fd 0 (Some x) t = (int (fd_lowest t), 0, t')" "fd_get 0 t' = Some x"
      "\<forall>e. e \<noteq> 0 \<longrightarrow> e \<noteq> int (fd_lowest t) \<longrightarrow> fd_get e t' = fd_get e t"
    using redirect_fd_ok [OF low, of x] by auto
  have "redirect_fd 0 None t = (-1, -1, fd_put 0 None t)" using redirect_fd_fails [of 0 t] assms by simp
  then show ?thesis
    using t' by (auto simp: rewire_stdin_def reset_stdin_def c_dup2_def fd_get_put split: if_splits)
qed

theorem rewire_stdin_correct_witness:
  "fd_get 0 (snd (rewire_stdin (Some ''cmds'') [Some ''tty'', Some ''tty''])) = Some ''cmds'' \<and>
    reset_stdin (snd (rewire_stdin (Some ''cmds'') [Some ''tty'', Some ''tty''])) =
      snd (rewire_stdin (Some ''cmds'') [Some ''tty'', Some ''tty'']) \<and>
    fd_get 0 (snd (rewire_stdin None [Some ''tty'', Some ''tty''])) = None"
proof -
  have "fd_get 0 [Some ''tty'', Some ''tty''] \<noteq> None" by (simp add: fd_get_def)
  from rewire_stdin_correct [OF this, of "''cmds''"] show ?thesis by blast
qed

end
