(* ===== verification/Reservation_Run.thy ===== *)
theory Reservation_Run
  imports Namespaces Fd_Table
begin

text \<open>
  The whole \<open>main\<close> of \<^verbatim>\<open>Reservation system/main.c\<close>: the rewiring of the standard input of
  \<open>Fd_Table\<close>, the names of \<open>Namespaces\<close> and the command loop of \<open>Reservation\<close> put together, from
  the arguments to the exit code, and several runs of it one after the other.

  A file with commands is a script. The abstract state is the map from the table numbers
  to the names of the guests, and the lemmas show that the program executes a script as its
  abstract interpreter does. The theorems are about whole runs.
\<close>

subsection \<open>The program\<close>

text \<open>What a descriptor refers to; a terminal is a file that holds what will be typed there.\<close>

datatype channel = File string | Shared_memory

text \<open>What a run finds: the system-wide names, the files, and whether \<open>shm_open\<close> and \<open>mmap\<close> succeed.\<close>

record world = namespaces +
  host_files :: "string \<rightharpoonup> byte list"
  shm_works :: bool
  mmap_works :: bool

datatype outcome = Stopped stop | Returned int "out_line list" "channel fd_list" world

definition find_file :: "string \<Rightarrow> world \<Rightarrow> channel option" where
  "find_file f w = (if host_files w f = None then None else Some (File f))"

text \<open>The two calls of \<open>sem_open\<close>.\<close>

definition open_mutexes :: "world \<Rightarrow> world" where
  "open_mutexes w = w\<lparr>sem_vals := (sem_vals w)
     (BUFF_MUTEX_A := sem_open_val (sem_vals w BUFF_MUTEX_A), BUFF_MUTEX_B := sem_open_val (sem_vals w BUFF_MUTEX_B))\<rparr>"

text \<open>\<open>shm_open\<close> with \<open>O_CREAT\<close> and the \<open>ftruncate\<close> behind it, which keeps what an existing object holds.\<close>

definition open_tables :: "world \<Rightarrow> world" where
  "open_tables w = w\<lparr>shm_objs := (shm_objs w)
     (BUFF_SHM \<mapsto> (case shm_objs w BUFF_SHM of None \<Rightarrow> zero_tables | Some ts \<Rightarrow> ts))\<rparr>"

text \<open>
  What the stream \<open>stdin\<close> delivers. When descriptor 0 is free at \<open>shm_open\<close>, that call gets it, and the
  stream reads the shared memory, at its first use after \<open>initTables\<close>.
\<close>

definition standard_input :: "channel fd_list \<Rightarrow> world \<Rightarrow> byte list" where
  "standard_input t w =
     (case fd_get 0 t of
        None \<Rightarrow> []
      | Some (File f) \<Rightarrow> (case host_files w f of None \<Rightarrow> [] | Some bs \<Rightarrow> bs)
      | Some Shared_memory \<Rightarrow>
          (case shm_objs w BUFF_SHM of None \<Rightarrow> []
           | Some ts \<Rightarrow> memory_of (map (\<lambda>(i, t). init_table i t) (enumerate 0 ts))))"

text \<open>What the other processes find after the run.\<close>

definition detach :: "resv \<Rightarrow> world \<Rightarrow> world" where
  "detach s w = w\<lparr>shm_objs := (shm_objs w)(BUFF_SHM \<mapsto> tables s),
     sem_vals := (sem_vals w)(BUFF_MUTEX_A := mutexA s, BUFF_MUTEX_B := mutexB s)\<rparr>"

text \<open>\<open>main\<close>; \<open>t\<close> is the descriptor table it is started with, \<open>junk\<close> the uninitialised memory.\<close>

definition reservation_program :: "string list \<Rightarrow> byte stream \<Rightarrow> channel fd_list \<Rightarrow> world \<Rightarrow> outcome option" where
  "reservation_program argv junk t w =
     (let t1 = (if length argv > 1 then snd (rewire_stdin (find_file (argv ! 1) w) t) else t);
          w1 = open_mutexes w
      in if \<not> shm_works w then Some (Returned 1 [] t1 w1)
      else let (shm_fd, t2) = c_open (Some Shared_memory) t1; w2 = open_tables w1
      in if \<not> mmap_works w then Some (Returned 1 [] t2 (snd (shm_unlink BUFF_SHM w2)))
      else case reservation_main (attach junk (standard_input t2 w2) w2) of
             None \<Rightarrow> None
           | Some (Inl e) \<Rightarrow> Some (Stopped e)
           | Some (Inr s) \<Rightarrow>
               (let t3 = (if length argv > 1 then reset_stdin t2 else t2)
                in Some (Returned 0 (printed s) (snd (c_close shm_fd t3)) (detach s w2))))"

subsection \<open>Scripts\<close>

text \<open>The four commands; a request may leave the table open.\<close>

datatype order = Seat "byte list" byte "byte list" | Any_seat "byte list" byte | Show | Clear

fun order_line :: "order \<Rightarrow> byte list" where
  "order_line (Seat nm c ds) = [114, 32] @ nm @ [32, c, 32] @ ds @ [10]"
| "order_line (Any_seat nm c) = [114, 32] @ nm @ [32, c, 10]"
| "order_line Show = [115, 10]"
| "order_line Clear = [105, 10]"

definition exit_line :: "byte list" where
  "exit_line = [101, 10]"

definition script :: "order list \<Rightarrow> byte list" where
  "script os = concat (map order_line os) @ exit_line"

text \<open>The lines have to fit into the buffer of a hundred characters.\<close>

fun order_ok :: "order \<Rightarrow> bool" where
  "order_ok (Seat nm c ds) \<longleftrightarrow> plain_name nm \<and> 10 \<notin> set nm \<and> (c = 65 \<or> c = 66) \<and> digits ds \<and> length nm + length ds \<le> 93"
| "order_ok (Any_seat nm c) \<longleftrightarrow> plain_name nm \<and> 10 \<notin> set nm \<and> (c = 65 \<or> c = 66) \<and> length nm \<le> 94"
| "order_ok Show \<longleftrightarrow> True"
| "order_ok Clear \<longleftrightarrow> True"

subsection \<open>The abstract interpreter\<close>

type_synonym seats = "int \<rightharpoonup> byte list"

definition section_list :: "byte \<Rightarrow> int list" where
  "section_list c = (if c = 65 then [100..109] else if c = 66 then [200..209] else [])"

fun abook :: "order \<Rightarrow> seats \<Rightarrow> out_line list \<times> seats" where
  "abook (Seat nm c ds) m =
     (let no = digits_value ds in
      if no \<notin> set (section_list c) then ([InvalidNumber], m)
      else if m no \<noteq> None then ([CannotReserve], m)
      else ([], m(no \<mapsto> take 10 nm)))"
| "abook (Any_seat nm c) m =
     (case filter (\<lambda>n. m n = None) (section_list c) of
        [] \<Rightarrow> ([NoEmptyTable], m)
      | n # _ \<Rightarrow> ([], m(n \<mapsto> take 10 nm)))"
| "abook Show m =
     (map (\<lambda>i. TableLine (table_number i) (case m (table_number i) of None \<Rightarrow> empty_name | Some x \<Rightarrow> x)) [0..<20], m)"
| "abook Clear m = ([], Map.empty)"

fun abook_all :: "order list \<Rightarrow> seats \<Rightarrow> out_line list \<times> seats" where
  "abook_all [] m = ([], m)"
| "abook_all (c # os) m = (let (out, m1) = abook c m; (outs, m2) = abook_all os m1 in (out @ outs, m2))"

text \<open>The names in the shared memory, up to their NUL.\<close>

definition seats_of :: "resv \<Rightarrow> seats" where
  "seats_of s n = map_option (takeWhile (\<lambda>b. b \<noteq> 0)) (guests s n)"

subsection \<open>One line\<close>

text \<open>The state between two commands.\<close>

definition at_rest :: "resv \<Rightarrow> bool" where
  "at_rest s \<longleftrightarrow> tables_ok s \<and> mutexes_free s"

definition executes :: "order \<Rightarrow> resv \<Rightarrow> resv \<Rightarrow> bool" where
  "executes c s s' \<longleftrightarrow> at_rest s' \<and> input s' = input s \<and>
     (\<exists>out. abook c (seats_of s) = (out, seats_of s') \<and> printed s' = printed s @ out)"

lemma set_section_list [simp]: "set (section_list c) = section_tables c"
  unfolding section_list_def section_tables_def by (simp only: set_upto if_distrib [of set] list.set(1) split: if_split)

lemma seats_None [simp]: "seats_of s n = None \<longleftrightarrow> guests s n = None"
  by (simp add: seats_of_def)

lemma seats_emit [simp]: "seats_of (emit os s) = seats_of s" "at_rest (emit os s) = at_rest s"
  by (simp_all add: seats_of_def fun_eq_iff at_rest_def mutexes_free_def)

lemma emit_fields [simp]: "printed (emit os s) = printed s @ os" "input (emit os s) = input s"
  by (simp_all add: emit_def)

lemma booked_executes:
  assumes "booked n x s s'" and "at_rest s" and "takeWhile (\<lambda>b. b \<noteq> 0) x = y"
  shows "at_rest s' \<and> input s' = input s \<and> printed s' = printed s \<and> seats_of s' = (seats_of s)(n \<mapsto> y)"
  using assms by (auto simp: booked_def seats_of_def at_rest_def mutexes_free_def)

lemma first_free:
  assumes "filter P xs = n # r" and "sorted xs"
  shows "Min {x \<in> set xs. P x} = n" and "{x \<in> set xs. P x} \<noteq> {}"
proof -
  have s: "{x \<in> set xs. P x} = set (n # r)" using arg_cong [OF assms(1), of set] by simp
  show "{x \<in> set xs. P x} \<noteq> {}" unfolding s by simp
  have "sorted (n # r)" using assms(2) unfolding assms(1) [symmetric] by (rule sorted_wrt_filter)
  then show "Min {x \<in> set xs. P x} = n" unfolding s by (intro Min_eqI) auto
qed

lemma sorted_section_list: "sorted (section_list c)"
  unfolding section_list_def by simp


lemma seat_executes:
  assumes "specific_outcome c (digits_value ds) x s s'" and "at_rest s" and "takeWhile (\<lambda>b. b \<noteq> 0) x = take 10 nm"
  shows "executes (Seat nm c ds) s s'"
  using assms(1) booked_executes [OF _ assms(2,3), of "digits_value ds" s'] assms(2)
  by (auto simp: specific_outcome_def executes_def split: if_splits)

lemma any_seat_executes:
  assumes "some_outcome c x s s'" and "at_rest s" and "takeWhile (\<lambda>b. b \<noteq> 0) x = take 10 nm"
  shows "executes (Any_seat nm c) s s'"
proof -
  let ?free = "{n \<in> section_tables c. guests s n = None}"
  show ?thesis
  proof (cases "filter (\<lambda>n. seats_of s n = None) (section_list c)")
    case Nil
    then have "?free = {}" by (auto simp: filter_empty_conv)
    then have "s' = emit [NoEmptyTable] s" using assms(1) by (simp only: some_outcome_def Let_def if_True)
    then show ?thesis using Nil assms(2) by (simp add: executes_def)
  next
    case (Cons n r)
    note m = first_free [OF Cons sorted_section_list]
    have "booked n x s s'" using assms(1) m by (simp add: some_outcome_def Let_def del: Collect_empty_eq)
    then show ?thesis using booked_executes [OF _ assms(2,3), of n s'] Cons by (simp add: executes_def)
  qed
qed

lemma show_executes: "at_rest s \<Longrightarrow> \<exists>s'. printTableInfo s = Inr s' \<and> executes Show s s'"
proof -
  assume r: "at_rest s"
  then have "printTableInfo s = Inr (emit (fst (abook Show (seats_of s))) s)"
    by (simp add: printTableInfo_run table_lines at_rest_def BUFF_SIZE_def seats_of_def comp_def cong: option.case_cong)
  then show ?thesis using r by (auto simp: executes_def)
qed

lemma clear_executes: "at_rest s \<Longrightarrow> \<exists>s'. initTables s = Inr s' \<and> executes Clear s s'"
  using initTables_ok [of s] tables_okD [of s] by (fastforce simp: at_rest_def executes_def seats_of_def fun_eq_iff)

lemma init_command:
  "processCmd (105 # 10 # 0 # junk) s = rbind (initTables s) (\<lambda>s1. Inr (1, 105 # 10 # 0 # junk, s1))"
proof -
  have w: "[105, 10] \<noteq> []" "32 \<notin> set [105, 10 :: byte]" "0 \<notin> set [105, 10 :: byte]" by code_simp+
  show ?thesis using strtok_last [OF w, of 0 "[]" 2 junk] by (simp add: processCmd_def)
qed

lemma exit_command: "processCmd (exit_line @ 0 # junk) s = Inr (0, exit_line @ 0 # junk, s)"
proof -
  have w: "[101, 10] \<noteq> []" "32 \<notin> set [101, 10 :: byte]" "0 \<notin> set [101, 10 :: byte]" by code_simp+
  show ?thesis using strtok_last [OF w, of 0 "[]" 2 junk] by (simp add: processCmd_def exit_line_def)
qed

lemma processCmd_executes:
  assumes "order_ok c" and "at_rest s"
  shows "\<exists>cmd' s'. processCmd (order_line c @ 0 # junk) s = Inr (1, cmd', s') \<and> length cmd' = length (order_line c @ 0 # junk) \<and> executes c s s'"
proof (cases c)
  case (Seat nm d ds)
  have a: "plain_name nm" "d \<noteq> 32" "d \<noteq> 0" "digits ds" "ds \<noteq> []" "d = 65 \<or> d = 66"
    using assms(1) Seat by (auto simp: digits_def)
  let ?p = "nm @ 0 # d # 0 # ds @ 10 # 0 # junk"
  note w = name_bytes_word [OF a(1), of "d # 0 # ds @ 10 # 0 # junk" s]
  obtain s' where "reserveSpecificTable (Some ?p) (Some (d # 0 # ds @ 10 # 0 # junk)) (digits_value ds) s = Inr s'"
      "specific_outcome d (digits_value ds) (name_bytes ?p s) s s'"
    using reserveSpecificTable_ok [OF _ _ a(6) w(2)] assms(2) unfolding at_rest_def by blast
  then show ?thesis
    using processCmd_request(1) [OF a(1-4), of junk s] seat_executes [OF _ assms(2) w(1)] a(5) Seat by (auto simp: request_def)
next
  case (Any_seat nm d)
  have a: "plain_name nm" "d \<noteq> 32" "d \<noteq> 0" "d = 65 \<or> d = 66" using assms(1) Any_seat by auto
  let ?p = "nm @ 0 # d # 10 # 0 # junk"
  note w = name_bytes_word [OF a(1), of "d # 10 # 0 # junk" s]
  obtain s' where "reserveSomeTable (Some ?p) (Some (d # 10 # 0 # junk)) s = Inr s'" "some_outcome d (name_bytes ?p s) s s'"
    using reserveSomeTable_ok [OF _ _ a(4) w(2)] assms(2) unfolding at_rest_def by blast
  then show ?thesis
    using processCmd_request(2) [OF a(1-3), of junk s] any_seat_executes [OF _ assms(2) w(1)] Any_seat by (auto simp: request_def)
next
  case Show
  then show ?thesis using show_executes [OF assms(2)] show_command [of junk s] by auto
next
  case Clear
  then show ?thesis using clear_executes [OF assms(2)] init_command [of junk s] by auto
qed

subsection \<open>A script\<close>

text \<open>What \<open>fgets\<close> makes of a line that fits.\<close>

lemma fgets_line:
  assumes "10 \<notin> set x" and "length x < 99" and "length cmd = 100"
  shows "\<exists>junk. c_fgets 100 cmd (x @ 10 # rest) = (x @ [10] @ 0 # junk, rest) \<and> length (x @ [10] @ 0 # junk) = 100"
proof -
  have "takeWhile (\<lambda>b. b \<noteq> 10) (x @ 10 # rest) = x" using assms(1) by (subst takeWhile_append2) auto
  then have "line_length (x @ 10 # rest) = Suc (length x)" by (simp add: line_length_def)
  then show ?thesis using assms(2,3) by (simp add: c_fgets_def overwrite_def)
qed

lemma digits_no_newline: "digits ds \<Longrightarrow> 10 \<notin> set ds"
  by (auto simp: digits_def list_all_iff is_digit_def word_le_nat_alt)

lemma order_line_shape: "order_ok c \<Longrightarrow> \<exists>x. order_line c = x @ [10] \<and> 10 \<notin> set x \<and> length x < 99"
  by (cases c) (auto dest: digits_no_newline)

lemma command_loop_script:
  "list_all order_ok os \<Longrightarrow> at_rest s \<Longrightarrow> length cmd = 100 \<Longrightarrow> input s = script os @ rest \<Longrightarrow>
   abook_all os (seats_of s) = (out, m) \<Longrightarrow>
   \<exists>s'. command_loop cmd s = Some (Inr s') \<and> at_rest s' \<and> seats_of s' = m \<and> printed s' = printed s @ out"
proof (induction os arbitrary: cmd s out)
  case Nil
  obtain junk where "c_fgets 100 cmd (input s) = (exit_line @ 0 # junk, rest)"
    using fgets_line [of "[101]" cmd rest] Nil by (auto simp: script_def exit_line_def)
  then have "command_loop cmd s = Some (Inr (s\<lparr>input := rest\<rparr>))"
    by (subst command_loop.simps) (simp add: exit_command)
  then show ?case
    using Nil by (auto simp: at_rest_def mutexes_free_def tables_ok_def seats_of_def guests_def fun_eq_iff)
next
  case (Cons c os)
  obtain x where x: "order_line c = x @ [10]" "10 \<notin> set x" "length x < 99" using order_line_shape Cons.prems(1) by auto
  have inp: "input s = x @ 10 # script os @ rest" using Cons.prems(4) x(1) by (simp add: script_def)
  obtain junk where get: "c_fgets 100 cmd (input s) = (order_line c @ 0 # junk, script os @ rest)" "length (order_line c @ 0 # junk) = 100"
    using fgets_line [OF x(2,3) Cons.prems(3), of "script os @ rest"] unfolding inp x(1) by auto
  let ?s = "s\<lparr>input := script os @ rest\<rparr>"
  have s: "at_rest ?s" "seats_of ?s = seats_of s"
    using Cons.prems(2) by (auto simp: at_rest_def mutexes_free_def tables_ok_def seats_of_def guests_def fun_eq_iff)
  obtain cmd1 s1 where step: "processCmd (order_line c @ 0 # junk) ?s = Inr (1, cmd1, s1)" "length cmd1 = 100" "executes c ?s s1"
    using processCmd_executes [OF _ s(1), of c junk] Cons.prems(1) get(2) by auto
  then obtain out1 where e: "at_rest s1" "input s1 = script os @ rest" "abook c (seats_of s) = (out1, seats_of s1)"
      "printed s1 = printed s @ out1"
    using s(2) by (auto simp: executes_def)
  obtain out2 where out2: "abook_all os (seats_of s1) = (out2, m)" "out = out1 @ out2"
    using Cons.prems(5) e(3) by (auto split: prod.splits)
  have "command_loop cmd s = command_loop cmd1 s1" by (subst command_loop.simps) (simp add: get(1) step(1))
  then show ?case using Cons.IH [OF _ e(1) step(2) e(2) out2(1)] Cons.prems(1) e(4) out2(2) by auto
qed


subsection \<open>A run\<close>

text \<open>
  What the names have to look like: the semaphores are new or at 1, and shared memory
  that is there already has the size and the padding of twenty tables.
\<close>

definition names_ok :: "'a namespaces_scheme \<Rightarrow> bool" where
  "names_ok w \<longleftrightarrow>
     (sem_vals w BUFF_MUTEX_A = None \<or> sem_vals w BUFF_MUTEX_A = Some 1) \<and>
     (sem_vals w BUFF_MUTEX_B = None \<or> sem_vals w BUFF_MUTEX_B = Some 1) \<and>
     (case shm_objs w BUFF_SHM of None \<Rightarrow> True | Some ts \<Rightarrow> length ts = 20 \<and> (\<forall>i<20. tpad (ts ! i) = [0, 0]))"

definition seats_in :: "'a namespaces_scheme \<Rightarrow> seats" where
  "seats_in w = seats_of (attach (sconst 0) [] w)"

lemma names_distinct_sym [simp]: "BUFF_MUTEX_B \<noteq> BUFF_MUTEX_A" "BUFF_MUTEX_A \<noteq> BUFF_SHM" "BUFF_MUTEX_B \<noteq> BUFF_SHM"
  using names_distinct by metis+

lemma open_effect:
  assumes "names_ok w"
  shows "names_ok (open_tables (open_mutexes w))" and "host_files (open_tables (open_mutexes w)) = host_files w"
    and "\<exists>ts. shm_objs (open_tables (open_mutexes w)) BUFF_SHM = Some ts \<and> length ts = 20"
  using assms
  by (auto simp: names_ok_def open_tables_def open_mutexes_def sem_open_val_def zero_tables_def BUFF_SIZE_def split: option.splits)

lemma main_runs_script:
  assumes "names_ok w" and "list_all order_ok os" and "abook_all os Map.empty = (out, m)"
  shows "\<exists>s'. reservation_main (attach junk (script os @ rest) w) = Some (Inr s') \<and> at_rest s' \<and> seats_of s' = m \<and> printed s' = out"
proof -
  let ?a = "attach junk (script os @ rest) w"
  have a: "length (tables ?a) = 20" "\<forall>i<20. tpad (tables ?a ! i) = [0, 0]"
    "mutexA ?a = None \<or> mutexA ?a = Some 1" "mutexB ?a = None \<or> mutexB ?a = Some 1"
    using assms(1) by (auto simp: names_ok_def attach_def zero_tables_def BUFF_SIZE_def split: option.splits)
  obtain cmd s0 where s0: "reservation_main ?a = command_loop cmd s0" "length cmd = 100" "at_rest s0"
      "guests s0 = Map.empty" "input s0 = script os @ rest" "printed s0 = []"
    using main_starts_empty [OF a] by (auto simp: at_rest_def attach_def)
  have "seats_of s0 = Map.empty" using s0(4) by (simp add: seats_of_def fun_eq_iff)
  then show ?thesis using command_loop_script [OF assms(2) s0(3,2,5)] assms(3) s0(1,6) by auto
qed

lemma detach_effect:
  assumes "at_rest s"
  shows "names_ok (detach s w)" and "seats_in (detach s w) = seats_of s" and "host_files (detach s w) = host_files w"
    and "shm_works (detach s w) = shm_works w" and "mmap_works (detach s w) = mmap_works w"
  using assms tables_okD [of s]
  by (simp_all add: detach_def names_ok_def at_rest_def mutexes_free_def seats_in_def seats_of_def guests_def attach_def fun_eq_iff)

lemma rewired:
  assumes "fd_get 0 t \<noteq> None"
  shows "fd_get 0 (snd (c_open (Some y) (snd (rewire_stdin (Some x) t)))) = Some x"
proof -
  have low: "\<forall>m\<le>0. fd_get (int m) t \<noteq> None" using assms by simp
  obtain t' where t': "redirect_fd 0 (Some x) t = (int (fd_lowest t), 0, t')" "fd_get 0 t' = Some x"
    using redirect_fd_ok [OF low, of x] by auto
  then have r: "snd (rewire_stdin (Some x) t) = t'" by (simp add: rewire_stdin_def)
  have "fd_lowest t' \<noteq> 0" using fd_lowest_free [of t'] t'(2) by (cases "fd_lowest t' = 0") simp_all
  then show ?thesis unfolding r by (simp add: c_open_ok fd_get_put t'(2))
qed

text \<open>A run over a script ends with the exit code 0.\<close>

lemma run_of_script:
  assumes "names_ok w" and "shm_works w" and "mmap_works w" and "fd_get 0 t \<noteq> None"
    and "host_files w f = Some (script os @ rest)" and "list_all order_ok os" and "abook_all os Map.empty = (out, m)"
  shows "\<exists>t' w'. reservation_program [prog, f] junk t w = Some (Returned 0 out t' w') \<and> names_ok w' \<and> seats_in w' = m \<and>
    host_files w' = host_files w \<and> shm_works w' \<and> mmap_works w'"
proof -
  let ?w = "open_tables (open_mutexes w)"
  let ?t2 = "snd (c_open (Some Shared_memory) (snd (rewire_stdin (Some (File f)) t)))"
  have "standard_input ?t2 ?w = script os @ rest"
    using rewired [OF assms(4)] assms(5) open_effect(2) [OF assms(1)] by (simp add: standard_input_def)
  then obtain s' where s': "reservation_main (attach junk (standard_input ?t2 ?w) ?w) = Some (Inr s')" "at_rest s'" "seats_of s' = m"
      "printed s' = out"
    using main_runs_script [OF open_effect(1) [OF assms(1)] assms(6,7)] by auto
  have c: "shm_works ?w" "mmap_works ?w" using assms(2,3) by (simp_all add: open_tables_def open_mutexes_def)
  have "reservation_program [prog, f] junk t w =
    Some (Returned 0 out (snd (c_close (fst (c_open (Some Shared_memory) (snd (rewire_stdin (Some (File f)) t)))) (reset_stdin ?t2)))
      (detach s' ?w))"
    using s'(1,4) assms(2,3,5) by (simp add: reservation_program_def Let_def split_beta find_file_def)
  then show ?thesis using detach_effect [OF s'(2), of ?w] s'(3) open_effect(2) [OF assms(1)] c by auto
qed


subsection \<open>A file that is not there\<close>

text \<open>
  Descriptor 0 is closed and not given away again, so the shared memory gets it: its
  bytes are the commands.
\<close>

definition fresh_bytes :: "byte list" where
  "fresh_bytes = memory_of (map (\<lambda>i. \<lparr>tnum = table_number i, tname = empty_name, tpad = [0, 0]\<rparr>) [0..<20])"

lemma fresh_facts:
  "list_all (\<lambda>b. b \<noteq> 10) fresh_bytes" "length fresh_bytes = 320" "hd fresh_bytes = 100" "hd (tl fresh_bytes) = 0"
  "hd (drop 99 fresh_bytes) = 0"
  by code_simp+

lemma fresh_tables:
  assumes "length ts = 20" and "\<forall>i<20. tpad (ts ! i) = [0, 0]"
  shows "memory_of (map (\<lambda>(i, t). init_table i t) (enumerate 0 ts)) = fresh_bytes"
proof -
  have "map (\<lambda>(i, t). init_table i t) (enumerate 0 ts) = map (\<lambda>i. \<lparr>tnum = table_number i, tname = empty_name, tpad = [0, 0]\<rparr>) [0..<20]"
    using assms by (intro nth_equalityI) (auto simp: nth_enumerate_eq init_table_def intro!: table.equality)
  then show ?thesis unfolding fresh_bytes_def by simp
qed

lemma no_newline: "list_all (\<lambda>b. b \<noteq> 10) xs \<Longrightarrow> line_length xs = length xs"
  by (simp add: line_length_def list_all_iff takeWhile_eq_all_conv [THEN iffD2])

lemma empty_line: "processCmd (0 # junk) s = Inl NullDeref"
  using strtok_end [of 32 0 "[]" junk] by (simp add: processCmd_def)

lemma unknown_letter: "processCmd (100 # 0 # junk) s = Inr (1, 100 # 0 # junk, s)"
proof -
  have w: "[100] \<noteq> []" "32 \<notin> set [100 :: byte]" "0 \<notin> set [100 :: byte]" by code_simp+
  show ?thesis using strtok_last [OF w, of 0 "[]" 1 junk] by (simp add: processCmd_def)
qed

lemma command_loop_fresh:
  assumes "input s = fresh_bytes" and "length cmd = 100"
  shows "command_loop cmd s = Some (Inl NullDeref)"
proof -
  have ne: "fresh_bytes \<noteq> []" "tl fresh_bytes \<noteq> []" "drop 99 fresh_bytes \<noteq> []"
    using fresh_facts(2) by (simp_all flip: length_greater_0_conv)
  obtain r where r: "fresh_bytes = 100 # 0 # r"
    using hd_Cons_tl [OF ne(1)] hd_Cons_tl [OF ne(2)] fresh_facts(3,4) by metis
  obtain q where q: "drop 99 fresh_bytes = 0 # q"
    using hd_Cons_tl [OF ne(3)] fresh_facts(5) by metis
  let ?c1 = "take 99 fresh_bytes @ [0]"
  have first: "c_fgets 100 cmd fresh_bytes = (?c1, 0 # q)"
    using assms(2) fresh_facts(2) no_newline [OF fresh_facts(1)] r q by (auto simp: c_fgets_def)
  have c1: "?c1 = 100 # 0 # take 97 r @ [0]" unfolding r by (simp add: eval_nat_numeral)
  have "line_length (0 # q) \<noteq> 0" by (simp add: line_length_def)
  then obtain k where "min (100 - 1) (line_length (0 # q)) = Suc k"
    by (cases "min (100 - 1) (line_length (0 # q))") auto
  then have second: "\<exists>z. c_fgets 100 c (0 # q) = (0 # z, drop (Suc k) (0 # q))" for c
    by (auto simp: c_fgets_def overwrite_def Let_def)
  have "command_loop cmd s = command_loop ?c1 (s\<lparr>input := 0 # q\<rparr>)"
    by (subst command_loop.simps) (simp only: assms(1) first c1, simp add: unknown_letter)
  also obtain z where z: "c_fgets 100 ?c1 (0 # q) = (0 # z, drop (Suc k) (0 # q))" using second by blast
  have "command_loop ?c1 (s\<lparr>input := 0 # q\<rparr>) = Some (Inl NullDeref)"
    by (subst command_loop.simps) (simp add: z empty_line del: drop_Suc_Cons)
  finally show ?thesis .
qed

subsection \<open>Properties\<close>

text \<open>Several runs one after the other from the same terminal, each over a file of its own.\<close>

fun program_runs :: "channel fd_list \<Rightarrow> (byte stream \<times> string) list \<Rightarrow> world \<Rightarrow> (out_line list list \<times> world) option" where
  "program_runs t [] w = Some ([], w)"
| "program_runs t ((junk, f) # rs) w =
     (case reservation_program [''reservation'', f] junk t w of
        Some (Returned r out t' w1) \<Rightarrow>
          if r = 0 then (case program_runs t rs w1 of None \<Rightarrow> None | Some (outs, w2) \<Rightarrow> Some (out # outs, w2)) else None
      | _ \<Rightarrow> None)"

text \<open>C10: Every run of the program over a file with commands ends with exit code 0 and prints what the
  abstract interpreter prints for these commands starting without any reservation, whatever the runs
  before it reserved. What is in the shared memory after the last run are the reservations of that run
  alone, and the semaphores are free, so that the next run can begin.\<close>

theorem runs_forget:
  assumes "names_ok w" and "shm_works w" and "mmap_works w" and "fd_get 0 t \<noteq> None"
    and "list_all (\<lambda>(junk, f, os). list_all order_ok os \<and> host_files w f = Some (script os)) rs"
  shows "\<exists>w'. program_runs t (map (\<lambda>(junk, f, os). (junk, f)) rs) w =
      Some (map (\<lambda>(junk, f, os). fst (abook_all os Map.empty)) rs, w') \<and> names_ok w' \<and>
    seats_in w' = (if rs = [] then seats_in w else snd (abook_all (snd (snd (last rs))) Map.empty))"
  using assms
proof (induction rs arbitrary: w)
  case (Cons r rs)
  obtain junk f os where r: "r = (junk, f, os)" by (cases r)
  have f: "host_files w f = Some (script os @ [])" "list_all order_ok os" using Cons.prems(5) r by auto
  obtain t1 w1 where run: "reservation_program [''reservation'', f] junk t w = Some (Returned 0 (fst (abook_all os Map.empty)) t1 w1)"
      "names_ok w1" "seats_in w1 = snd (abook_all os Map.empty)" "host_files w1 = host_files w" "shm_works w1" "mmap_works w1"
    using run_of_script [OF Cons.prems(1-4) f surjective_pairing] by blast
  have "list_all (\<lambda>(junk, f, os). list_all order_ok os \<and> host_files w1 f = Some (script os)) rs"
    using Cons.prems(5) run(4) by simp
  from Cons.IH [OF run(2,5,6) Cons.prems(4) this] show ?case using run(1,3) r by auto
qed simp

text \<open>The first run reserves for bob, the second looks and reserves for alice.\<close>

theorem runs_forget_witness:
  "let t = [Some (File ''tty'')]; bob = [Seat (bytes_of ''bob'') 65 (bytes_of ''103'')];
       alice = [Show, Any_seat (bytes_of ''alice'') 66];
       w = \<lparr>shm_objs = Map.empty, sem_vals = Map.empty,
            host_files = [''f1'' \<mapsto> script bob, ''f2'' \<mapsto> script alice], shm_works = True, mmap_works = True\<rparr> in
   \<exists>w'. program_runs t [(sconst 0, ''f1''), (sconst 7, ''f2'')] w =
       Some ([[], map (\<lambda>i. TableLine (table_number i) empty_name) [0..<20]], w') \<and>
     names_ok w' \<and> seats_in w' = [200 \<mapsto> bytes_of ''alice'']"
proof -
  let ?bob = "[Seat (bytes_of ''bob'') 65 (bytes_of ''103'')]" let ?alice = "[Show, Any_seat (bytes_of ''alice'') 66]"
  let ?w = "\<lparr>shm_objs = Map.empty, sem_vals = Map.empty,
    host_files = [''f1'' \<mapsto> script ?bob, ''f2'' \<mapsto> script ?alice], shm_works = True, mmap_works = True\<rparr>"
  let ?rs = "[(sconst 0, ''f1'', ?bob), (sconst 7, ''f2'', ?alice)] :: (byte stream \<times> string \<times> order list) list"
  have ok: "list_all order_ok ?bob" "list_all order_ok ?alice" by code_simp+
  have v: "digits_value (bytes_of ''103'') = 103" "take 10 (bytes_of ''alice'') = bytes_of ''alice''" by code_simp+
  have l: "section_list 66 = [200, 201, 202, 203, 204, 205, 206, 207, 208, 209]" by (simp add: section_list_def upto.simps)
  have out: "abook_all ?bob Map.empty = ([], [103 \<mapsto> take 10 (bytes_of ''bob'')])"
    "abook_all ?alice Map.empty = (map (\<lambda>i. TableLine (table_number i) empty_name) [0..<20], [200 \<mapsto> bytes_of ''alice''])"
    by (simp_all add: v l section_tables_def)
  have w: "names_ok ?w" "shm_works ?w" "mmap_works ?w" "fd_get 0 [Some (File ''tty'')] \<noteq> None"
    by (simp_all add: names_ok_def fd_get_def)
  have "list_all (\<lambda>(junk, f, os). list_all order_ok os \<and> host_files ?w f = Some (script os)) ?rs"
    using ok by simp
  from runs_forget [OF w this] show ?thesis
    unfolding Let_def by (simp only: list.map prod.case out fst_conv snd_conv last.simps list.distinct if_False simp_thms if_True)
qed

text \<open>C26: Started with the name of a file that cannot be opened, the program dereferences a \<open>NULL\<close>
  pointer: \<open>main\<close> does not look at the result of \<open>open\<close> but closes the standard input, \<open>shm_open\<close>
  gets the free number 0, and the bytes of the tables are read as commands, the second
  of which is empty.\<close>

theorem missing_script_crash:
  assumes "names_ok w" and "shm_works w" and "mmap_works w" and "fd_get 0 t \<noteq> None" and "host_files w f = None"
  shows "reservation_program [prog, f] junk t w = Some (Stopped NullDeref)"
proof -
  let ?w = "open_tables (open_mutexes w)" let ?t2 = "snd (c_open (Some Shared_memory) (snd (rewire_stdin None t)))"
  have t1: "snd (rewire_stdin None t) = fd_put 0 None t"
    using redirect_fd_fails [of 0 t] assms(4) by (simp add: rewire_stdin_def)
  have "fd_lowest (fd_put 0 None t) = 0" by (intro fd_lowest_eqI) (simp_all add: fd_get_put)
  then have "fd_get 0 ?t2 = Some Shared_memory" unfolding t1 by (simp add: c_open_ok fd_get_put)
  moreover obtain ts where ts: "shm_objs ?w BUFF_SHM = Some ts" "length ts = 20" using open_effect(3) [OF assms(1)] by blast
  moreover have "\<forall>i<20. tpad (ts ! i) = [0, 0]" using open_effect(1) [OF assms(1)] ts by (simp add: names_ok_def)
  ultimately have inp: "standard_input ?t2 ?w = fresh_bytes" using fresh_tables [of ts] by (simp add: standard_input_def)
  let ?a = "attach junk fresh_bytes ?w"
  have a: "length (tables ?a) = 20" "\<forall>i<20. tpad (tables ?a ! i) = [0, 0]"
    "mutexA ?a = None \<or> mutexA ?a = Some 1" "mutexB ?a = None \<or> mutexB ?a = Some 1"
    using open_effect(1) [OF assms(1)] ts by (simp_all add: names_ok_def attach_def)
  have "input ?a = fresh_bytes" by (simp add: attach_def)
  then have "reservation_main ?a = Some (Inl NullDeref)"
    using main_starts_empty [OF a] command_loop_fresh by auto
  then show ?thesis using assms(2,3,5) inp by (simp add: reservation_program_def Let_def split_beta find_file_def)
qed

theorem missing_script_crash_witness:
  "reservation_program [''reservation'', ''nofile''] (sconst 0) [Some (File ''tty''), Some (File ''tty'')]
     \<lparr>shm_objs = Map.empty, sem_vals = Map.empty, host_files = Map.empty, shm_works = True, mmap_works = True\<rparr> =
   Some (Stopped NullDeref)"
  by (rule missing_script_crash) (simp_all add: names_ok_def fd_get_def)

text \<open>C35: When \<open>shm_open\<close> fails the program exits with 1 and leaves two new semaphores behind. When \<open>mmap\<close>
  fails it also exits with 1, and it removes the shared memory by name: the tables of processes that
  are running are lost for every process started later.\<close>

theorem start_failures:
  assumes "names_ok w" and "\<not> (shm_works w \<and> mmap_works w)"
  shows "\<exists>t' w'. reservation_program argv junk t w = Some (Returned 1 [] t' w') \<and>
    sem_vals w' BUFF_MUTEX_A = Some 1 \<and> sem_vals w' BUFF_MUTEX_B = Some 1 \<and>
    shm_objs w' BUFF_SHM = (if shm_works w then None else shm_objs w BUFF_SHM)"
  using assms
  by (auto simp: reservation_program_def Let_def split_beta names_ok_def open_mutexes_def open_tables_def sem_open_val_def
      split: option.splits)

theorem start_failures_witness:
  "let w = \<lparr>shm_objs = [BUFF_SHM \<mapsto> tables demo_tables], sem_vals = [BUFF_MUTEX_A \<mapsto> 1], host_files = Map.empty,
            shm_works = True, mmap_works = False\<rparr> in
   \<exists>t' w'. reservation_program [''reservation''] (sconst 0) [Some (File ''tty'')] w = Some (Returned 1 [] t' w') \<and>
     sem_vals w' BUFF_MUTEX_A = Some 1 \<and> sem_vals w' BUFF_MUTEX_B = Some 1 \<and> shm_objs w' BUFF_SHM = None"
proof -
  let ?w = "\<lparr>shm_objs = [BUFF_SHM \<mapsto> tables demo_tables], sem_vals = [BUFF_MUTEX_A \<mapsto> 1], host_files = Map.empty,
    shm_works = True, mmap_works = False\<rparr>"
  have "names_ok ?w" by (simp add: names_ok_def demo_tables_def)
  from start_failures [OF this] show ?thesis by (simp add: Let_def)
qed

end
