(* ===== verification/Reservation_Together.thy ===== *)
theory Reservation_Together
  imports Reservation_Serial Reservation_Run
begin

text \<open>
  The reservation programs of several processes together: \<open>Reservation_Serial\<close> puts the commands of all
  processes into one sequence, and the abstract interpreter of \<open>Reservation_Run\<close> says what a sequence of
  commands does. Both combined describe any number of programs that work on the same
  tables at the same time, each over its own commands.
\<close>

subsection \<open>Commands and places\<close>

text \<open>The call that \<open>processCmd\<close> makes for a command; behind the name are the bytes of the line buffer.\<close>

fun stands_for :: "order \<Rightarrow> pc \<Rightarrow> bool" where
  "stands_for (Seat nm d ds) (WaitSec sec (Specific n) x) \<longleftrightarrow>
     d = letter sec \<and> n = digits_value ds \<and> length x = 10 \<and> takeWhile (\<lambda>b. b \<noteq> 0) x = take 10 nm"
| "stands_for (Any_seat nm d) (WaitSec sec AnyTable x) \<longleftrightarrow>
     d = letter sec \<and> length x = 10 \<and> takeWhile (\<lambda>b. b \<noteq> 0) x = take 10 nm"
| "stands_for order.Show (WaitBothA both_kind.Show) \<longleftrightarrow> True"
| "stands_for Clear (WaitBothA Init) \<longleftrightarrow> True"
| "stands_for c a \<longleftrightarrow> False"

lemma plain_not_empty: "plain_name nm \<Longrightarrow> takeWhile (\<lambda>b. b \<noteq> 0) x = take 10 nm \<Longrightarrow> x \<noteq> empty_name"
proof
  assume p: "plain_name nm" "takeWhile (\<lambda>b. b \<noteq> 0) x = take 10 nm" and x: "x = empty_name"
  have "takeWhile (\<lambda>b. b \<noteq> 0) empty_name = empty_name" "32 \<in> set empty_name" by code_simp+
  then have "32 \<in> set (take 10 nm)" using p(2) unfolding x by metis
  then show False using p(1) by (auto simp: plain_name_def dest: in_set_takeD)
qed

lemma at_rest_printed [simp]: "at_rest (s\<lparr>printed := os\<rparr>) = at_rest s" "seats_of (s\<lparr>printed := os\<rparr>) = seats_of s"
  by (simp_all add: at_rest_def tables_ok_def mutexes_free_def seats_of_def guests_def fun_eq_iff)

lemma code_of_executes:
  assumes "order_ok c" and "stands_for c a" and "at_rest s"
  shows "\<exists>s'. code_of a s = Inr s' \<and> executes c s s'"
proof (cases c)
  case (Seat nm d ds)
  then obtain sec x where a: "a = WaitSec sec (Specific (digits_value ds)) x" "d = letter sec" "length x = 10"
      "takeWhile (\<lambda>b. b \<noteq> 0) x = take 10 nm"
    using assms(2) by (cases "(c, a)" rule: stands_for.cases) auto
  have n: "name_bytes x s = x" using a(3) by (simp add: name_bytes_def load_mem_def)
  then have "name_bytes x s \<noteq> empty_name" using plain_not_empty [OF _ a(4)] assms(1) Seat by simp
  moreover have "d = 65 \<or> d = 66" using a(2) by (cases sec) simp_all
  ultimately obtain s' where "reserveSpecificTable (Some x) (Some [d]) (digits_value ds) s = Inr s'"
      "specific_outcome d (digits_value ds) x s s'"
    using reserveSpecificTable_ok [of s d x "[]"] assms(3) n by (auto simp: at_rest_def)
  then show ?thesis using seat_executes [OF _ assms(3) a(4)] a(1,2) Seat by auto
next
  case (Any_seat nm d)
  then obtain sec x where a: "a = WaitSec sec AnyTable x" "d = letter sec" "length x = 10"
      "takeWhile (\<lambda>b. b \<noteq> 0) x = take 10 nm"
    using assms(2) by (cases "(c, a)" rule: stands_for.cases) auto
  have n: "name_bytes x s = x" using a(3) by (simp add: name_bytes_def load_mem_def)
  then have "name_bytes x s \<noteq> empty_name" using plain_not_empty [OF _ a(4)] assms(1) Any_seat by simp
  moreover have "d = 65 \<or> d = 66" using a(2) by (cases sec) simp_all
  ultimately obtain s' where "reserveSomeTable (Some x) (Some [d]) s = Inr s'" "some_outcome d x s s'"
    using reserveSomeTable_ok [of s d x "[]"] assms(3) n by (auto simp: at_rest_def)
  then show ?thesis using any_seat_executes [OF _ assms(3) a(4)] a(1,2) Any_seat by auto
next
  case Show
  then have "a = WaitBothA both_kind.Show" using assms(2) by (cases "(c, a)" rule: stands_for.cases) auto
  then show ?thesis using show_executes [OF assms(3)] Show by simp
next
  case Clear
  then have "a = WaitBothA Init" using assms(2) by (cases "(c, a)" rule: stands_for.cases) auto
  then show ?thesis using clear_executes [OF assms(3)] Clear by simp
qed

subsection \<open>The common book\<close>

text \<open>The commands of several guests, one after the other, and what each of them is told.\<close>

fun shared_book :: "(nat \<times> order) list \<Rightarrow> seats \<Rightarrow> (nat \<times> out_line list) list \<times> seats" where
  "shared_book [] m = ([], m)"
| "shared_book ((p, c) # cs) m = (let (o', m1) = abook c m; (os, m2) = shared_book cs m1 in ((p, o') # os, m2))"

definition same_command :: "nat \<times> order \<Rightarrow> nat \<times> pc \<Rightarrow> bool" where
  "same_command x y \<longleftrightarrow> fst x = fst y \<and> order_ok (snd x) \<and> stands_for (snd x) (snd y)"

lemma at_once_executes:
  assumes "order_ok c" and "stands_for c a" and "at_rest r" and "at_once a r = Inr (o', r')"
  shows "abook c (seats_of r) = (o', seats_of r') \<and> at_rest r'"
  using code_of_executes [OF assms(1,2), of "r\<lparr>printed := []\<rparr>"] assms(3,4) by (auto simp: at_once_def executes_def)

lemma shared_book_one_by_one:
  "list_all2 same_command cs l \<Longrightarrow> one_by_one l r = Inr (os, r') \<Longrightarrow> at_rest r \<Longrightarrow>
   shared_book cs (seats_of r) = (os, seats_of r') \<and> at_rest r'"
proof (induction cs l arbitrary: r os rule: list_all2_induct)
  case (Cons x cs y l)
  obtain p c a where x: "x = (p, c)" "y = (p, a)" "order_ok c" "stands_for c a"
    using Cons.hyps(1) by (cases x; cases y) (auto simp: same_command_def)
  obtain o' r1 os' where o: "at_once a r = Inr (o', r1)" "one_by_one l r1 = Inr (os', r')" "os = (p, o') # os'"
    using Cons.prems(1) x(2) by (auto simp: rbind_Inr_iff)
  note e = at_once_executes [OF x(3,4) Cons.prems(2) o(1)]
  show ?case using Cons.IH [OF o(2)] e o(3) x(1) by simp
qed simp

text \<open>The commands of the processes in the order of the calls that stand for them.\<close>

lemma merge_like:
  "\<forall>p. list_all2 R (f p) (of_process p l) \<Longrightarrow>
   \<exists>cs. (\<forall>p. of_process p cs = f p) \<and> list_all2 (\<lambda>x y. fst x = fst y \<and> R (snd x) (snd y)) cs l"
proof (induction l arbitrary: f)
  case Nil
  then show ?case by (intro exI [of _ "[]"]) (simp add: of_process_def)
next
  case (Cons y l)
  obtain q a where y: "y = (q, a)" by (cases y)
  have "list_all2 R (f q) (a # of_process q l)" using Cons.prems by (auto simp: y of_process_def dest: spec [of _ q])
  then obtain c r where c: "f q = c # r" "R c a" "list_all2 R r (of_process q l)" by (auto simp: list_all2_Cons2)
  have "list_all2 R ((f(q := r)) p) (of_process p l)" for p
    using c(3) Cons.prems by (cases "p = q") (auto simp: y of_process_def dest: spec [of _ p])
  then obtain cs where cs: "\<forall>p. of_process p cs = (f(q := r)) p" "list_all2 (\<lambda>x y. fst x = fst y \<and> R (snd x) (snd y)) cs l"
    using Cons.IH by blast
  then show ?case
    using c by (intro exI [of _ "(q, c) # cs"]) (auto simp: y of_process_def)
qed

subsection \<open>Properties\<close>

text \<open>C6: Several programs on the same tables behave as one book kept by a single clerk: however the actions of
  any number of processes are interleaved, when all have finished their commands, these commands can be
  merged into one sequence, in which each process keeps its own order, such that the book,
  taking them one after the other, tells every process what its program has printed, command by
  command, and holds the reservations that the shared memory holds.\<close>

theorem programs_together:
  assumes "quiet s0 r0" and "runs s0 h out s" and "busy s = {}"
    and "\<forall>p. list_all2 (\<lambda>c a. order_ok c \<and> stands_for c a) (cmds p) (of_process p (begun h))"
  shows "\<exists>cs told m. shared_book cs (seats_of r0) = (told, m) \<and>
    (\<forall>p. of_process p cs = cmds p \<and> of_process p told = of_process p (ended h)) \<and> (\<exists>r. models r s \<and> seats_of r = m)"
proof -
  obtain l os r where l: "one_by_one l r0 = Inr (os, r)" "models r s"
    "\<And>p. of_process p l = of_process p (begun h)" "\<And>p. of_process p os = of_process p (ended h)"
    using complete_history [OF assms(1-3)] by blast
  have "\<forall>p. list_all2 (\<lambda>c a. order_ok c \<and> stands_for c a) (cmds p) (of_process p l)" using assms(4) l(3) by simp
  from merge_like [OF this] obtain cs where
    cs: "\<forall>p. of_process p cs = cmds p" "list_all2 (\<lambda>x y. fst x = fst y \<and> order_ok (snd x) \<and> stands_for (snd x) (snd y)) cs l"
    by blast
  then have "list_all2 same_command cs l" by (simp add: same_command_def [abs_def])
  moreover have "at_rest r0" using assms(1) by (simp add: quiet_def models_def at_rest_def)
  ultimately have "shared_book cs (seats_of r0) = (os, seats_of r)" using shared_book_one_by_one [OF _ l(1)] by blast
  then show ?thesis using cs(1) l(2,4) by blast
qed

text \<open>One program seats a guest in section A, the other asks for table 7 of section B.\<close>

theorem programs_together_witness:
  "\<exists>cs told m. shared_book cs Map.empty = (told, m) \<and>
    of_process 0 cs = [Any_seat demo_name 65] \<and> of_process 1 cs = [Seat demo_name 66 (bytes_of ''7'')] \<and>
    of_process 0 told = [[]] \<and> of_process 1 told = [[InvalidNumber]]"
proof -
  let ?cmds = "(\<lambda>_. [])(0 := [Any_seat demo_name 65], 1 := [Seat demo_name 66 (bytes_of ''7'')]) :: nat \<Rightarrow> order list"
  let ?s = "demo_boot_conc\<lparr>names := (names demo_boot_conc)[0 := demo_name]\<rparr>"
  obtain out where r: "runs demo_boot_conc demo_history out ?s" using demo_runs by blast
  have b: "busy ?s = {}" by (simp add: busy_def demo_boot_conc_def)
  have ok: "order_ok (Any_seat demo_name 65)" "order_ok (Seat demo_name 66 (bytes_of ''7''))" "digits_value (bytes_of ''7'') = 7"
    "takeWhile (\<lambda>b. b \<noteq> 0) demo_name = take 10 demo_name" "length demo_name = 10" by code_simp+
  have "list_all2 (\<lambda>c a. order_ok c \<and> stands_for c a) (?cmds p) (of_process p (begun demo_history))" for p
    using ok by (auto simp: demo_history_def of_process_def)
  then have m: "\<forall>p. list_all2 (\<lambda>c a. order_ok c \<and> stands_for c a) (?cmds p) (of_process p (begun demo_history))" by blast
  from programs_together [OF demo_quiet r b m] obtain cs told m where
    "shared_book cs (seats_of demo_tables) = (told, m)" "of_process 0 cs = ?cmds 0" "of_process 1 cs = ?cmds 1"
    "of_process 0 told = of_process 0 (ended demo_history)" "of_process 1 told = of_process 1 (ended demo_history)" by blast
  moreover have "seats_of demo_tables = Map.empty" using demo_tables_ok by (simp add: seats_of_def fun_eq_iff)
  ultimately show ?thesis
    by (intro exI [of _ cs] exI [of _ told] exI [of _ m]) (simp add: demo_history_def of_process_def)
qed

end
