(* ===== verification/Shell_Parse.thy ===== *)
theory Shell_Parse
  imports C_Library
begin

text \<open>
  The command line of \<^verbatim>\<open>A_simple_shell/main.c\<close>: \<open>getcmd\<close> with the loops that cut the
  line into the argument array. An entry of the array is \<open>None\<close> for \<open>NULL\<close> or the string
  it points to. Characters are signed, so a byte from 128 on compares below 32.

  The lemmas show that the arguments are the visible words of the line, that a line printed from
  words is read back as these words, and when the array of twenty entries overflows.
\<close>

subsection \<open>The loops\<close>

type_synonym arg_array = "byte list option list"

definition is_delim :: "byte \<Rightarrow> bool" where
  "is_delim b \<longleftrightarrow> b = 32 \<or> b = 9 \<or> b = 10"

text \<open>\<open>strsep(&line, " \t\n")\<close>: the token and the rest of the line.\<close>

definition strsep :: "byte list option \<Rightarrow> byte list option \<times> byte list option" where
  "strsep line =
     (case line of None \<Rightarrow> (None, None)
      | Some l \<Rightarrow> (Some (takeWhile (\<lambda>b. \<not> is_delim b) l),
                  case dropWhile (\<lambda>b. \<not> is_delim b) l of [] \<Rightarrow> None | d # r \<Rightarrow> Some r))"

lemma cstr_cut: "j < length (cstr t) \<Longrightarrow> cstr (t[j := 0]) = take j (cstr t)"
proof (induction t arbitrary: j)
  case (Cons b t)
  then show ?case by (cases j) (auto split: if_splits)
qed simp

text \<open>The loop over the characters of a token; \<open>token\<close> is the object with its NUL.\<close>

function clean_loop :: "nat \<Rightarrow> byte list \<Rightarrow> byte list" where
  "clean_loop j token =
     (if j < length (cstr token) then clean_loop (Suc j) (if token ! j \<le>s 32 then token[j := 0] else token) else token)"
  by pat_completeness auto
termination
proof (relation "measure (\<lambda>(j, token). length (cstr token) - j)", goal_cases)
  case (2 j token)
  then show ?case using cstr_cut [of j token] by auto
qed simp

declare clean_loop.simps [simp del]

definition clean_token :: "byte list \<Rightarrow> byte list" where
  "clean_token token = cstr (clean_loop 0 (token @ [0]))"

lemma strsep_shorter:
  "strsep line = (Some t, rest) \<Longrightarrow> (case rest of None \<Rightarrow> 0 | Some r \<Rightarrow> Suc (length r)) < (case line of None \<Rightarrow> 0 | Some l \<Rightarrow> Suc (length l))"
  using length_dropWhile_le [of "\<lambda>b. \<not> is_delim b"]
  by (auto simp: strsep_def split: option.splits list.splits) (metis Suc_le_lessD le_SucI length_Cons)

function getcmd_loop :: "byte list option \<Rightarrow> nat \<Rightarrow> arg_array \<Rightarrow> (nat \<times> arg_array) result" where
  "getcmd_loop line i args =
     (case strsep line of
        (None, rest) \<Rightarrow> Inr (i, args)
      | (Some token, rest) \<Rightarrow>
          (let t = clean_token token in
           if t \<noteq> [] then if i < length args then getcmd_loop rest (Suc i) (args[i := Some t]) else Inl OutOfBounds
           else getcmd_loop rest i args))"
  by pat_completeness auto

termination
  by (relation "measure (\<lambda>(line, i, args). case line of None \<Rightarrow> 0 | Some l \<Rightarrow> Suc (length l))")
    (auto dest!: strsep_shorter [OF sym])

declare getcmd_loop.simps [simp del]

text \<open>
  \<open>line\<close> is what \<open>getline\<close> has read, the empty list at the end of the input; the string ends
  at its first NUL.
\<close>

definition getcmd :: "byte list \<Rightarrow> arg_array \<Rightarrow> (nat \<times> arg_array \<times> bool) result" where
  "getcmd line args =
     (if line = [] then Inl (Exited (-1))
      else let l = cstr (line @ [0]);
               background = (38 \<in> set l);
               l' = (if background then takeWhile (\<lambda>b. b \<noteq> 38) l @ 32 # tl (dropWhile (\<lambda>b. b \<noteq> 38) l) else l)
           in rbind (getcmd_loop (Some l') 0 args) (\<lambda>(i, args'). Inr (i, args', background)))"

subsection \<open>Words\<close>

text \<open>The fields between delimiters, by recursion on the characters.\<close>

fun fields :: "byte list \<Rightarrow> byte list list" where
  "fields [] = [[]]"
| "fields (b # l) = (if is_delim b then [] # fields l
   else case fields l of [] \<Rightarrow> [[b]] | w # ws \<Rightarrow> (b # w) # ws)"

definition visible :: "byte \<Rightarrow> bool" where
  "visible b \<longleftrightarrow> \<not> b \<le>s 32"

definition words :: "byte list \<Rightarrow> byte list list" where
  "words l = filter (\<lambda>w. w \<noteq> []) (map (takeWhile visible) (fields l))"

lemma sint_byte: "sint (b :: byte) = (if uint b < 128 then uint b else uint b - 256)"
proof -
  have r: "0 \<le> uint b" "uint b < 256" using unsigned_less [of b] by simp_all
  have "uint b div 128 = (if uint b < 128 then 0 else 1)" using r by auto
  then have bit: "bit (uint b) 7 \<longleftrightarrow> \<not> uint b < 128" by (simp add: bit_iff_odd)
  have "sint b = signed_take_bit 7 (uint b)" by (simp add: sint_uint)
  also have "\<dots> = take_bit 8 (uint b) - 256 * of_bool (bit (uint b) 7)"
    by (simp add: signed_take_bit_eq_take_bit_minus)
  also have "take_bit 8 (uint b) = uint b" using r by (simp add: take_bit_int_eq_self_iff)
  finally show ?thesis using bit by simp
qed

lemma visible_unsigned [code]: "visible b \<longleftrightarrow> 32 < b \<and> b < 128"
  using uint_lt2p [of b] by (auto simp: visible_def word_sle_eq word_less_def sint_byte)

lemma fields_split:
  "fields l = takeWhile (\<lambda>b. \<not> is_delim b) l #
     (case dropWhile (\<lambda>b. \<not> is_delim b) l of [] \<Rightarrow> [] | d # r \<Rightarrow> fields r)"
  by (induction l) auto

lemma visible_nonzero [simp]: "visible b \<Longrightarrow> b \<noteq> 0"
  by (auto simp: visible_def word_sle_eq)

lemma takeWhile_prefix:
  "j < length t \<Longrightarrow> list_all P (take j t) \<Longrightarrow> \<not> P (t ! j) \<Longrightarrow> takeWhile P t = take j t"
  by (simp add: takeWhile_eq_take_P_nth list_all_length)

lemma clean_loop_takeWhile:
  "0 \<notin> set t \<Longrightarrow> list_all visible (take j t) \<Longrightarrow> cstr (clean_loop j (t @ 0 # r)) = takeWhile visible t"
proof (induction "length t - j" arbitrary: j)
  case 0
  then have all: "takeWhile visible t = t" by (simp add: takeWhile_eq_all_conv list_all_iff)
  have "clean_loop j (t @ 0 # r) = t @ 0 # r" using 0 by (simp add: clean_loop.simps [of j])
  then show ?case by (simp only: all cstr_append_nul [OF 0(2)])
next
  case (Suc n)
  then have j: "j < length t" by simp
  have step: "clean_loop j (t @ 0 # r) =
      clean_loop (Suc j) (if visible (t ! j) then t @ 0 # r else t[j := 0] @ 0 # r)"
    using j Suc.prems(1) by (subst clean_loop.simps) (simp add: nth_append list_update_append visible_def)
  show ?case
  proof (cases "visible (t ! j)")
    case True
    then have "list_all visible (take (Suc j) t)" using Suc.prems(2) j by (simp add: take_Suc_conv_app_nth)
    moreover have "n = length t - Suc j" using Suc.hyps(2) by simp
    ultimately show ?thesis using Suc.hyps(1) [of "Suc j"] Suc.prems(1) True step by simp
  next
    case False
    have "cstr (t[j := 0] @ 0 # r) = take j t"
      using cstr_cut [of j "t @ 0 # r"] j Suc.prems(1) by (simp add: list_update_append)
    then have "cstr (clean_loop j (t @ 0 # r)) = take j t"
      using step False by (simp add: clean_loop.simps [of "Suc j"])
    then show ?thesis using takeWhile_prefix [OF j Suc.prems(2) False] by simp
  qed
qed

lemma clean_token_visible: "0 \<notin> set t \<Longrightarrow> clean_token t = takeWhile visible t"
  using clean_loop_takeWhile [of t 0 "[]"] by (simp add: clean_token_def)

text \<open>Storing strings one after the other.\<close>

definition store_args :: "nat \<Rightarrow> byte list list \<Rightarrow> arg_array \<Rightarrow> (nat \<times> arg_array) result" where
  "store_args i ws args =
     (if ws = [] \<or> i + length ws \<le> length args then Inr (i + length ws, overwrite args i (map Some ws)) else Inl OutOfBounds)"

lemma store_args_Cons:
  "store_args i (w # ws) args =
     (if i < length args then store_args (Suc i) ws (args[i := Some w]) else Inl OutOfBounds)"
  by (auto simp: store_args_def overwrite_def upd_conv_take_nth_drop add.commute)

lemma getcmd_loop_words:
  "0 \<notin> set l \<Longrightarrow> getcmd_loop (Some l) i args = store_args i (words l) args"
proof (induction l arbitrary: i args rule: length_induct)
  case (1 l)
  let ?d = "\<lambda>b. \<not> is_delim b"
  let ?t = "takeWhile ?d l" and ?rest = "case dropWhile ?d l of [] \<Rightarrow> None | d # r \<Rightarrow> Some r"
  let ?more = "case dropWhile ?d l of [] \<Rightarrow> [] | d # r \<Rightarrow> words r"
  have t: "clean_token ?t = takeWhile visible ?t" using 1(2) by (auto intro!: clean_token_visible dest: set_takeWhileD)
  have rest: "getcmd_loop ?rest i' args' = store_args i' ?more args'" for i' args'
  proof (cases "dropWhile ?d l")
    case Nil
    then show ?thesis by (simp only: Nil list.case) (simp add: getcmd_loop.simps strsep_def store_args_def)
  next
    case (Cons d r)
    then have "length r < length l" "0 \<notin> set r"
      using length_dropWhile_le [of ?d l] 1(2) set_dropWhileD [of 0 ?d l] by auto
    then show ?thesis using 1(1) Cons by simp
  qed
  have "words l = (if clean_token ?t = [] then ?more else clean_token ?t # ?more)"
    unfolding words_def fields_split [of l] t
    by (cases "dropWhile ?d l"; cases "takeWhile visible ?t = []")
      (simp_all only: list.case list.map filter.simps if_True if_False simp_thms)
  then show ?case
    by (subst getcmd_loop.simps) (simp add: strsep_def rest store_args_Cons Let_def)
qed

text \<open>The ampersand counts as a space, the first one only.\<close>

definition amp_to_space :: "byte list \<Rightarrow> byte list" where
  "amp_to_space l =
     (if 38 \<in> set l then takeWhile (\<lambda>b. b \<noteq> 38) l @ 32 # tl (dropWhile (\<lambda>b. b \<noteq> 38) l) else l)"

lemma amp_to_space_no_nul: "0 \<notin> set l \<Longrightarrow> 0 \<notin> set (amp_to_space l)"
  using list.set_sel(2) [of "dropWhile (\<lambda>b. b \<noteq> 38) l" 0]
  by (auto simp: amp_to_space_def dest: set_takeWhileD set_dropWhileD)

lemma visible_not_delim: "visible b \<Longrightarrow> \<not> is_delim b"
  by (auto simp: visible_def is_delim_def word_sle_eq)

lemma words_delim: "is_delim d \<Longrightarrow> words (d # l) = words l"
  by (simp add: words_def)

lemma words_word:
  assumes "w \<noteq> []" and "list_all visible w" and "is_delim d"
  shows "words (w @ d # l) = w # words l"
proof -
  have nd: "\<forall>b\<in>set w. \<not> is_delim b" using assms(2) visible_not_delim by (auto simp: list_all_iff)
  have "fields (w @ d # l) = w # fields l" using nd assms(3) by (induction w) auto
  moreover have "takeWhile visible w = w" using assms(2) by (simp add: takeWhile_eq_all_conv list_all_iff)
  ultimately show ?thesis using assms(1) by (simp add: words_def del: takeWhile_eq_all_conv)
qed

lemma words_delims: "list_all is_delim g \<Longrightarrow> words (g @ l) = words l"
  by (induction g) (auto simp: words_delim)

lemma getcmd_words_eq:
  assumes "line \<noteq> []" and "0 \<notin> set line"
  shows "getcmd line (replicate 20 None) =
    (let ws = words (amp_to_space line) in
     if length ws \<le> 20 then Inr (length ws, map Some ws @ replicate (20 - length ws) None, 38 \<in> set line)
     else Inl OutOfBounds)"
proof -
  have c: "cstr (line @ [0]) = line" using assms(2) by simp
  have "getcmd line (replicate 20 None) =
      rbind (store_args 0 (words (amp_to_space line)) (replicate 20 None)) (\<lambda>(i, args'). Inr (i, args', 38 \<in> set line))"
    using assms getcmd_loop_words [OF amp_to_space_no_nul [OF assms(2)]]
    unfolding getcmd_def c amp_to_space_def Let_def by simp
  then show ?thesis by (auto simp: store_args_def overwrite_def Let_def)
qed

subsection \<open>Properties\<close>

text \<open>C17: \<open>getcmd\<close> fills the argument array with the visible words of the line in order, each up to its
  first character that is not above 32 as a signed character, leaves \<open>NULL\<close> behind them, and
  reports whether there was an ampersand. With more than twenty words it writes behind the array.\<close>

theorem getcmd_words:
  assumes "line \<noteq> []" and "0 \<notin> set line"
  shows "getcmd line (replicate 20 None) =
    (let ws = words (amp_to_space line) in
     if length ws \<le> 20 then Inr (length ws, map Some ws @ replicate (20 - length ws) None, 38 \<in> set line)
     else Inl OutOfBounds)"
  using getcmd_words_eq [OF assms] .

theorem getcmd_words_witness:
  "getcmd (bytes_of ''cat a.txt  > out &'' @ [10]) (replicate 20 None) =
    Inr (4, map Some [bytes_of ''cat'', bytes_of ''a.txt'', bytes_of ''>'', bytes_of ''out''] @ replicate 16 None, True)"
proof -
  have line: "bytes_of ''cat a.txt  > out &'' @ [10] \<noteq> []" "0 \<notin> set (bytes_of ''cat a.txt  > out &'' @ [10])"
    by code_simp+
  have ws: "words (amp_to_space (bytes_of ''cat a.txt  > out &'' @ [10])) =
      [bytes_of ''cat'', bytes_of ''a.txt'', bytes_of ''>'', bytes_of ''out'']"
    by code_simp
  have amp: "38 \<in> set (bytes_of ''cat a.txt  > out &'' @ [10])" by code_simp
  show ?thesis
    unfolding getcmd_words [OF line] ws Let_def by (simp only: eqTrueI [OF amp]) simp
qed

text \<open>C31: Reading back a printed line: any sequence of at most twenty words without ampersand, with any
  non-empty gaps of spaces, tabs and newlines, gives exactly these words as arguments.\<close>

theorem getcmd_roundtrip:
  assumes "list_all (\<lambda>(w, g). w \<noteq> [] \<and> list_all visible w \<and> 38 \<notin> set w \<and> g \<noteq> [] \<and> list_all is_delim g) wgs"
    and "list_all is_delim g0" and "wgs \<noteq> []" and "length wgs \<le> 20"
  shows "getcmd (g0 @ concat (map (\<lambda>(w, g). w @ g) wgs)) (replicate 20 None) =
    Inr (length wgs, map (Some \<circ> fst) wgs @ replicate (20 - length wgs) None, False)"
proof -
  let ?l = "g0 @ concat (map (\<lambda>(w, g). w @ g) wgs)"
  have d0: "b \<noteq> 0 \<and> b \<noteq> 38" if "is_delim b" for b using that by (auto simp: is_delim_def)
  have ws: "words (concat (map (\<lambda>(w, g). w @ g) wgs)) = map fst wgs"
    using assms(1)
  proof (induction wgs)
    case (Cons wg wgs)
    obtain w g where wg: "wg = (w, g)" by fastforce
    with Cons.prems obtain d g' where g: "g = d # g'" by (cases g) auto
    show ?case using Cons wg g words_word [of w d] words_delims [of g'] by simp
  qed (simp add: words_def)
  have "b \<noteq> 0 \<and> b \<noteq> 38" if b: "b \<in> set ?l" for b
  proof -
    have "is_delim b \<or> visible b \<and> b \<noteq> 38"
    proof (cases "b \<in> set g0")
      case False
      then obtain w g where wg: "(w, g) \<in> set wgs" "b \<in> set w \<or> b \<in> set g" using b by auto
      then have "list_all visible w" "38 \<notin> set w" "list_all is_delim g" using assms(1) by (auto simp: list_all_iff)
      then show ?thesis using wg(2) by (auto simp: list_all_iff)
    qed (use assms(2) in \<open>auto simp: list_all_iff\<close>)
    then show ?thesis using d0 visible_nonzero by blast
  qed
  then have no: "0 \<notin> set ?l" "38 \<notin> set ?l" by blast+
  have ne: "?l \<noteq> []" using assms(1,3) by (cases wgs) auto
  have "amp_to_space ?l = ?l" unfolding amp_to_space_def by (simp only: no(2) if_False)
  then have "words (amp_to_space ?l) = map fst wgs" by (simp only: words_delims [OF assms(2)] ws)
  then show ?thesis unfolding getcmd_words_eq [OF ne no(1)] using no(2) assms(4) by (simp only: Let_def) simp
qed

theorem getcmd_roundtrip_witness:
  "getcmd ([32] @ concat (map (\<lambda>(w, g). w @ g) [(bytes_of ''ls'', [32, 9]), (bytes_of ''-l'', [10])])) (replicate 20 None) =
    Inr (2, [Some (bytes_of ''ls''), Some (bytes_of ''-l'')] @ replicate 18 None, False)"
proof -
  have "list_all (\<lambda>(w, g). w \<noteq> [] \<and> list_all visible w \<and> 38 \<notin> set w \<and> g \<noteq> [] \<and> list_all is_delim g)
      [(bytes_of ''ls'', [32, 9]), (bytes_of ''-l'', [10])]" "list_all is_delim [32]"
    by code_simp+
  from getcmd_roundtrip [OF this] show ?thesis by simp
qed

end
