(* ===== verification/Shell_Jobs.thy ===== *)
theory Shell_Jobs
  imports Prelude
begin

text \<open>
  The job list of \<^verbatim>\<open>A_simple_shell/main.c\<close>: a linked list of \<open>struct node\<close> with a pointer
  to its head and one to its last node. The nodes live on a heap, a map from addresses; the
  addresses from \<open>brk\<close> on are free for \<open>malloc\<close>.

  The abstract state is the list of the process numbers in the order they were added. The
  lemmas show that adding refines appending, that \<open>find\<close> ends and looks up a position and that
  \<open>printList\<close> ends and shows the list.
\<close>

subsection \<open>The code\<close>

record node =
  number :: int
  node_pid :: int
  nxt :: "nat option"

record jobs = mem +
  heap :: "nat \<rightharpoonup> node"
  brk :: nat
  head_job :: "nat option"
  current_job :: "nat option"

definition add_job :: "int \<Rightarrow> 'a jobs_scheme \<Rightarrow> 'a jobs_scheme result" where
  "add_job p s =
     (let job = brk s; s1 = s\<lparr>brk := Suc job\<rparr> in
      case head_job s1 of
        None \<Rightarrow> Inr (s1\<lparr>heap := (heap s1)(job \<mapsto> \<lparr>number = 1, node_pid = p, nxt = None\<rparr>),
                       head_job := Some job, current_job := Some job\<rparr>)
      | Some h \<Rightarrow>
          (case current_job s1 of None \<Rightarrow> Inl NullDeref
           | Some c \<Rightarrow>
              (case heap s1 c of None \<Rightarrow> Inl Dangling
               | Some n \<Rightarrow>
                   Inr (s1\<lparr>heap := (heap s1)(c \<mapsto> n\<lparr>nxt := Some job\<rparr>, job \<mapsto> \<lparr>number = s32 (number n + 1), node_pid = p, nxt = None\<rparr>),
                          current_job := Some job\<rparr>))))"

partial_function (option) find_loop :: "(nat \<rightharpoonup> node) \<Rightarrow> int \<Rightarrow> nat \<Rightarrow> nat option result option" where
  "find_loop h key current =
     (case h current of None \<Rightarrow> Some (Inl Dangling)
      | Some n \<Rightarrow>
          if number n \<noteq> key then
            (case nxt n of None \<Rightarrow> Some (Inr None) | Some a \<Rightarrow> find_loop h key a)
          else Some (Inr (Some current)))"

definition find :: "int \<Rightarrow> 'a jobs_scheme \<Rightarrow> nat option result option" where
  "find key s = (case head_job s of None \<Rightarrow> Some (Inr None) | Some a \<Rightarrow> find_loop (heap s) key a)"

partial_function (option) print_loop :: "(nat \<rightharpoonup> node) \<Rightarrow> nat option \<Rightarrow> (int \<times> int) list \<Rightarrow> (int \<times> int) list result option" where
  "print_loop h lst out =
     (case lst of None \<Rightarrow> Some (Inr out)
      | Some a \<Rightarrow>
          (case h a of None \<Rightarrow> Some (Inl Dangling)
           | Some n \<Rightarrow> print_loop h (nxt n) (out @ [(number n, node_pid n)])))"

text \<open>What \<open>printList\<close> shows between its brackets.\<close>

definition printList :: "'a jobs_scheme \<Rightarrow> (int \<times> int) list result option" where
  "printList s = print_loop (heap s) (head_job s) []"

subsection \<open>Chains of nodes\<close>

text \<open>\<open>chain h p as q\<close>: following \<open>nxt\<close> from \<open>p\<close> one passes the addresses \<open>as\<close> and arrives at \<open>q\<close>.\<close>

fun chain :: "(nat \<rightharpoonup> node) \<Rightarrow> nat option \<Rightarrow> nat list \<Rightarrow> nat option \<Rightarrow> bool" where
  "chain h p [] q = (p = q)"
| "chain h p (a # as) q = (p = Some a \<and> (case h a of None \<Rightarrow> False | Some n \<Rightarrow> chain h (nxt n) as q))"

lemma chain_ConsE:
  assumes "chain h p (a # as) q"
  obtains n where "p = Some a" "h a = Some n" "chain h (nxt n) as q"
  using assms by (cases "h a") auto

lemma chain_append: "chain h p (as @ bs) q \<longleftrightarrow> (\<exists>r. chain h p as r \<and> chain h r bs q)"
  by (induction as arbitrary: p) (auto split: option.splits)

lemma chain_other: "a \<notin> set as \<Longrightarrow> chain (h(a := x)) p as q = chain h p as q"
  by (induction as arbitrary: p) (auto split: option.splits)

lemma chain_allocated: "chain h p as q \<Longrightarrow> a \<in> set as \<Longrightarrow> h a \<noteq> None"
  by (induction as arbitrary: p) (auto split: option.splits)

definition node_at :: "(nat \<rightharpoonup> node) \<Rightarrow> nat \<Rightarrow> int \<times> int" where
  "node_at h a = (number (the (h a)), node_pid (the (h a)))"

text \<open>The list of the jobs: the numbers count from 1, \<open>ps\<close> are the processes.\<close>

definition numbered :: "int list \<Rightarrow> (int \<times> int) list" where
  "numbered ps = zip (map int [1..<Suc (length ps)]) ps"

definition jobs_at :: "'a jobs_scheme \<Rightarrow> nat list \<Rightarrow> int list \<Rightarrow> bool" where
  "jobs_at s as ps \<longleftrightarrow>
     chain (heap s) (head_job s) as None \<and> distinct as \<and> (\<forall>a\<in>set as. a < brk s) \<and>
     current_job s = (if as = [] then None else Some (last as)) \<and>
     map (node_at (heap s)) as = numbered ps"

definition job_list :: "'a jobs_scheme \<Rightarrow> int list \<Rightarrow> bool" where
  "job_list s ps \<longleftrightarrow> (\<exists>as. jobs_at s as ps)"

lemma length_numbered [simp]: "length (numbered ps) = length ps"
  by (simp add: numbered_def del: upt_Suc)

lemma numbered_nth: "i < length ps \<Longrightarrow> numbered ps ! i = (int i + 1, ps ! i)"
  by (simp add: numbered_def del: upt_Suc)

lemma numbered_snoc: "numbered (ps @ [p]) = numbered ps @ [(int (length ps) + 1, p)]"
  by (rule nth_equalityI) (auto simp: numbered_nth nth_append less_Suc_eq)

lemma jobs_at_length: "jobs_at s as ps \<Longrightarrow> length as = length ps"
  unfolding jobs_at_def by (metis length_map length_numbered)

lemma no_jobs: "head_job s = None \<Longrightarrow> current_job s = None \<Longrightarrow> job_list s []"
  by (auto simp: job_list_def jobs_at_def numbered_def intro!: exI [of _ "[]"])

text \<open>Adding a job is appending its process.\<close>

lemma add_job_jobs:
  assumes "jobs_at s as ps" and "length ps < 2147483647"
  shows "\<exists>s'. add_job p s = Inr s' \<and> jobs_at s' (as @ [brk s]) (ps @ [p]) \<and>
    s' = s\<lparr>heap := heap s', brk := brk s', head_job := head_job s', current_job := current_job s'\<rparr>"
proof (cases as rule: rev_cases)
  case Nil
  then have "ps = []" "head_job s = None" using assms(1) jobs_at_length [OF assms(1)] by (auto simp: jobs_at_def)
  then show ?thesis using Nil
    by (auto simp: add_job_def jobs_at_def node_at_def numbered_def Let_def intro!: jobs.equality)
next
  case (snoc bs c)
  note inv = assms(1) [unfolded jobs_at_def]
  obtain n where n: "heap s c = Some n" "nxt n = None"
    using inv snoc by (auto simp: chain_append split: option.splits)
  obtain h where h: "head_job s = Some h" using inv snoc by (cases bs) auto
  have len: "length ps = Suc (length bs)" using jobs_at_length [OF assms(1)] snoc by simp
  have "map (node_at (heap s)) (bs @ [c]) ! length bs = (int (length ps), ps ! length bs)"
    using inv snoc numbered_nth [of "length bs" ps] len by simp
  then have num: "number n = int (length ps)" by (simp add: nth_append node_at_def n)
  let ?j = "brk s"
  let ?h = "(heap s)(c \<mapsto> n\<lparr>nxt := Some ?j\<rparr>, ?j \<mapsto> \<lparr>number = int (length ps) + 1, node_pid = p, nxt = None\<rparr>)"
  have fresh: "?j \<notin> set bs" "?j \<noteq> c" "c \<notin> set bs" using inv snoc by auto
  have run: "add_job p s = Inr (s\<lparr>brk := Suc ?j, heap := ?h, current_job := Some ?j\<rparr>)"
    using h inv snoc n num assms(2) by (simp add: add_job_def Let_def)
  have "chain ?h (head_job s) bs (Some c)"
    using inv snoc fresh by (auto simp: chain_append chain_other split: option.splits)
  then have "chain ?h (head_job s) (as @ [?j]) None"
    using snoc fresh by (auto simp: chain_append)
  moreover have "map (node_at ?h) (as @ [?j]) = numbered (ps @ [p])"
  proof -
    have "map (node_at ?h) as = map (node_at (heap s)) as"
      using snoc n fresh by (auto simp: node_at_def)
    then show ?thesis using inv by (simp add: numbered_snoc node_at_def)
  qed
  ultimately show ?thesis using run inv snoc fresh by (auto simp: jobs_at_def intro!: jobs.equality)
qed

text \<open>Looking for a number along a chain.\<close>

lemma find_loop_chain:
  "chain h (Some a) as None \<Longrightarrow>
   find_loop h key a = Some (Inr (List.find (\<lambda>b. fst (node_at h b) = key) as))"
proof (induction as arbitrary: a)
  case (Cons b as)
  obtain n where "Some a = Some b" "h b = Some n" "chain h (nxt n) as None"
    using chain_ConsE [OF Cons.prems] .
  then have n: "h a = Some n" "b = a" "chain h (nxt n) as None" by simp_all
  show ?case
  proof (cases as)
    case Nil
    then show ?thesis using n by (subst find_loop.simps) (simp add: node_at_def)
  next
    case (Cons c cs)
    then have "nxt n = Some c" using n(3) by simp
    then show ?thesis using Cons.IH [of c] n by (subst find_loop.simps) (simp add: node_at_def)
  qed
qed simp

lemma print_loop_chain: "chain h p as None \<Longrightarrow> print_loop h p out = Some (Inr (out @ map (node_at h) as))"
proof (induction as arbitrary: p out)
  case Nil
  then show ?case by (subst print_loop.simps) simp
next
  case (Cons a as)
  obtain n where n: "p = Some a" "h a = Some n" "chain h (nxt n) as None"
    using chain_ConsE [OF Cons.prems] .
  show ?case using Cons.IH [OF n(3)] n(1,2) by (subst print_loop.simps) (simp add: node_at_def)
qed

lemma find_job_at:
  assumes "jobs_at s as ps"
  shows "find key s = Some (Inr (if 1 \<le> key \<and> key \<le> int (length ps) then Some (as ! nat (key - 1)) else None))"
proof -
  note inv = assms [unfolded jobs_at_def]
  have fst_at: "fst (node_at (heap s) (as ! i)) = int i + 1" if "i < length as" for i
    using that inv numbered_nth [of i ps] jobs_at_length [OF assms] nth_map [of i as "node_at (heap s)"] by (metis fst_conv)
  have lookup: "List.find (\<lambda>b. fst (node_at (heap s) b) = key) as =
      (if 1 \<le> key \<and> key \<le> int (length ps) then Some (as ! nat (key - 1)) else None)"
  proof (cases "1 \<le> key \<and> key \<le> int (length ps)")
    case True
    define k where "k = nat (key - 1)"
    then have k: "key = int k + 1" "k < length as" using True jobs_at_length [OF assms] by auto
    have "fst (node_at (heap s) (as ! j)) \<noteq> key" if "j < k" for j using fst_at [of j] that k by simp
    then show ?thesis using True k fst_at by (auto simp: find_Some_iff intro!: exI [of _ k])
  next
    case False
    then show ?thesis
      using jobs_at_length [OF assms] fst_at by (auto simp: find_None_iff in_set_conv_nth)
  qed
  show ?thesis
  proof (cases as)
    case Nil
    then show ?thesis using inv jobs_at_length [OF assms] by (simp add: find_def)
  next
    case (Cons a bs)
    then have "head_job s = Some a" "chain (heap s) (Some a) as None" using inv by auto
    then show ?thesis using find_loop_chain [of "heap s" a as key] lookup by (simp add: find_def)
  qed
qed

lemma printList_at: "jobs_at s as ps \<Longrightarrow> printList s = Some (Inr (numbered ps))"
  using print_loop_chain [of "heap s" "head_job s" as "[]"] by (simp add: printList_def jobs_at_def)

subsection \<open>Properties\<close>

text \<open>A run of the main process: the jobs it adds one after the other.\<close>

fun add_jobs :: "int list \<Rightarrow> 'a jobs_scheme \<Rightarrow> 'a jobs_scheme result" where
  "add_jobs [] s = Inr s"
| "add_jobs (p # ps) s = rbind (add_job p s) (add_jobs ps)"

lemma add_jobs_jobs:
  "jobs_at s as qs \<Longrightarrow> length qs + length ps < 2147483648 \<Longrightarrow> \<exists>s' as'. add_jobs ps s = Inr s' \<and> jobs_at s' as' (qs @ ps)"
proof (induction ps arbitrary: s as qs)
  case Nil
  then show ?case by auto
next
  case (Cons p ps)
  then obtain s1 where s1: "add_job p s = Inr s1" "jobs_at s1 (as @ [brk s]) (qs @ [p])"
    using add_job_jobs [of s as qs p] by auto
  then show ?case using Cons.IH [OF s1(2)] Cons.prems(2) by simp
qed

text \<open>What a job looked up by its number is.\<close>

definition job_process :: "int \<Rightarrow> 'a jobs_scheme \<Rightarrow> int option" where
  "job_process key s =
     (case find key s of Some (Inr (Some a)) \<Rightarrow> map_option node_pid (heap s a) | _ \<Rightarrow> None)"

lemma job_process_at:
  assumes "jobs_at s as ps"
  shows "job_process key s = (if 1 \<le> key \<and> key \<le> int (length ps) then Some (ps ! nat (key - 1)) else None)"
proof (cases "1 \<le> key \<and> key \<le> int (length ps)")
  case True
  let ?i = "nat (key - 1)"
  note inv = assms [unfolded jobs_at_def]
  have i: "?i < length as" "?i < length ps" using True jobs_at_length [OF assms] by auto
  then have "node_at (heap s) (as ! ?i) = (int ?i + 1, ps ! ?i)"
    using inv numbered_nth [of ?i ps] nth_map [of ?i as "node_at (heap s)"] by simp
  moreover obtain n where "heap s (as ! ?i) = Some n" using inv i chain_allocated [of "heap s"] nth_mem by blast
  ultimately show ?thesis using find_job_at [OF assms, of key] True by (simp add: job_process_def node_at_def)
next
  case False
  have "find key s = Some (Inr None)" using find_job_at [OF assms, of key] False by (simp only: if_False)
  then show ?thesis unfolding job_process_def by (simp only: False if_False) simp
qed

text \<open>C16: The linked list is a list: after any number of jobs has been added, \<open>printList\<close> ends and shows
  the numbers from 1 on with the processes in the order they were added, and \<open>find\<close> ends and
  finds the process of exactly the numbers in use; for all others it returns \<open>NULL\<close>.\<close>

theorem jobs_refine_list:
  assumes "head_job s = None" and "current_job s = None" and "length ps < 2147483648"
  shows "\<exists>s'. add_jobs ps s = Inr s' \<and> printList s' = Some (Inr (numbered ps)) \<and>
    (\<forall>key. find key s' \<noteq> None \<and> (find key s' = Some (Inr None) \<longleftrightarrow> \<not> (1 \<le> key \<and> key \<le> int (length ps))) \<and>
      job_process key s' = (if 1 \<le> key \<and> key \<le> int (length ps) then Some (ps ! nat (key - 1)) else None))"
proof -
  obtain as where "jobs_at s as []" using no_jobs [OF assms(1,2)] by (auto simp: job_list_def)
  from add_jobs_jobs [OF this, of ps] assms(3) obtain s' as' where "add_jobs ps s = Inr s'" "jobs_at s' as' ps" by auto
  moreover have "find key s' = Some (Inr None) \<longleftrightarrow> \<not> (1 \<le> key \<and> key \<le> int (length ps))" for key
    using find_job_at [OF calculation(2), of key] by simp
  ultimately show ?thesis using printList_at job_process_at find_job_at by blast
qed

theorem jobs_refine_list_witness:
  "\<exists>s'. add_jobs [41, 42] \<lparr>unk = sconst 0, heap = Map.empty, brk = 0, head_job = None, current_job = None\<rparr> = Inr s' \<and>
    printList s' = Some (Inr [(1, 41), (2, 42)]) \<and> job_process 2 s' = Some 42 \<and> find 3 s' = Some (Inr None)"
proof -
  let ?s = "\<lparr>unk = sconst 0, heap = Map.empty, brk = 0, head_job = None, current_job = None\<rparr>"
  have n: "numbered [41, 42] = [(1, 41), (2, 42)]" by code_simp
  have "head_job ?s = None" "current_job ?s = None" "length [41, 42 :: int] < 2147483648" by simp_all
  from jobs_refine_list [OF this] obtain s' where "add_jobs [41, 42] ?s = Inr s'" "printList s' = Some (Inr [(1, 41), (2, 42)])"
    "\<forall>key. find key s' = Some (Inr None) \<longleftrightarrow> \<not> (1 \<le> key \<and> key \<le> int (length [41, 42 :: int]))"
    "\<forall>key. job_process key s' = (if 1 \<le> key \<and> key \<le> int (length [41, 42 :: int]) then Some ([41, 42] ! nat (key - 1)) else None)"
    unfolding n by blast
  then show ?thesis by (intro exI [of _ s']) simp
qed

end
