(* ===== verification/Shell.thy ===== *)
theory Shell
  imports Shell_Parse Shell_Jobs Fd_Table
begin

text \<open>
  The shell of \<^verbatim>\<open>A_simple_shell/main.c\<close>: the builtin commands, the loop of \<open>main\<close>, and the
  processes it makes. The answers of the operating system are the fields of \<open>os\<close>; nothing is
  assumed about them. A shell process is a record with the global variables, the argument
  array, the descriptor table and the working directory; \<open>shown\<close> is what it has printed.

  A child that has run its builtin command does not exit: it goes on with the loop, while its
  parent waits for it. A session is therefore the list of the shell processes, the one that
  reads the terminal first, each of the others waiting for the one in front of it.
\<close>

subsection \<open>The system\<close>

record os =
  exec_ok :: "byte list \<Rightarrow> byte list list \<Rightarrow> bool"         \<comment> \<open>\<open>execvp\<close> finds the program\<close>
  open_ok :: "byte list \<Rightarrow> bool"                            \<comment> \<open>\<open>open\<close> for writing succeeds\<close>
  chdir_to :: "byte list \<Rightarrow> byte list \<Rightarrow> byte list option"  \<comment> \<open>from a directory along a path\<close>
  wait_for :: "int \<Rightarrow> nat option"                           \<comment> \<open>the child \<open>waitpid\<close> finds; it looks for any when asked for -1\<close>
  home_dir :: "byte list option"                            \<comment> \<open>\<open>getenv("HOME")\<close>\<close>

datatype message =
    JobsRun int | JobList "(int \<times> int) list" | CatRun | CpRun | Redirected
  | NoArgument | NoHome | CdFailed | Cwd "byte list option" | ExitNow
  | SwitchingTo int | SwitchedTo int | InvalidNumber_fg | NeedId | NowPid int
  | Commands "byte list list" | NotIgnored

datatype event =
    Exec "byte list" "byte list list"   \<comment> \<open>the process becomes this program\<close>
  | Wait int

record shell = jobs +
  wpid :: int
  pid :: int
  args :: arg_array
  fds :: "byte list fd_list"
  dup_fd :: int
  cwd :: "byte list"
  shown :: "message list"
  events :: "event list"

definition show_msg :: "message \<Rightarrow> shell \<Rightarrow> shell" where
  "show_msg m s = s\<lparr>shown := shown s @ [m]\<rparr>"

text \<open>Results of code that may not return at all.\<close>

fun pbind :: "'a result option \<Rightarrow> ('a \<Rightarrow> 'b result option) \<Rightarrow> 'b result option" where
  "pbind None f = None"
| "pbind (Some (Inl e)) f = Some (Inl e)"
| "pbind (Some (Inr x)) f = f x"

text \<open>
  \<open>execvp(args[0], args)\<close>: the value \<open>True\<close> says that the process has become the program. The
  arguments end at the first \<open>NULL\<close>; without one the system reads behind the array.
\<close>

definition execvp :: "os \<Rightarrow> shell \<Rightarrow> (bool \<times> shell) result" where
  "execvp os s =
     (case args s ! 0 of None \<Rightarrow> Inr (False, s)
      | Some file \<Rightarrow>
          (if None \<notin> set (args s) then Inl OutOfBounds
           else let argv = map the (takeWhile (\<lambda>a. a \<noteq> None) (args s)) in
             if exec_ok os file argv then Inr (True, s\<lparr>events := events s @ [Exec file argv]\<rparr>) else Inr (False, s)))"

definition waitpid :: "os \<Rightarrow> int \<Rightarrow> shell \<Rightarrow> int \<times> shell" where
  "waitpid os p s = (case wait_for os p of None \<Rightarrow> -1 | Some q \<Rightarrow> int q, s\<lparr>events := events s @ [Wait p]\<rparr>)"

subsection \<open>Builtin commands\<close>

text \<open>Each returns whether the process has become another program.\<close>

definition buildin_cat :: "os \<Rightarrow> shell \<Rightarrow> (bool \<times> shell) result option" where
  "buildin_cat os s =
     (let s1 =
        (case args s ! 2 of None \<Rightarrow> s
         | Some x \<Rightarrow>
             (let file = (case args s ! 3 of None \<Rightarrow> None | Some f \<Rightarrow> if open_ok os f then Some f else None);
                  (fd_1, dup, t) = redirect_fd 1 file (fds s)
              in show_msg Redirected (s\<lparr>fds := t, dup_fd := dup, args := (args s)[2 := None, 3 := None]\<rparr>)))
      in Some (execvp os (show_msg CatRun s1)))"

definition buildin_cp :: "os \<Rightarrow> shell \<Rightarrow> (bool \<times> shell) result option" where
  "buildin_cp os s = Some (execvp os (show_msg CpRun s))"

definition buildin_jobs :: "os \<Rightarrow> shell \<Rightarrow> (bool \<times> shell) result option" where
  "buildin_jobs os s = pbind (printList s) (\<lambda>js. Some (Inr (False, show_msg (JobList js) (show_msg (JobsRun (pid s)) s))))"

definition buildin_ls :: "os \<Rightarrow> shell \<Rightarrow> (bool \<times> shell) result option" where
  "buildin_ls os s = Some (execvp os s)"

definition c_chdir :: "os \<Rightarrow> byte list \<Rightarrow> shell \<Rightarrow> int \<times> shell" where
  "c_chdir os path s = (case chdir_to os (cwd s) path of None \<Rightarrow> (-1, s) | Some d \<Rightarrow> (0, s\<lparr>cwd := d\<rparr>))"

definition buildin_cd :: "os \<Rightarrow> shell \<Rightarrow> (bool \<times> shell) result option" where
  "buildin_cd os s =
     (let (result, s1) =
        (case args s ! 1 of
           None \<Rightarrow> (let s0 = show_msg NoArgument s in
                    case home_dir os of Some home \<Rightarrow> c_chdir os home s0 | None \<Rightarrow> (0, show_msg NoHome s0))
         | Some path \<Rightarrow> c_chdir os path s)
      in Some (Inr (False, if result = -1 then show_msg CdFailed s1 else s1)))"

definition buildin_pwd :: "os \<Rightarrow> shell \<Rightarrow> (bool \<times> shell) result option" where
  "buildin_pwd os s =
     Some (Inr (False, show_msg (Cwd (if length (cwd s) < 256 then Some (cwd s) else None)) s))"

definition buildin_exit :: "os \<Rightarrow> shell \<Rightarrow> (bool \<times> shell) result option" where
  "buildin_exit os s = Some (Inl (Exited 1))"

definition buildin_fg :: "os \<Rightarrow> shell \<Rightarrow> (bool \<times> shell) result option" where
  "buildin_fg os s =
     (case args s ! 1 of
        None \<Rightarrow> Some (Inr (False, show_msg NeedId s))
      | Some arg \<Rightarrow>
          pbind (Some (c_atoi (arg @ [0]))) (\<lambda>job_num.
          let s1 = show_msg (SwitchingTo job_num) s in
          pbind (find job_num s1) (\<lambda>fg.
          case fg of None \<Rightarrow> Some (Inl NullDeref)
          | Some a \<Rightarrow>
              (case heap s1 a of None \<Rightarrow> Some (Inl Dangling)
               | Some n \<Rightarrow>
                   (let pid_seek = node_pid n; (r, s2) = waitpid os pid_seek s1
                    in Some (Inr (False, show_msg (if r = -1 then SwitchedTo pid_seek else InvalidNumber_fg) s2)))))))"

definition buildins :: "(byte list \<times> (os \<Rightarrow> shell \<Rightarrow> (bool \<times> shell) result option)) list" where
  "buildins =
     [(bytes_of ''cd'', buildin_cd), (bytes_of ''pwd'', buildin_pwd), (bytes_of ''exit'', buildin_exit),
      (bytes_of ''fg'', buildin_fg), (bytes_of ''ls'', buildin_ls), (bytes_of ''jobs'', buildin_jobs),
      (bytes_of ''cat'', buildin_cat), (bytes_of ''cp'', buildin_cp)]"

text \<open>The loop of the child over the table of the builtin commands.\<close>

fun run_buildins :: "(byte list \<times> (os \<Rightarrow> shell \<Rightarrow> (bool \<times> shell) result option)) list \<Rightarrow> os \<Rightarrow> shell \<Rightarrow> (bool \<times> shell) result option" where
  "run_buildins [] os s = Some (Inr (False, s))"
| "run_buildins ((str, funct) # fs) os s =
     (case args s ! 0 of None \<Rightarrow> Some (Inl NullDeref)
      | Some w \<Rightarrow>
          if w = str then pbind (funct os s) (\<lambda>(gone, s1). if gone then Some (Inr (True, s1)) else run_buildins fs os s1)
          else run_buildins fs os s)"

subsection \<open>The main loop\<close>

text \<open>What the parent does when the child is gone.\<close>

definition reap :: "os \<Rightarrow> shell \<Rightarrow> shell result" where
  "reap os s =
     (let (r, s1) = waitpid os (pid s) s
      in add_job (pid s) (show_msg (NowPid (pid s)) (s1\<lparr>wpid := r\<rparr>)))"

text \<open>
  One round of the loop up to the end of the branch of the child: the parent, and the child
  unless the fork failed. \<open>newpid\<close> is the result of \<open>fork\<close> in the parent.
\<close>

definition shell_round :: "os \<Rightarrow> int \<Rightarrow> byte list \<Rightarrow> shell \<Rightarrow> (shell \<times> (bool \<times> shell) result option option) result" where
  "shell_round os newpid line s =
     rbind (getcmd line (replicate 20 None)) (\<lambda>(cnt, as, bg).
     let s1 = s\<lparr>args := as\<rparr> in
     case as ! 0 of None \<Rightarrow> Inl NullDeref
     | Some w \<Rightarrow>
         if w = bytes_of ''exit'' then Inl (Exited (-1))
         else if newpid = -1 then Inr (s1\<lparr>pid := -1\<rparr>, None)
         else Inr (s1\<lparr>pid := newpid\<rparr>, Some (run_buildins buildins os (s1\<lparr>pid := 0\<rparr>))))"

text \<open>A process at the end of the list ends: its parent goes on.\<close>

fun resume :: "os \<Rightarrow> shell list \<Rightarrow> shell list result" where
  "resume os [] = Inr []"
| "resume os (s # ss) = rbind (reap os s) (\<lambda>s1. Inr (s1 # ss))"

definition session_line :: "os \<Rightarrow> int \<Rightarrow> byte list \<Rightarrow> shell list \<Rightarrow> shell list result option" where
  "session_line os newpid line ss =
     (case ss of [] \<Rightarrow> Some (Inr [])
      | s # rest \<Rightarrow>
          (case shell_round os newpid line s of
             Inl OutOfBounds \<Rightarrow> Some (Inl OutOfBounds)
           | Inl e \<Rightarrow> Some (resume os rest)
           | Inr (p, None) \<Rightarrow> Some (resume os (p # rest))
           | Inr (p, Some None) \<Rightarrow> None
           | Inr (p, Some (Some (Inl OutOfBounds))) \<Rightarrow> Some (Inl OutOfBounds)
           | Inr (p, Some (Some (Inl e))) \<Rightarrow> Some (resume os (p # rest))
           | Inr (p, Some (Some (Inr (gone, c)))) \<Rightarrow>
               if gone then Some (resume os (p # rest)) else Some (Inr (c # p # rest))))"

text \<open>A session with the lines typed and the results of \<open>fork\<close>.\<close>

fun session :: "os \<Rightarrow> (int \<times> byte list) list \<Rightarrow> shell list \<Rightarrow> shell list result option" where
  "session os [] ss = Some (Inr ss)"
| "session os ((newpid, line) # lines) ss = pbind (session_line os newpid line ss) (session os lines)"

text \<open>The handler of the interrupt: whatever \<open>waitpid\<close> answers, the process ends.\<close>

definition sigHandler :: "os \<Rightarrow> shell \<Rightarrow> shell result" where
  "sigHandler os s = (let (r, s1) = waitpid os (pid s) s; s2 = s1\<lparr>wpid := r\<rparr> in Inl (Exited 1))"

subsection \<open>The job list of a process\<close>

definition same_jobs :: "shell \<Rightarrow> shell \<Rightarrow> bool" where
  "same_jobs s s' \<longleftrightarrow> heap s' = heap s \<and> brk s' = brk s \<and> head_job s' = head_job s \<and> current_job s' = current_job s"

lemma same_jobs_refl [simp]: "same_jobs s s"
  by (simp add: same_jobs_def)

lemma same_jobs_trans: "same_jobs s s1 \<Longrightarrow> same_jobs s1 s2 \<Longrightarrow> same_jobs s s2"
  by (simp add: same_jobs_def)

lemma same_jobs_update [simp]:
  "same_jobs s (s'\<lparr>pid := p\<rparr>) = same_jobs s s'" "same_jobs s (s'\<lparr>args := a\<rparr>) = same_jobs s s'"
  "same_jobs s (s'\<lparr>events := e\<rparr>) = same_jobs s s'" "same_jobs s (s'\<lparr>wpid := w\<rparr>) = same_jobs s s'"
  "same_jobs s (s'\<lparr>fds := t\<rparr>) = same_jobs s s'" "same_jobs s (s'\<lparr>dup_fd := d\<rparr>) = same_jobs s s'"
  "same_jobs s (s'\<lparr>cwd := c\<rparr>) = same_jobs s s'" "same_jobs s (show_msg m s') = same_jobs s s'"
  by (simp_all add: same_jobs_def show_msg_def)

lemma same_jobs_list: "same_jobs s s' \<Longrightarrow> jobs_at s as ps \<Longrightarrow> jobs_at s' as ps"
  by (simp add: same_jobs_def jobs_at_def)

lemma execvp_jobs: "execvp os s' = Inr (g, s'') \<Longrightarrow> same_jobs s s' \<Longrightarrow> same_jobs s s''"
  by (auto simp: execvp_def Let_def split: option.splits if_splits)

lemma chdir_jobs: "c_chdir os p s' = (r, s'') \<Longrightarrow> same_jobs s s' \<Longrightarrow> same_jobs s s''"
  by (auto simp: c_chdir_def split: option.splits)

lemma waitpid_jobs: "waitpid os p s' = (r, s'') \<Longrightarrow> same_jobs s s' \<Longrightarrow> same_jobs s s''"
  by (auto simp: waitpid_def)

text \<open>A builtin command returns and leaves the job list alone.\<close>

definition keeps_jobs :: "(os \<Rightarrow> shell \<Rightarrow> (bool \<times> shell) result option) \<Rightarrow> bool" where
  "keeps_jobs f \<longleftrightarrow> (\<forall>os s as ps. jobs_at s as ps \<longrightarrow>
     (\<exists>r. f os s = Some r \<and> (\<forall>g s'. r = Inr (g, s') \<longrightarrow> same_jobs s s')))"

lemma keeps_jobsI:
  assumes "\<And>os s as ps. jobs_at s as ps \<Longrightarrow> \<exists>r. f os s = Some r \<and> (\<forall>g s'. r = Inr (g, s') \<longrightarrow> same_jobs s s')"
  shows "keeps_jobs f"
  using assms by (simp add: keeps_jobs_def)

lemma buildin_cat_keeps: "keeps_jobs buildin_cat"
  by (rule keeps_jobsI) (auto simp: buildin_cat_def Let_def elim!: execvp_jobs split: option.splits prod.splits)

lemma buildin_cp_keeps: "keeps_jobs buildin_cp"
  by (rule keeps_jobsI) (auto simp: buildin_cp_def elim!: execvp_jobs)

lemma buildin_ls_keeps: "keeps_jobs buildin_ls"
  by (rule keeps_jobsI) (auto simp: buildin_ls_def elim!: execvp_jobs)

lemma buildin_jobs_keeps: "keeps_jobs buildin_jobs"
  by (rule keeps_jobsI) (auto simp: buildin_jobs_def printList_at)

lemma buildin_cd_keeps: "keeps_jobs buildin_cd"
  by (rule keeps_jobsI)
    (auto simp: buildin_cd_def Let_def elim!: chdir_jobs split: option.splits prod.splits if_splits)

lemma buildin_pwd_keeps: "keeps_jobs buildin_pwd"
  by (rule keeps_jobsI) (auto simp: buildin_pwd_def)

lemma buildin_exit_keeps: "keeps_jobs buildin_exit"
  by (rule keeps_jobsI) (auto simp: buildin_exit_def)

text \<open>What \<open>fg\<close> does, by the process of the job with the number asked for.\<close>

lemma buildin_fg_cases:
  assumes "jobs_at s as ps" and "args s ! 1 = Some arg" and "c_atoi (arg @ [0]) = Inr k"
  shows "buildin_fg os s =
    (if 1 \<le> k \<and> k \<le> int (length ps)
     then Some (Inr (False, show_msg (if wait_for os (ps ! nat (k - 1)) = None
         then SwitchedTo (ps ! nat (k - 1)) else InvalidNumber_fg)
       (snd (waitpid os (ps ! nat (k - 1)) (show_msg (SwitchingTo k) s)))))
     else Some (Inl NullDeref))"
proof -
  let ?s = "show_msg (SwitchingTo k) s"
  have at: "jobs_at ?s as ps" by (rule same_jobs_list [OF _ assms(1)]) simp
  show ?thesis
  proof (cases "1 \<le> k \<and> k \<le> int (length ps)")
    case True
    then have f: "find k ?s = Some (Inr (Some (as ! nat (k - 1))))" using find_job_at [OF at, of k] by simp
    obtain n where n: "heap ?s (as ! nat (k - 1)) = Some n" "node_pid n = ps ! nat (k - 1)"
      using job_process_at [OF at, of k] True f by (auto simp: job_process_def)
    show ?thesis using assms(2,3) True f n by (cases "wait_for os (ps ! nat (k - 1))") (simp_all add: buildin_fg_def Let_def waitpid_def)
  next
    case False
    then have "find k ?s = Some (Inr None)" using find_job_at [OF at, of k] by (simp only: if_False)
    then show ?thesis using assms(2,3) unfolding if_not_P [OF False] by (simp add: buildin_fg_def Let_def)
  qed
qed

lemma buildin_fg_keeps: "keeps_jobs buildin_fg"
proof (rule keeps_jobsI)
  fix os and s :: shell and as ps assume at: "jobs_at s as ps"
  show "\<exists>r. buildin_fg os s = Some r \<and> (\<forall>g s'. r = Inr (g, s') \<longrightarrow> same_jobs s s')"
  proof (cases "args s ! 1")
    case None
    then show ?thesis by (simp add: buildin_fg_def)
  next
    case (Some arg)
    show ?thesis
    proof (cases "c_atoi (arg @ [0])")
      case (Inl e)
      then show ?thesis using Some by (simp add: buildin_fg_def)
    next
      case (Inr k)
      show ?thesis using buildin_fg_cases [OF at Some Inr] by (auto simp: waitpid_def)
    qed
  qed
qed

lemma buildins_keep: "(str, f) \<in> set buildins \<Longrightarrow> keeps_jobs f"
  using buildin_cat_keeps buildin_cp_keeps buildin_ls_keeps buildin_jobs_keeps buildin_cd_keeps buildin_pwd_keeps
    buildin_exit_keeps buildin_fg_keeps
  by (auto simp: buildins_def)

lemma run_buildins_jobs:
  "jobs_at s as ps \<Longrightarrow> \<forall>(str, f) \<in> set fs. keeps_jobs f \<Longrightarrow>
   \<exists>r. run_buildins fs os s = Some r \<and> (\<forall>g s'. r = Inr (g, s') \<longrightarrow> same_jobs s s')"
proof (induction fs arbitrary: s)
  case Nil
  then show ?case by simp
next
  case (Cons sf fs)
  obtain str f where sf: "sf = (str, f)" by fastforce
  have rest: "\<forall>(str, f) \<in> set fs. keeps_jobs f" using Cons.prems(2) by auto
  have "keeps_jobs f" using Cons.prems(2) sf by simp
  then obtain r where r: "f os s = Some r" "\<forall>g s'. r = Inr (g, s') \<longrightarrow> same_jobs s s'"
    using Cons.prems(1) unfolding keeps_jobs_def by blast
  show ?case
  proof (cases r)
    case (Inl e)
    then show ?thesis using Cons.IH [OF Cons.prems(1) rest] r sf by (auto split: option.splits)
  next
    case (Inr gs)
    then obtain g s1 where gs: "r = Inr (g, s1)" by (cases gs) auto
    then have same: "same_jobs s s1" using r(2) by blast
    from Cons.IH [OF same_jobs_list [OF same Cons.prems(1)] rest]
    obtain r1 where "run_buildins fs os s1 = Some r1" "\<forall>g s'. r1 = Inr (g, s') \<longrightarrow> same_jobs s1 s'" by blast
    then show ?thesis using Cons.IH [OF Cons.prems(1) rest] r(1) gs sf same same_jobs_trans [OF same]
      by (auto split: option.splits)
  qed
qed

subsection \<open>Sessions\<close>

text \<open>Every process has a job list of at most \<open>n\<close> jobs.\<close>

definition has_jobs :: "nat \<Rightarrow> shell \<Rightarrow> bool" where
  "has_jobs n s \<longleftrightarrow> (\<exists>as ps. jobs_at s as ps \<and> length ps \<le> n)"

definition session_inv :: "nat \<Rightarrow> shell list \<Rightarrow> bool" where
  "session_inv n ss \<longleftrightarrow> (\<forall>s\<in>set ss. has_jobs n s)"

lemma session_inv_simps [simp]: "session_inv n []" "session_inv n (s # ss) \<longleftrightarrow> has_jobs n s \<and> session_inv n ss"
  by (simp_all add: session_inv_def)

lemma session_inv_mono: "session_inv n ss \<Longrightarrow> n \<le> m \<Longrightarrow> session_inv m ss"
  unfolding session_inv_def has_jobs_def by (meson le_trans)

lemma has_jobs_same: "same_jobs s s' \<Longrightarrow> has_jobs n s \<Longrightarrow> has_jobs n s'"
  using same_jobs_list unfolding has_jobs_def by blast

lemma reap_jobs:
  assumes "jobs_at s as ps" and "length ps < 2147483647"
  shows "\<exists>s' as'. reap os s = Inr s' \<and> jobs_at s' as' (ps @ [pid s]) \<and> cwd s' = cwd s \<and> fds s' = fds s \<and> pid s' = pid s"
proof -
  let ?w = "waitpid os (pid s) s"
  let ?s = "show_msg (NowPid (pid s)) ((snd ?w)\<lparr>wpid := fst ?w\<rparr>)"
  have "same_jobs s ?s" by (simp add: waitpid_def)
  from add_job_jobs [OF same_jobs_list [OF this assms(1)] assms(2)]
  obtain s' where s': "add_job (pid s) ?s = Inr s'" "jobs_at s' (as @ [brk ?s]) (ps @ [pid s])"
    and frame: "s' = ?s\<lparr>heap := heap s', brk := brk s', head_job := head_job s', current_job := current_job s'\<rparr>" by blast
  have "cwd s' = cwd s" "fds s' = fds s" "pid s' = pid s"
    by (subst frame; simp add: show_msg_def waitpid_def)+
  then show ?thesis using s'(1,2) by (auto simp: reap_def split_beta)
qed

lemma resume_inv:
  assumes "session_inv n ss" and "n < 2147483647"
  shows "\<exists>ss'. resume os ss = Inr ss' \<and> session_inv (Suc n) ss' \<and> length ss' = length ss"
proof (cases ss)
  case (Cons s rest)
  then obtain as ps where j: "jobs_at s as ps" "length ps \<le> n" using assms(1) by (auto simp: has_jobs_def)
  then obtain s' as' where s': "reap os s = Inr s'" "jobs_at s' as' (ps @ [pid s])"
    using reap_jobs [OF j(1)] assms(2) by force
  moreover have "has_jobs (Suc n) s'" using s'(2) j(2) unfolding has_jobs_def by fastforce
  ultimately show ?thesis using Cons assms(1) session_inv_mono [of n rest "Suc n"] by simp
qed simp

text \<open>The words of a line and the array they fill.\<close>

definition line_of :: "byte list list \<Rightarrow> byte list \<Rightarrow> bool" where
  "line_of ws line \<longleftrightarrow> line \<noteq> [] \<and> 0 \<notin> set line \<and> words (amp_to_space line) = ws \<and> length ws \<le> 20"

definition argv_of :: "byte list list \<Rightarrow> arg_array" where
  "argv_of ws = map Some ws @ replicate (20 - length ws) None"

lemma getcmd_line: "line_of ws line \<Longrightarrow> getcmd line (replicate 20 None) = Inr (length ws, argv_of ws, 38 \<in> set line)"
  using getcmd_words_eq [of line] by (auto simp: line_of_def argv_of_def Let_def)

lemma argv_of_nth: "length ws \<le> 20 \<Longrightarrow> i < 20 \<Longrightarrow> argv_of ws ! i = (if i < length ws then Some (ws ! i) else None)"
  by (auto simp: argv_of_def nth_append)

lemma argv_of_all:
  assumes "length ws < 20"
  shows "None \<in> set (argv_of ws)" and "map the (takeWhile (\<lambda>a. a \<noteq> None) (argv_of ws)) = ws"
proof -
  obtain k where "20 - length ws = Suc k" using assms by (cases "20 - length ws") auto
  then have "argv_of ws = map Some ws @ None # replicate k None" by (simp add: argv_of_def)
  moreover have "takeWhile (\<lambda>a. a \<noteq> None) (map Some ws @ None # replicate k None) = map Some ws"
    by (induction ws) auto
  ultimately show "None \<in> set (argv_of ws)" "map the (takeWhile (\<lambda>a. a \<noteq> None) (argv_of ws)) = ws"
    by (simp_all only: list.map_comp comp_def option.sel list.map_ident) simp
qed

lemma execvp_argv:
  assumes "args t = argv_of (w # ws)" and "length (w # ws) < 20"
  shows "execvp os t =
    (if exec_ok os w (w # ws) then Inr (True, t\<lparr>events := events t @ [Exec w (w # ws)]\<rparr>) else Inr (False, t))"
proof -
  have "argv_of (w # ws) ! 0 = Some w" by (simp add: argv_of_def)
  then show ?thesis using argv_of_all [OF assms(2)] unfolding execvp_def assms(1) by (simp only: option.case Let_def simp_thms if_False)
qed

text \<open>Which entry of the table of builtin commands the child runs.\<close>

lemma run_buildins_none: "args s ! 0 = Some w \<Longrightarrow> w \<notin> fst ` set fs \<Longrightarrow> run_buildins fs os s = Some (Inr (False, s))"
  by (induction fs) auto

lemma run_buildins_at:
  assumes "args s ! 0 = Some w" and "w \<notin> fst ` set pre"
  shows "run_buildins (pre @ (w, f) # post) os s =
    pbind (f os s) (\<lambda>(gone, s1). if gone then Some (Inr (True, s1)) else run_buildins post os s1)"
  using assms by (induction pre) auto

lemma buildin_unique:
  assumes "(w, f) \<in> set buildins"
  obtains pre post where "buildins = pre @ (w, f) # post" "w \<notin> fst ` set pre" "w \<notin> fst ` set post"
proof -
  have d: "distinct (map fst buildins)" by (simp add: buildins_def bytes_of_def)
  obtain pre post where split: "buildins = pre @ (w, f) # post" using split_list [OF assms] by blast
  have "distinct (map fst pre @ w # map fst post)" using d unfolding split by simp
  then have "w \<notin> set (map fst pre)" "w \<notin> set (map fst post)" by simp_all
  then have "w \<notin> fst ` set pre" "w \<notin> fst ` set post" by (simp_all only: set_map not_False_eq_True)
  then show thesis using that split by blast
qed

lemma buildin_run:
  assumes "(w, f) \<in> set buildins" and "args s ! 0 = Some w" and "f os s = Some (Inr (g, s1))" and "g \<or> args s1 ! 0 = Some w"
  shows "run_buildins buildins os s = Some (Inr (g, s1))"
proof -
  obtain pre post where sp: "buildins = pre @ (w, f) # post" "w \<notin> fst ` set pre" "w \<notin> fst ` set post"
    using buildin_unique [OF assms(1)] .
  have "run_buildins buildins os s = pbind (f os s) (\<lambda>(gone, s1). if gone then Some (Inr (True, s1)) else run_buildins post os s1)"
    unfolding sp(1) by (rule run_buildins_at [OF assms(2) sp(2)])
  then show ?thesis using assms(3,4) run_buildins_none [OF _ sp(3)] by (cases g) auto
qed

lemma buildin_fails:
  assumes "(w, f) \<in> set buildins" and "args s ! 0 = Some w" and "f os s = Some (Inl e)"
  shows "run_buildins buildins os s = Some (Inl e)"
proof -
  obtain pre post where sp: "buildins = pre @ (w, f) # post" "w \<notin> fst ` set pre"
    using buildin_unique [OF assms(1)] .
  show ?thesis unfolding sp(1) run_buildins_at [OF assms(2) sp(2)] by (simp add: assms(3))
qed

lemma shell_round_child:
  assumes "line_of (w # ws) line" and "w \<noteq> bytes_of ''exit''" and "newpid \<noteq> -1"
  shows "shell_round os newpid line s = Inr (s\<lparr>args := argv_of (w # ws), pid := newpid\<rparr>,
    Some (run_buildins buildins os (s\<lparr>args := argv_of (w # ws), pid := 0\<rparr>)))"
proof -
  have "argv_of (w # ws) ! 0 = Some w" by (simp add: argv_of_def)
  then show ?thesis using assms getcmd_line [OF assms(1)] by (simp add: shell_round_def Let_def)
qed

lemma shell_round_cases:
  assumes "has_jobs n s"
  shows "(\<exists>e. shell_round os newpid line s = Inl e) \<or>
    (\<exists>p. shell_round os newpid line s = Inr (p, None) \<and> has_jobs n p) \<or>
    (\<exists>p r. shell_round os newpid line s = Inr (p, Some (Some r)) \<and> has_jobs n p \<and>
      (\<forall>g c. r = Inr (g, c) \<longrightarrow> has_jobs n c))"
proof (cases "\<exists>e. shell_round os newpid line s = Inl e")
  case False
  then obtain cnt as bg w where g: "getcmd line (replicate 20 None) = Inr (cnt, as, bg)" "as ! 0 = Some w" "w \<noteq> bytes_of ''exit''"
    by (cases "getcmd line (replicate 20 None)") (auto simp: shell_round_def Let_def split: option.splits if_splits)
  let ?s1 = "s\<lparr>args := as\<rparr>"
  have ok: "has_jobs n (?s1\<lparr>pid := q\<rparr>)" for q by (rule has_jobs_same [OF _ assms]) simp
  obtain r where r: "run_buildins buildins os (?s1\<lparr>pid := 0\<rparr>) = Some r"
    "\<forall>g c. r = Inr (g, c) \<longrightarrow> same_jobs (?s1\<lparr>pid := 0\<rparr>) c"
    using run_buildins_jobs [of "?s1\<lparr>pid := 0\<rparr>" _ _ buildins os] ok [of 0] buildins_keep unfolding has_jobs_def by blast
  then have "\<forall>g c. r = Inr (g, c) \<longrightarrow> has_jobs n c" using has_jobs_same ok by blast
  then show ?thesis using g r(1) ok by (auto simp: shell_round_def Let_def)
qed simp

lemma session_line_total:
  assumes "session_inv n ss" and "n < 2147483647"
  shows "session_line os newpid line ss = Some (Inl OutOfBounds) \<or>
    (\<exists>ss'. session_line os newpid line ss = Some (Inr ss') \<and> session_inv (Suc n) ss' \<and> length ss' \<le> Suc (length ss))"
proof (cases ss)
  case Nil
  then show ?thesis by (simp add: session_line_def)
next
  case (Cons s rest)
  then have s: "has_jobs n s" and rest: "session_inv n rest" using assms(1) by simp_all
  have dead: "\<exists>ss'. resume os rest = Inr ss' \<and> session_inv (Suc n) ss' \<and> length ss' \<le> Suc (length ss)"
    using resume_inv [OF rest assms(2), of os] Cons by auto
  have reaped: "\<exists>ss'. resume os (p # rest) = Inr ss' \<and> session_inv (Suc n) ss' \<and> length ss' \<le> Suc (length ss)" if "has_jobs n p" for p
    using resume_inv [of n "p # rest" os] rest that assms(2) Cons by auto
  have grown: "session_inv (Suc n) (c # p # rest)" if "has_jobs n c" "has_jobs n p" for c p
    using session_inv_mono [of n "c # p # rest" "Suc n"] that rest by simp
  from shell_round_cases [OF s, of os newpid line] consider
      (stop) e where "shell_round os newpid line s = Inl e"
    | (no_child) p where "shell_round os newpid line s = Inr (p, None)" "has_jobs n p"
    | (child) p r where "shell_round os newpid line s = Inr (p, Some (Some r))" "has_jobs n p"
        "\<forall>g c. r = Inr (g, c) \<longrightarrow> has_jobs n c" by blast
  then show ?thesis
  proof cases
    case stop
    then show ?thesis using dead Cons by (cases e) (simp_all add: session_line_def)
  next
    case no_child
    then show ?thesis using reaped Cons by (simp add: session_line_def)
  next
    case child
    show ?thesis
    proof (cases r)
      case (Inl e)
      then show ?thesis using child reaped Cons by (cases e) (simp_all add: session_line_def)
    next
      case (Inr gc)
      obtain g c where gc: "gc = (g, c)" by fastforce
      then have c: "has_jobs n c" using child(3) Inr by blast
      show ?thesis
        using child(1) reaped [OF child(2)] grown [OF c child(2)] Cons Inr gc by (cases g) (simp_all add: session_line_def)
    qed
  qed
qed

lemma session_ends:
  assumes "session_inv n ss" and "n + length lines < 2147483648"
  shows "session os lines ss = Some (Inl OutOfBounds) \<or>
    (\<exists>ss'. session os lines ss = Some (Inr ss') \<and> session_inv (n + length lines) ss' \<and>
      length ss' \<le> length ss + length lines)"
  using assms
proof (induction lines arbitrary: n ss)
  case (Cons pl lines)
  obtain newpid line where pl: "pl = (newpid, line)" by fastforce
  have "n < 2147483647" using Cons.prems(2) by simp
  from session_line_total [OF Cons.prems(1) this, of os newpid line]
  show ?case
  proof (elim disjE exE conjE)
    fix ss1 assume s1: "session_line os newpid line ss = Some (Inr ss1)" "session_inv (Suc n) ss1" "length ss1 \<le> Suc (length ss)"
    have "Suc n + length lines < 2147483648" using Cons.prems(2) by simp
    from Cons.IH [OF s1(2) this] s1(1,3) pl show ?case by auto
  qed (simp add: pl)
qed simp

subsection \<open>Properties\<close>

text \<open>A shell that has just started, and the system it runs on.\<close>

definition demo_os :: os where
  "demo_os = \<lparr>exec_ok = (\<lambda>f a. True), open_ok = (\<lambda>f. True), chdir_to = (\<lambda>d p. Some p), wait_for = (\<lambda>p. Some (nat p)), home_dir = None\<rparr>"

definition demo_shell :: shell where
  "demo_shell = \<lparr>unk = sconst 0, heap = Map.empty, brk = 0, head_job = None, current_job = None, wpid = -1, pid = -1,
     args = replicate 20 None, fds = [Some [116], Some [116], Some [116]], dup_fd = 0, cwd = [47], shown = [], events = []\<rparr>"

lemma demo_shell_jobs: "jobs_at demo_shell [] []"
  by (simp add: demo_shell_def jobs_at_def numbered_def)

text \<open>C34: A command that is no builtin is never executed, and its child does not end: the terminal is
  then read by a copy of the shell with the process number 0 as \<open>pid\<close>, and the old shell waits behind it.\<close>

theorem unknown_command_nests:
  assumes "line_of (w # ws) line" and "w \<notin> fst ` set buildins" and "newpid \<noteq> -1"
  shows "session_line os newpid line (s # rest) =
    Some (Inr (s\<lparr>args := argv_of (w # ws), pid := 0\<rparr> # s\<lparr>args := argv_of (w # ws), pid := newpid\<rparr> # rest))"
proof -
  let ?c = "s\<lparr>args := argv_of (w # ws), pid := 0\<rparr>"
  have ne: "w \<noteq> bytes_of ''exit''" using assms(2) by (auto simp: buildins_def)
  have "args ?c ! 0 = Some w" by (simp add: argv_of_def)
  then have "run_buildins buildins os ?c = Some (Inr (False, ?c))" using run_buildins_none assms(2) by blast
  then show ?thesis using shell_round_child [OF assms(1) ne assms(3)] by (simp add: session_line_def)
qed

theorem unknown_command_nests_witness:
  "\<exists>c p. session_line demo_os 7 (bytes_of ''vi a'' @ [10]) [demo_shell] = Some (Inr [c, p]) \<and> pid c = 0 \<and> pid p = 7 \<and> events c = []"
proof -
  have l: "line_of [bytes_of ''vi'', bytes_of ''a''] (bytes_of ''vi a'' @ [10])"
    unfolding line_of_def by code_simp
  have n: "bytes_of ''vi'' \<notin> fst ` set buildins" by (simp add: buildins_def bytes_of_def)
  show ?thesis using unknown_command_nests [OF l n, of 7 demo_os demo_shell "[]"] by (simp add: demo_shell_def)
qed

text \<open>C33: \<open>ls\<close> and \<open>cp\<close> are executed with exactly the words of the line, the shell reads the next line
  in the same directory with the same descriptors, and its job list has the process as one more job.\<close>

theorem external_command:
  assumes "line_of (w # ws) line" and "w = bytes_of ''ls'' \<or> w = bytes_of ''cp''" and "length (w # ws) < 20"
    and "exec_ok os w (w # ws)" and "newpid \<noteq> -1" and "jobs_at s as ps" and "length ps < 2147483647"
  shows "(\<exists>p as'. session_line os newpid line (s # rest) = Some (Inr (p # rest)) \<and> jobs_at p as' (ps @ [newpid]) \<and>
      cwd p = cwd s \<and> fds p = fds s) \<and>
    (\<exists>c. run_buildins buildins os (s\<lparr>args := argv_of (w # ws), pid := 0\<rparr>) = Some (Inr (True, c)) \<and>
      events c = events s @ [Exec w (w # ws)])"
proof -
  let ?c = "s\<lparr>args := argv_of (w # ws), pid := 0\<rparr>" and ?p = "s\<lparr>args := argv_of (w # ws), pid := newpid\<rparr>"
  have ne: "w \<noteq> bytes_of ''exit''" using assms(2) by (auto simp: bytes_of_def)
  have w0: "args ?c ! 0 = Some w" by (simp add: argv_of_def)
  have ex: "execvp os t = Inr (True, t\<lparr>events := events t @ [Exec w (w # ws)]\<rparr>)" if "args t = argv_of (w # ws)" for t
    using execvp_argv [OF that assms(3)] assms(4) by simp
  consider "w = bytes_of ''ls''" "(w, buildin_ls) \<in> set buildins" | "w = bytes_of ''cp''" "(w, buildin_cp) \<in> set buildins"
    using assms(2) by (auto simp: buildins_def)
  then obtain c where c: "run_buildins buildins os ?c = Some (Inr (True, c))" "events c = events s @ [Exec w (w # ws)]"
  proof cases
    case 1
    have "buildin_ls os ?c = Some (Inr (True, ?c\<lparr>events := events s @ [Exec w (w # ws)]\<rparr>))"
      using ex [of ?c] by (simp add: buildin_ls_def)
    then show ?thesis using that buildin_run [OF 1(2) w0] by simp
  next
    case 2
    let ?t = "show_msg CpRun ?c"
    have "buildin_cp os ?c = Some (Inr (True, ?t\<lparr>events := events s @ [Exec w (w # ws)]\<rparr>))"
      using ex [of ?t] by (simp add: buildin_cp_def show_msg_def)
    then show ?thesis using that buildin_run [OF 2(2) w0] by simp
  qed
  obtain p as' where p: "reap os ?p = Inr p" "jobs_at p as' (ps @ [newpid])" "cwd p = cwd s" "fds p = fds s"
    using reap_jobs [OF same_jobs_list [of s ?p, OF _ assms(6)] assms(7), of os] by auto
  then show ?thesis using shell_round_child [OF assms(1) ne assms(5)] c by (auto simp: session_line_def)
qed

theorem external_command_witness:
  "\<exists>p as'. session_line demo_os 7 (bytes_of ''ls -l'' @ [10]) [demo_shell] = Some (Inr [p]) \<and> jobs_at p as' [7] \<and>
    cwd p = cwd demo_shell \<and> fds p = fds demo_shell"
proof -
  have l: "line_of [bytes_of ''ls'', bytes_of ''-l''] (bytes_of ''ls -l'' @ [10])"
    unfolding line_of_def by code_simp
  show ?thesis
    using external_command [OF l _ _ _ _ demo_shell_jobs, of demo_os 7 "[]"] by (simp add: demo_os_def)
qed

text \<open>\<open>cd\<close> changes the directory of the child only: the shell that reads the next lines is in the new
  directory, and \<open>exit\<close> there brings back the old shell in the old directory.\<close>

theorem cd_is_local:
  assumes "line_of [bytes_of ''cd'', path] line" and "chdir_to os (cwd s) path = Some d" and "newpid \<noteq> -1"
    and "line_of [bytes_of ''exit''] line2" and "jobs_at s as ps" and "length ps < 2147483647"
  shows "\<exists>c p. session_line os newpid line (s # rest) = Some (Inr (c # p # rest)) \<and> cwd c = d \<and>
    (\<exists>p'. session_line os newpid2 line2 (c # p # rest) = Some (Inr (p' # rest)) \<and> cwd p' = cwd s)"
proof -
  let ?ws = "[bytes_of ''cd'', path]"
  let ?c = "s\<lparr>args := argv_of ?ws, pid := 0\<rparr>" and ?p = "s\<lparr>args := argv_of ?ws, pid := newpid\<rparr>"
  have a: "args ?c ! 0 = Some (bytes_of ''cd'')" "args ?c ! 1 = Some path" by (simp_all add: argv_of_def)
  have run: "buildin_cd os ?c = Some (Inr (False, ?c\<lparr>cwd := d\<rparr>))"
    using a(2) assms(2) by (simp add: buildin_cd_def c_chdir_def)
  have "(bytes_of ''cd'', buildin_cd) \<in> set buildins" by (simp add: buildins_def)
  then have c: "run_buildins buildins os ?c = Some (Inr (False, ?c\<lparr>cwd := d\<rparr>))"
    using buildin_run [where f = buildin_cd, OF _ a(1) run] a(1) by simp
  have "bytes_of ''cd'' \<noteq> bytes_of ''exit''" by (simp add: bytes_of_def)
  then have 1: "session_line os newpid line (s # rest) = Some (Inr (?c\<lparr>cwd := d\<rparr> # ?p # rest))"
    using shell_round_child [OF assms(1) _ assms(3)] c by (simp add: session_line_def)
  obtain p' as' where p': "reap os ?p = Inr p'" "cwd p' = cwd s"
    using reap_jobs [OF same_jobs_list [of s ?p, OF _ assms(5)] assms(6), of os] by auto
  have "shell_round os newpid2 line2 (?c\<lparr>cwd := d\<rparr>) = Inl (Exited (-1))"
    using getcmd_line [OF assms(4)] by (simp add: shell_round_def argv_of_def)
  then have "session_line os newpid2 line2 (?c\<lparr>cwd := d\<rparr> # ?p # rest) = Some (Inr (p' # rest))"
    using p'(1) by (simp add: session_line_def)
  then show ?thesis using 1 p'(2) by (intro exI [of _ "?c\<lparr>cwd := d\<rparr>"] exI [of _ ?p] conjI exI [of _ p']) simp_all
qed

theorem cd_is_local_witness:
  "\<exists>c p. session_line demo_os 7 (bytes_of ''cd tmp'' @ [10]) [demo_shell] = Some (Inr [c, p]) \<and> cwd c = bytes_of ''tmp'' \<and>
    (\<exists>p'. session_line demo_os 8 (bytes_of ''exit'' @ [10]) [c, p] = Some (Inr [p']) \<and> cwd p' = cwd demo_shell)"
proof -
  have l: "line_of [bytes_of ''cd'', bytes_of ''tmp''] (bytes_of ''cd tmp'' @ [10])" "line_of [bytes_of ''exit''] (bytes_of ''exit'' @ [10])"
    unfolding line_of_def by code_simp+
  have d: "chdir_to demo_os (cwd demo_shell) (bytes_of ''tmp'') = Some (bytes_of ''tmp'')" by (simp add: demo_os_def)
  show ?thesis using cd_is_local [OF l(1) d _ l(2) demo_shell_jobs, of 7 "[]" 8] by simp
qed

text \<open>A line without words ends the shell that reads it: \<open>main\<close> compares the missing first word with
  \<open>exit\<close>. The process in front is gone and the one waiting behind it goes on.\<close>

theorem blank_line_crash:
  assumes "line_of [] line"
  shows "shell_round os newpid line s = Inl NullDeref \<and>
    session_line os newpid line (s # rest) = Some (resume os rest)"
  using getcmd_line [OF assms] by (simp add: shell_round_def session_line_def argv_of_def)

theorem blank_line_crash_witness:
  "shell_round demo_os 7 [32, 10] demo_shell = Inl NullDeref \<and> session_line demo_os 7 [32, 10] [demo_shell] = Some (Inr [])"
proof -
  have "line_of [] [32, 10]" unfolding line_of_def by code_simp
  then show ?thesis using blank_line_crash [of "[32, 10]" demo_os 7 demo_shell "[]"] by simp
qed

text \<open>C39: \<open>fg\<close> with the number of a job waits for the process of that job and shows the message for
  success when the wait has failed and the one for a wrong number when it has not; the child goes on as a shell. With any
  other number the child dereferences the \<open>NULL\<close> that \<open>find\<close> returns, and the old shell goes on.\<close>

theorem fg_looks_up_job:
  assumes "line_of [bytes_of ''fg'', arg] line" and "c_atoi (arg @ [0]) = Inr k" and "newpid \<noteq> -1" and "jobs_at s as ps"
  shows "let p = s\<lparr>args := argv_of [bytes_of ''fg'', arg], pid := newpid\<rparr>; job = ps ! nat (k - 1) in
    if 1 \<le> k \<and> k \<le> int (length ps)
    then \<exists>c. session_line os newpid line (s # rest) = Some (Inr (c # p # rest)) \<and> pid c = 0 \<and> same_jobs s c \<and>
      events c = events s @ [Wait job] \<and>
      shown c = shown s @ [SwitchingTo k, if wait_for os job = None then SwitchedTo job else InvalidNumber_fg]
    else shell_round os newpid line s = Inr (p, Some (Some (Inl NullDeref))) \<and>
      session_line os newpid line (s # rest) = Some (resume os (p # rest))"
proof -
  let ?ws = "[bytes_of ''fg'', arg]"
  let ?c = "s\<lparr>args := argv_of ?ws, pid := 0\<rparr>" and ?p = "s\<lparr>args := argv_of ?ws, pid := newpid\<rparr>"
  have a: "args ?c ! 0 = Some (bytes_of ''fg'')" "args ?c ! 1 = Some arg" by (simp_all add: argv_of_def)
  have mem: "(bytes_of ''fg'', buildin_fg) \<in> set buildins" by (simp add: buildins_def)
  have at: "jobs_at ?c as ps" by (rule same_jobs_list [OF _ assms(4)]) simp
  have ne: "bytes_of ''fg'' \<noteq> bytes_of ''exit''" by (simp add: bytes_of_def)
  note fg = buildin_fg_cases [OF at a(2) assms(2), of os]
  show ?thesis
  proof (cases "1 \<le> k \<and> k \<le> int (length ps)")
    case True
    let ?m = "if wait_for os (ps ! nat (k - 1)) = None then SwitchedTo (ps ! nat (k - 1)) else InvalidNumber_fg"
    let ?c1 = "show_msg ?m (snd (waitpid os (ps ! nat (k - 1)) (show_msg (SwitchingTo k) ?c)))"
    have m: "buildin_fg os ?c = Some (Inr (False, ?c1))" using fg unfolding if_P [OF True] .
    have c1: "args ?c1 = args ?c" "events ?c1 = events s @ [Wait (ps ! nat (k - 1))]" "pid ?c1 = 0" "same_jobs s ?c1"
      "shown ?c1 = shown s @ [SwitchingTo k, ?m]"
      by (simp_all add: show_msg_def waitpid_def same_jobs_def)
    have "run_buildins buildins os ?c = Some (Inr (False, ?c1))"
      using buildin_run [where f = buildin_fg, OF mem a(1) m] a(1) unfolding c1 by blast
    then have "session_line os newpid line (s # rest) = Some (Inr (?c1 # ?p # rest))"
      using shell_round_child [OF assms(1) ne assms(3)] by (simp add: session_line_def)
    then show ?thesis using c1(2-5) unfolding Let_def if_P [OF True] by blast
  next
    case False
    have "buildin_fg os ?c = Some (Inl NullDeref)" using fg by (simp only: False if_False)
    then have "run_buildins buildins os ?c = Some (Inl NullDeref)"
      using buildin_fails [where f = buildin_fg, OF mem a(1)] by blast
    then have r: "shell_round os newpid line s = Inr (?p, Some (Some (Inl NullDeref)))"
      using shell_round_child [OF assms(1) ne assms(3)] by simp
    then have "session_line os newpid line (s # rest) = Some (resume os (?p # rest))" by (simp add: session_line_def)
    then show ?thesis using r unfolding Let_def if_not_P [OF False] by blast
  qed
qed

text \<open>A shell with one job, the process 7, and one without jobs.\<close>

theorem fg_looks_up_job_witness:
  "(\<exists>s1 c p. add_job 7 demo_shell = Inr s1 \<and> session_line demo_os 9 (bytes_of ''fg 1'' @ [10]) [s1] = Some (Inr [c, p]) \<and>
     events c = [Wait 7] \<and> shown c = [SwitchingTo 1, InvalidNumber_fg]) \<and>
   (\<exists>p. shell_round demo_os 9 (bytes_of ''fg 1'' @ [10]) demo_shell = Inr (p, Some (Some (Inl NullDeref))))"
proof -
  have l: "line_of [bytes_of ''fg'', bytes_of ''1''] (bytes_of ''fg 1'' @ [10])" unfolding line_of_def by code_simp
  have k: "c_atoi (bytes_of ''1'' @ [0]) = Inr 1" by code_simp
  obtain s1 where s1: "add_job 7 demo_shell = Inr s1" "jobs_at s1 [0] [7]"
    "s1 = demo_shell\<lparr>heap := heap s1, brk := brk s1, head_job := head_job s1, current_job := current_job s1\<rparr>"
    using add_job_jobs [OF demo_shell_jobs, of 7] by (auto simp: demo_shell_def)
  have "events s1 = []" "shown s1 = []" by (subst s1(3); simp add: demo_shell_def)+
  then show ?thesis
    using s1(1) fg_looks_up_job [OF l k _ s1(2), of 9 demo_os "[]"] fg_looks_up_job [OF l k _ demo_shell_jobs, of 9 demo_os "[]"]
    by (auto simp: Let_def demo_os_def)
qed

text \<open>Any third word makes \<open>cat\<close> redirect its output: the fourth word is the file that becomes descriptor 1,
  and the program gets the first two words only. Without a fourth word, as in \<open>cat a b\<close>, or with
  one that cannot be opened, the program runs with its standard output closed.\<close>

theorem cat_redirects:
  assumes "exec_ok os (bytes_of ''cat'') [bytes_of ''cat'', f]" and "fd_get 0 (fds s) \<noteq> None" and "fd_get 1 (fds s) \<noteq> None"
    and "args s = argv_of (bytes_of ''cat'' # f # g # out)" and "out = [] \<or> out = [x]"
  shows "\<exists>c. run_buildins buildins os s = Some (Inr (True, c)) \<and>
    events c = events s @ [Exec (bytes_of ''cat'') [bytes_of ''cat'', f]] \<and>
    fd_get 1 (fds c) = (if out = [x] \<and> open_ok os x then Some x else None)"
proof -
  let ?file = "if out = [x] \<and> open_ok os x then Some x else None"
  have a: "args s ! 0 = Some (bytes_of ''cat'')" "args s ! 2 = Some g" "args s ! 3 = (if out = [x] then Some x else None)"
    using assms(5) unfolding assms(4) by (auto simp: argv_of_def nth_append)
  have opened: "(case args s ! 3 of None \<Rightarrow> None | Some f \<Rightarrow> if open_ok os f then Some f else None) = ?file" using a(3) by simp
  have low: "\<forall>m\<le>1. fd_get (int m) (fds s) \<noteq> None" using assms(2,3) by (auto simp: le_Suc_eq)
  obtain fd d t where t: "redirect_fd 1 ?file (fds s) = (fd, d, t)" "fd_get 1 t = ?file"
  proof (cases ?file)
    case None
    then show ?thesis using that redirect_fd_fails [of 1 "fds s"] assms(3) by (auto simp: fd_get_put)
  next
    case (Some y)
    then show ?thesis using that redirect_fd_ok [OF low, of y] by auto
  qed
  let ?s1 = "show_msg CatRun (show_msg Redirected (s\<lparr>fds := t, dup_fd := d, args := (args s)[2 := None, 3 := None]\<rparr>))"
  have "args ?s1 = argv_of [bytes_of ''cat'', f]"
    using assms(5) unfolding show_msg_def assms(4) by (auto simp: argv_of_def eval_nat_numeral)
  then have "execvp os ?s1 = Inr (True, ?s1\<lparr>events := events s @ [Exec (bytes_of ''cat'') [bytes_of ''cat'', f]]\<rparr>)"
    using execvp_argv [of ?s1 "bytes_of ''cat''" "[f]" os] assms(1) by (simp add: show_msg_def)
  then have run: "buildin_cat os s = Some (Inr (True, ?s1\<lparr>events := events s @ [Exec (bytes_of ''cat'') [bytes_of ''cat'', f]]\<rparr>))"
    unfolding buildin_cat_def opened a(2) using t(1) by simp
  have "(bytes_of ''cat'', buildin_cat) \<in> set buildins" by (simp add: buildins_def)
  from buildin_run [where f = buildin_cat, OF this a(1) run] show ?thesis using t(2) by (simp add: show_msg_def)
qed

theorem cat_redirects_witness:
  "\<exists>c. run_buildins buildins demo_os (demo_shell\<lparr>args := argv_of (bytes_of ''cat'' # bytes_of ''a'' # bytes_of ''b'' # [])\<rparr>) = Some (Inr (True, c)) \<and>
    fd_get 1 (fds c) = None"
  using cat_redirects [of demo_os "bytes_of ''a''" "demo_shell\<lparr>args := argv_of (bytes_of ''cat'' # bytes_of ''a'' # bytes_of ''b'' # [])\<rparr>" "bytes_of ''b''" "[]" "[]"]
  by (auto simp: demo_os_def demo_shell_def fd_get_def)

end
