(* ===== verification/Shell_Session.thy ===== *)
theory Shell_Session
  imports Shell
begin

text \<open>
  What a session of \<^verbatim>\<open>A_simple_shell/main.c\<close> is: a stack of shells, of which the first reads the
  terminal and each of the others waits for the one in front of it. An abstract shell is a process number (the
  variable \<open>pid\<close>), a directory and a list of jobs. The lemmas show which lines end a shell, which make a job and
  which put a new shell on the stack, and that the session of the code does exactly that, for every
  sequence of lines and every result of \<open>fork\<close>.
\<close>

subsection \<open>The abstract session\<close>

record ashell =
  apid :: int
  adir :: "byte list"
  ajobs :: "int list"

text \<open>The words of whatever \<open>getline\<close> has read; the string ends at the first NUL.\<close>

definition words_of :: "byte list \<Rightarrow> byte list list" where
  "words_of line = words (amp_to_space (cstr (line @ [0])))"

text \<open>The words that a program started by a builtin command gets.\<close>

definition program_args :: "byte list list \<Rightarrow> byte list list" where
  "program_args ws = (if hd ws = bytes_of ''cat'' \<and> 2 < length ws then take 2 ws else ws)"

definition job_asked :: "byte list \<Rightarrow> int" where
  "job_asked arg = (case c_atoi (arg @ [0]) of Inl e \<Rightarrow> 0 | Inr k \<Rightarrow> k)"

text \<open>Whether the child of a line is gone afterwards: it has become another program, or it has crashed.\<close>

definition child_gone :: "os \<Rightarrow> int list \<Rightarrow> byte list list \<Rightarrow> bool" where
  "child_gone os ps ws \<longleftrightarrow>
     (if hd ws \<in> {bytes_of ''ls'', bytes_of ''cp'', bytes_of ''cat''} then exec_ok os (hd ws) (program_args ws)
      else hd ws = bytes_of ''fg'' \<and> 1 < length ws \<and> \<not> (1 \<le> job_asked (ws ! 1) \<and> job_asked (ws ! 1) \<le> int (length ps)))"

definition new_dir :: "os \<Rightarrow> byte list \<Rightarrow> byte list list \<Rightarrow> byte list" where
  "new_dir os d ws =
     (if hd ws \<noteq> bytes_of ''cd'' then d
      else case if 1 < length ws then Some (ws ! 1) else home_dir os of None \<Rightarrow> d
        | Some p \<Rightarrow> (case chdir_to os d p of None \<Rightarrow> d | Some d' \<Rightarrow> d'))"

text \<open>The shell that was waiting has one more job.\<close>

fun aresume :: "ashell list \<Rightarrow> ashell list" where
  "aresume [] = []"
| "aresume (a # as) = a\<lparr>ajobs := ajobs a @ [apid a]\<rparr> # as"

text \<open>One line. The array of arguments overflows, or \<open>execvp\<close> reads behind it when it is full.\<close>

fun asession_line :: "os \<Rightarrow> int \<Rightarrow> byte list \<Rightarrow> ashell list \<Rightarrow> ashell list result" where
  "asession_line os newpid line [] = Inr []"
| "asession_line os newpid line (a # as) =
     (let ws = words_of line in
      if 20 < length ws then Inl OutOfBounds
      else if ws = [] \<or> hd ws = bytes_of ''exit'' then Inr (aresume as)
      else if newpid = -1 then Inr (aresume (a\<lparr>apid := -1\<rparr> # as))
      else if length ws = 20 \<and> hd ws \<in> {bytes_of ''ls'', bytes_of ''cp''} then Inl OutOfBounds
      else if child_gone os (ajobs a) ws then Inr (aresume (a\<lparr>apid := newpid\<rparr> # as))
      else Inr (a\<lparr>apid := 0, adir := new_dir os (adir a) ws\<rparr> # a\<lparr>apid := newpid\<rparr> # as))"

fun asession :: "os \<Rightarrow> (int \<times> byte list) list \<Rightarrow> ashell list \<Rightarrow> ashell list result" where
  "asession os [] as = Inr as"
| "asession os ((newpid, line) # lines) as = rbind (asession_line os newpid line as) (asession os lines)"

definition stands_for :: "shell \<Rightarrow> ashell \<Rightarrow> bool" where
  "stands_for s a \<longleftrightarrow> pid s = apid a \<and> cwd s = adir a \<and> job_list s (ajobs a)"

lemma stands_forI: "pid s = apid a \<Longrightarrow> cwd s = adir a \<Longrightarrow> jobs_at s js (ajobs a) \<Longrightarrow> stands_for s a"
  by (auto simp: stands_for_def job_list_def)

lemma stands_forE:
  assumes "stands_for s a"
  obtains js where "pid s = apid a" and "cwd s = adir a" and "jobs_at s js (ajobs a)"
  using assms by (auto simp: stands_for_def job_list_def)

lemma stands_for_same:
  assumes "stands_for s a" and "same_jobs s s'" and "cwd s' = d" and "pid s' = q"
  shows "stands_for s' (a\<lparr>apid := q, adir := d\<rparr>)"
  using assms(1)
proof (rule stands_forE)
  fix js assume "jobs_at s js (ajobs a)"
  then have "jobs_at s' js (ajobs a)" by (rule same_jobs_list [OF assms(2)])
  then show ?thesis using assms(3,4) by (intro stands_forI) simp_all
qed

subsection \<open>The words of a line\<close>

lemma getcmd_any:
  assumes "line \<noteq> []"
  shows "getcmd line (replicate 20 None) =
    (if length (words_of line) \<le> 20 then Inr (length (words_of line), argv_of (words_of line), 38 \<in> set (cstr (line @ [0])))
     else Inl OutOfBounds)"
proof -
  have "0 \<notin> set (cstr (line @ [0]))" by (auto simp: cstr_def dest: set_takeWhileD)
  note loop = getcmd_loop_words [OF amp_to_space_no_nul [OF this]]
  have "getcmd line (replicate 20 None) =
      rbind (store_args 0 (words_of line) (replicate 20 None)) (\<lambda>(i, args'). Inr (i, args', 38 \<in> set (cstr (line @ [0]))))"
    using assms loop unfolding getcmd_def words_of_def amp_to_space_def Let_def by simp
  then show ?thesis by (auto simp: store_args_def overwrite_def argv_of_def)
qed

lemma round_words:
  assumes "line \<noteq> []"
  shows "shell_round os newpid line s =
    (let ws = words_of line; s1 = s\<lparr>args := argv_of ws\<rparr> in
     if 20 < length ws then Inl OutOfBounds else if ws = [] then Inl NullDeref
     else if hd ws = bytes_of ''exit'' then Inl (Exited (-1))
     else if newpid = -1 then Inr (s1\<lparr>pid := -1\<rparr>, None)
     else Inr (s1\<lparr>pid := newpid\<rparr>, Some (run_buildins buildins os (s1\<lparr>pid := 0\<rparr>))))"
  using getcmd_any [OF assms] by (cases "words_of line") (auto simp: shell_round_def Let_def argv_of_def)

subsection \<open>What the child of a line does\<close>

text \<open>How the execution of a line by the child ends; \<open>c\<close> is the child when it starts.\<close>

definition child_ends :: "os \<Rightarrow> shell \<Rightarrow> int list \<Rightarrow> byte list list \<Rightarrow> bool" where
  "child_ends os c ps ws \<longleftrightarrow> (\<exists>r. run_buildins buildins os c = Some r \<and>
     (if length ws = 20 \<and> hd ws \<in> {bytes_of ''ls'', bytes_of ''cp''} then r = Inl OutOfBounds
      else if child_gone os ps ws then (\<exists>c'. r = Inr (True, c')) \<or> r = Inl NullDeref
      else \<exists>c'. r = Inr (False, c') \<and> same_jobs c c' \<and> pid c' = pid c \<and> cwd c' = new_dir os (cwd c) ws))"

lemma bytes_of_eq [simp]: "bytes_of xs = bytes_of ys \<longleftrightarrow> xs = ys"
proof -
  have "inj (of_char :: char \<Rightarrow> byte)"
  proof (rule injI)
    fix a b :: char assume "(of_char a :: byte) = of_char b"
    then have "unat (of_nat (of_char a :: nat) :: byte) = unat (of_nat (of_char b :: nat) :: byte)" by (simp only: of_nat_of_char)
    moreover have "(of_char c :: nat) < 256" for c :: char by simp
    ultimately have "(of_char a :: nat) = of_char b" by (simp add: unat_of_nat take_bit_nat_eq_self)
    then show "a = b" by simp
  qed
  then show ?thesis by (simp add: bytes_of_def inj_map_eq_map)
qed

lemma execvp_full:
  assumes "args t = argv_of ws" and "length ws = 20"
  shows "execvp os t = Inl OutOfBounds"
proof -
  obtain w ws' where w: "ws = w # ws'" using assms(2) by (cases ws) auto
  have "argv_of ws = map Some ws" using assms(2) by (simp add: argv_of_def)
  then have "args t ! 0 = Some w" "None \<notin> set (args t)" using assms(1) w by auto
  then show ?thesis by (simp add: execvp_def)
qed

lemma exec_child_ends:
  assumes "(hd ws, f) \<in> set buildins" and "args c = argv_of ws" and "ws \<noteq> []" and "length ws \<le> 20"
    and "hd ws = bytes_of ''ls'' \<or> hd ws = bytes_of ''cp''"
    and "\<And>t. args t = argv_of ws \<Longrightarrow> \<exists>t'. f os t = Some (execvp os t') \<and> args t' = args t \<and> same_jobs t t' \<and> pid t' = pid t \<and> cwd t' = cwd t"
  shows "child_ends os c ps ws"
proof -
  obtain w ws' where w: "ws = w # ws'" using assms(3) by (cases ws) auto
  have a0: "args c ! 0 = Some (hd ws)" using w assms(2) by (simp add: argv_of_def)
  obtain t where t: "f os c = Some (execvp os t)" "args t = args c" "same_jobs c t" "pid t = pid c" "cwd t = cwd c"
    using assms(6) [OF assms(2)] by blast
  have n: "hd ws \<noteq> bytes_of ''cat''" "hd ws \<noteq> bytes_of ''cd''" using assms(5) by auto
  show ?thesis
  proof (cases "length ws = 20")
    case True
    then have "run_buildins buildins os c = Some (Inl OutOfBounds)"
      using buildin_fails [OF assms(1) a0, of os OutOfBounds] t(1,2) execvp_full assms(2) by simp
    then show ?thesis using True assms(5) by (auto simp: child_ends_def)
  next
    case False
    then have "length (w # ws') < 20" using assms(4) w by simp
    note ex = execvp_argv [OF _ this, of t os]
    have e: "execvp os t = (if exec_ok os (hd ws) (program_args ws)
        then Inr (True, t\<lparr>events := events t @ [Exec (hd ws) ws]\<rparr>) else Inr (False, t))"
      using ex t(2) assms(2) n by (simp add: w program_args_def)
    have g: "child_gone os ps ws = exec_ok os (hd ws) (program_args ws)" using assms(5) by (auto simp: child_gone_def)
    have "new_dir os d ws = d" for d using n by (simp add: new_dir_def)
    then show ?thesis
      using buildin_run [OF assms(1) a0] t e g a0 False by (auto simp: child_ends_def split: if_splits)
  qed
qed

lemma other_child_ends:
  assumes "run_buildins buildins os c = Some (Inr (False, c'))" and "same_jobs c c'" and "pid c' = pid c"
    and "cwd c' = new_dir os (cwd c) ws" and "\<not> child_gone os ps ws" and "hd ws \<notin> {bytes_of ''ls'', bytes_of ''cp''}"
  shows "child_ends os c ps ws"
  using assms by (auto simp: child_ends_def)

text \<open>\<open>cat\<close> with a third word redirects its output and keeps the first two words.\<close>

lemma cat_program:
  assumes "args c = argv_of ws" and "ws \<noteq> []" and "length ws \<le> 20" and "hd ws = bytes_of ''cat''"
  obtains t where "buildin_cat os c = Some (execvp os t)" and "same_jobs c t" and "pid t = pid c" and "cwd t = cwd c"
    and "args t ! 0 = Some (hd ws)" and "None \<in> set (args t)" and "map the (takeWhile (\<lambda>a. a \<noteq> None) (args t)) = program_args ws"
proof (cases "2 < length ws")
  case True
  then obtain x y us where ws: "ws = hd ws # x # y # us"
    by (cases ws; cases "tl ws"; cases "tl (tl ws)") auto
  have a: "argv_of ws = Some (hd ws) # Some x # Some y # map Some us @ replicate (20 - length ws) None"
    using arg_cong [OF ws, of length] by (subst (1) ws) (simp add: argv_of_def)
  have "take 2 ws = [hd ws, x]" by (subst ws) (simp add: eval_nat_numeral)
  then have p: "program_args ws = [hd ws, x]" using True assms(4) by (simp add: program_args_def)
  have two: "args c ! 2 = Some y" unfolding assms(1) a by (simp add: eval_nat_numeral)
  obtain fd d tb where r: "redirect_fd 1 (case args c ! 3 of None \<Rightarrow> None | Some f \<Rightarrow> if open_ok os f then Some f else None) (fds c) = (fd, d, tb)"
    by (cases "redirect_fd 1 (case args c ! 3 of None \<Rightarrow> None | Some f \<Rightarrow> if open_ok os f then Some f else None) (fds c)") auto
  let ?t = "show_msg CatRun (show_msg Redirected (c\<lparr>fds := tb, dup_fd := d, args := (args c)[2 := None, 3 := None]\<rparr>))"
  have at: "args ?t = Some (hd ws) # Some x # None # (map Some us @ replicate (20 - length ws) None)[0 := None]"
    unfolding show_msg_def by (simp add: assms(1) a eval_nat_numeral)
  show thesis
  proof (rule that [of ?t])
    show "buildin_cat os c = Some (execvp os ?t)" using two r by (simp add: buildin_cat_def)
    show "args ?t ! 0 = Some (hd ws)" "None \<in> set (args ?t)" "map the (takeWhile (\<lambda>a. a \<noteq> None) (args ?t)) = program_args ws"
      unfolding at p by simp_all
  qed (simp_all add: show_msg_def same_jobs_def)
next
  case False
  let ?t = "show_msg CatRun c"
  have l: "length ws < 20" "program_args ws = ws" using False by (simp_all add: program_args_def)
  have "args c ! 2 = None" using argv_of_nth [OF assms(3), of 2] assms(1) False by simp
  show thesis
  proof (rule that [of ?t])
    show "buildin_cat os c = Some (execvp os ?t)" using \<open>args c ! 2 = None\<close> by (simp add: buildin_cat_def)
    have a: "args ?t = argv_of ws" using assms(1) by (simp add: show_msg_def)
    show "None \<in> set (args ?t)" "map the (takeWhile (\<lambda>a. a \<noteq> None) (args ?t)) = program_args ws"
      unfolding a l(2) using argv_of_all [OF l(1)] by simp_all
    show "args ?t ! 0 = Some (hd ws)" unfolding a using argv_of_nth [OF assms(3), of 0] assms(2) by (simp add: hd_conv_nth)
  qed (simp_all add: show_msg_def same_jobs_def)
qed

lemma cat_child_ends:
  assumes "args c = argv_of ws" and "ws \<noteq> []" and "length ws \<le> 20" and "hd ws = bytes_of ''cat''"
  shows "child_ends os c ps ws"
proof -
  have mem: "(hd ws, buildin_cat) \<in> set buildins" using assms(4) by (simp add: buildins_def)
  have a0: "args c ! 0 = Some (hd ws)" using argv_of_nth [OF assms(3), of 0] assms(1,2) by (simp add: hd_conv_nth)
  obtain t where t: "buildin_cat os c = Some (execvp os t)" "same_jobs c t" "pid t = pid c" "cwd t = cwd c"
    "args t ! 0 = Some (hd ws)" "None \<in> set (args t)" "map the (takeWhile (\<lambda>a. a \<noteq> None) (args t)) = program_args ws"
    using cat_program [OF assms] .
  have e: "execvp os t = (if exec_ok os (hd ws) (program_args ws)
      then Inr (True, t\<lparr>events := events t @ [Exec (hd ws) (program_args ws)]\<rparr>) else Inr (False, t))"
    using t(5-7) by (simp add: execvp_def Let_def)
  have "child_gone os ps ws = exec_ok os (hd ws) (program_args ws)" "new_dir os d ws = d" for d
    using assms(4) by (simp_all add: child_gone_def new_dir_def)
  then show ?thesis
    using buildin_run [OF mem a0] t(1-5) e assms(4) by (auto simp: child_ends_def split: if_splits)
qed

lemma atoi_asked: "c_atoi (arg @ [0]) = Inr (job_asked arg)"
proof -
  have "terminated (arg @ [0])" by (simp add: terminated_def)
  then have "\<exists>k. c_atoi (arg @ [0]) = Inr k" unfolding c_atoi_def by (simp only: not_True_eq_False if_False Let_def sum.inject) blast
  then show ?thesis by (auto simp: job_asked_def)
qed

lemma fg_child_ends:
  assumes "args c = argv_of ws" and "ws \<noteq> []" and "length ws \<le> 20" and "hd ws = bytes_of ''fg''" and "jobs_at c js ps"
  shows "child_ends os c ps ws"
proof -
  obtain w ws' where w: "ws = w # ws'" using assms(2) by (cases ws) auto
  have mem: "(hd ws, buildin_fg) \<in> set buildins" using assms(4) by (simp add: buildins_def)
  have a0: "args c ! 0 = Some (hd ws)" using w assms(1) by (simp add: argv_of_def)
  have dir: "new_dir os d ws = d" for d using assms(4) by (simp add: new_dir_def)
  have gone: "child_gone os ps ws \<longleftrightarrow> 1 < length ws \<and> \<not> (1 \<le> job_asked (ws ! 1) \<and> job_asked (ws ! 1) \<le> int (length ps))"
    using assms(4) by (simp add: child_gone_def)
  show ?thesis
  proof (cases "1 < length ws")
    case False
    then have "args c ! 1 = None" using argv_of_nth [OF assms(3), of 1] assms(1) by simp
    then have "buildin_fg os c = Some (Inr (False, show_msg NeedId c))" by (simp add: buildin_fg_def)
    from buildin_run [OF mem a0 this] a0 have "run_buildins buildins os c = Some (Inr (False, show_msg NeedId c))"
      by (simp add: show_msg_def)
    then show ?thesis by (rule other_child_ends) (use False in \<open>simp_all add: gone dir assms(4) show_msg_def same_jobs_def\<close>)
  next
    case True
    then have a1: "args c ! 1 = Some (ws ! 1)" using argv_of_nth [OF assms(3), of 1] assms(1) by simp
    have k: "c_atoi (ws ! 1 @ [0]) = Inr (job_asked (ws ! 1))" by (rule atoi_asked)
    note fg = buildin_fg_cases [OF assms(5) a1 k, of os]
    show ?thesis
    proof (cases "child_gone os ps ws")
      case True
      then have "buildin_fg os c = Some (Inl NullDeref)" using fg gone by (simp only: if_False simp_thms)
      from buildin_fails [OF mem a0 this] show ?thesis using True assms(4) by (auto simp: child_ends_def)
    next
      case False
      then have k: "1 \<le> job_asked (ws ! 1) \<and> job_asked (ws ! 1) \<le> int (length ps)" using gone True by blast
      let ?job = "ps ! nat (job_asked (ws ! 1) - 1)"
      let ?c1 = "show_msg (if wait_for os ?job = None then SwitchedTo ?job else InvalidNumber_fg)
        (snd (waitpid os ?job (show_msg (SwitchingTo (job_asked (ws ! 1))) c)))"
      have m: "buildin_fg os c = Some (Inr (False, ?c1))" using fg unfolding if_P [OF k] .
      have c1: "args ?c1 = args c" "same_jobs c ?c1" "pid ?c1 = pid c" "cwd ?c1 = new_dir os (cwd c) ws"
        by (simp_all add: show_msg_def waitpid_def same_jobs_def dir)
      have n: "hd ws \<notin> {bytes_of ''ls'', bytes_of ''cp''}" by (simp add: assms(4))
      have "run_buildins buildins os c = Some (Inr (False, ?c1))" by (rule buildin_run [OF mem a0 m]) (simp only: c1(1) a0 simp_thms)
      then show ?thesis using c1(2-4) False n by (rule other_child_ends)
    qed
  qed
qed

lemma plain_child_ends:
  assumes "args c = argv_of ws" and "ws \<noteq> []" and "length ws \<le> 20" and "hd ws \<in> {bytes_of ''cd'', bytes_of ''pwd'', bytes_of ''jobs''}"
    and "jobs_at c js ps"
  shows "child_ends os c ps ws"
proof -
  obtain w ws' where w: "ws = w # ws'" using assms(2) by (cases ws) auto
  have a0: "args c ! 0 = Some (hd ws)" using w assms(1) by (simp add: argv_of_def)
  have a1: "args c ! 1 = (if 1 < length ws then Some (ws ! 1) else None)" using argv_of_nth [OF assms(3), of 1] assms(1) by simp
  have gone: "\<not> child_gone os ps ws" "hd ws \<notin> {bytes_of ''ls'', bytes_of ''cp''}" using assms(4) by (auto simp: child_gone_def)
  have "\<exists>f c'. (hd ws, f) \<in> set buildins \<and> f os c = Some (Inr (False, c')) \<and> same_jobs c c' \<and> pid c' = pid c \<and>
      args c' = args c \<and> cwd c' = new_dir os (cwd c) ws"
  proof -
    consider "hd ws = bytes_of ''cd''" | "hd ws = bytes_of ''pwd''" | "hd ws = bytes_of ''jobs''" using assms(4) by auto
    then show ?thesis
    proof cases
      case 1
      then have "(hd ws, buildin_cd) \<in> set buildins" by (simp add: buildins_def)
      moreover have "\<exists>c'. buildin_cd os c = Some (Inr (False, c')) \<and> same_jobs c c' \<and> pid c' = pid c \<and> args c' = args c \<and>
          cwd c' = new_dir os (cwd c) ws"
        using a1 1 by (auto simp: buildin_cd_def new_dir_def c_chdir_def show_msg_def same_jobs_def split: option.splits if_splits)
      ultimately show ?thesis by blast
    next
      case 2
      then have "(hd ws, buildin_pwd) \<in> set buildins" "new_dir os (cwd c) ws = cwd c" by (simp_all add: buildins_def new_dir_def)
      then show ?thesis by (intro exI [of _ buildin_pwd]) (auto simp: buildin_pwd_def show_msg_def same_jobs_def)
    next
      case 3
      then have "(hd ws, buildin_jobs) \<in> set buildins" "new_dir os (cwd c) ws = cwd c" by (simp_all add: buildins_def new_dir_def)
      then show ?thesis
        by (intro exI [of _ buildin_jobs]) (auto simp: buildin_jobs_def printList_at [OF assms(5)] show_msg_def same_jobs_def)
    qed
  qed
  then obtain f c' where f: "(hd ws, f) \<in> set buildins" "f os c = Some (Inr (False, c'))" "same_jobs c c'" "pid c' = pid c"
    "args c' = args c" "cwd c' = new_dir os (cwd c) ws" by blast
  have "run_buildins buildins os c = Some (Inr (False, c'))" using buildin_run [OF f(1) a0 f(2)] a0 f(5) by simp
  then show ?thesis using f(3,4,6) gone by (rule other_child_ends)
qed

lemma all_child_ends:
  assumes "args c = argv_of ws" and "ws \<noteq> []" and "length ws \<le> 20" and "hd ws \<noteq> bytes_of ''exit''" and "jobs_at c js ps"
  shows "child_ends os c ps ws"
proof -
  obtain w ws' where w: "ws = w # ws'" using assms(2) by (cases ws) auto
  have a0: "args c ! 0 = Some (hd ws)" using w assms(1) by (simp add: argv_of_def)
  consider "hd ws = bytes_of ''ls''" | "hd ws = bytes_of ''cp''" | "hd ws = bytes_of ''cat''" | "hd ws = bytes_of ''fg''"
    | "hd ws \<in> {bytes_of ''cd'', bytes_of ''pwd'', bytes_of ''jobs''}" | "hd ws \<notin> fst ` set buildins"
    using assms(4) by (auto simp: buildins_def)
  then show ?thesis
  proof cases
    case 1
    then have "(hd ws, buildin_ls) \<in> set buildins" by (simp add: buildins_def)
    then show ?thesis using 1 by (intro exec_child_ends [OF _ assms(1-3)]) (auto simp: buildin_ls_def)
  next
    case 2
    then have "(hd ws, buildin_cp) \<in> set buildins" by (simp add: buildins_def)
    then show ?thesis using 2 by (intro exec_child_ends [OF _ assms(1-3)]) (auto simp: buildin_cp_def show_msg_def same_jobs_def)
  next
    case 3
    then show ?thesis using cat_child_ends [OF assms(1-3)] by blast
  next
    case 4
    then show ?thesis using fg_child_ends [OF assms(1-3) _ assms(5)] by blast
  next
    case 5
    then show ?thesis using plain_child_ends [OF assms(1-3) _ assms(5)] by blast
  next
    case 6
    have "run_buildins buildins os c = Some (Inr (False, c))" using run_buildins_none [OF a0 6] .
    then show ?thesis
      by (rule other_child_ends) (use 6 in \<open>auto simp: child_gone_def new_dir_def buildins_def\<close>)
  qed
qed

subsection \<open>The session\<close>

definition few_jobs :: "nat \<Rightarrow> ashell list \<Rightarrow> bool" where
  "few_jobs n as \<longleftrightarrow> list_all (\<lambda>a. length (ajobs a) + n < 2147483648) as"

lemma resume_refines:
  assumes "list_all2 stands_for ss as" and "few_jobs (Suc n) as"
  shows "\<exists>ss'. resume os ss = Inr ss' \<and> list_all2 stands_for ss' (aresume as) \<and> few_jobs n (aresume as)"
proof (cases as)
  case Nil
  then show ?thesis using assms by (simp add: few_jobs_def)
next
  case (Cons a rest)
  then obtain s rest' where ss: "ss = s # rest'" "stands_for s a" "list_all2 stands_for rest' rest"
    using assms(1) by (auto simp: list_all2_Cons2)
  have few: "length (ajobs a) < 2147483647" "list_all (\<lambda>a. length (ajobs a) + n < 2147483648) rest" "Suc (length (ajobs a)) + n < 2147483648"
    using assms(2) Cons by (auto simp: few_jobs_def list_all_iff)
  obtain js where j: "pid s = apid a" "cwd s = adir a" "jobs_at s js (ajobs a)" using ss(2) by (rule stands_forE)
  obtain s' js' where s': "reap os s = Inr s'" "jobs_at s' js' (ajobs a @ [pid s])" "cwd s' = cwd s" "pid s' = pid s"
    using reap_jobs [OF j(3) few(1), of os] by blast
  then have "stands_for s' (a\<lparr>ajobs := ajobs a @ [apid a]\<rparr>)" using j by (intro stands_forI) simp_all
  then show ?thesis using s'(1) Cons ss few by (simp add: few_jobs_def)
qed

text \<open>One line of the code against one line of the abstract session, with room for \<open>n\<close> more lines.\<close>

definition line_agrees :: "nat \<Rightarrow> os \<Rightarrow> int \<Rightarrow> byte list \<Rightarrow> shell list \<Rightarrow> ashell list \<Rightarrow> bool" where
  "line_agrees n os newpid line ss as \<longleftrightarrow>
     (case asession_line os newpid line as of Inl e \<Rightarrow> session_line os newpid line ss = Some (Inl e)
      | Inr as' \<Rightarrow> \<exists>ss'. session_line os newpid line ss = Some (Inr ss') \<and> list_all2 stands_for ss' as' \<and> few_jobs n as')"

lemma line_stopped:
  assumes "list_all2 stands_for ss as" and "few_jobs (Suc n) as"
    and "shell_round os newpid line s = Inl e" and "e \<noteq> OutOfBounds"
    and "asession_line os newpid line (a # as) = Inr (aresume as)"
  shows "line_agrees n os newpid line (s # ss) (a # as)"
  using resume_refines [OF assms(1,2), of os] assms(3-5) by (cases e) (auto simp: session_line_def line_agrees_def)

lemma line_reaped:
  assumes "list_all2 stands_for ss as" and "few_jobs (Suc n) (a # as)"
    and "session_line os newpid line (s # ss) = Some (resume os (p # ss))" and "stands_for p (a\<lparr>apid := q\<rparr>)"
    and "asession_line os newpid line (a # as) = Inr (aresume (a\<lparr>apid := q\<rparr> # as))"
  shows "line_agrees n os newpid line (s # ss) (a # as)"
proof -
  have "list_all2 stands_for (p # ss) (a\<lparr>apid := q\<rparr> # as)" "few_jobs (Suc n) (a\<lparr>apid := q\<rparr> # as)"
    using assms(1,2,4) by (simp_all add: few_jobs_def)
  from resume_refines [OF this, of os] show ?thesis using assms(3,5) by (auto simp: line_agrees_def)
qed

lemma stands_for_round: "stands_for s a \<Longrightarrow> stands_for (s\<lparr>args := ws, pid := q\<rparr>) (a\<lparr>apid := q\<rparr>)"
  using stands_for_same [of s a "s\<lparr>args := ws, pid := q\<rparr>" "adir a" q] by (simp add: stands_for_def)

lemma line_child:
  assumes ss: "stands_for s a" "list_all2 stands_for ss as" "few_jobs (Suc n) (a # as)"
    and line: "line \<noteq> []" "length ws \<le> 20" "ws \<noteq> []" "hd ws \<noteq> bytes_of ''exit''" "newpid \<noteq> -1" "ws = words_of line"
  shows "line_agrees n os newpid line (s # ss) (a # as)"
proof -
  let ?p = "\<lambda>q. s\<lparr>args := argv_of ws, pid := q\<rparr>" and ?full = "length ws = 20 \<and> hd ws \<in> {bytes_of ''ls'', bytes_of ''cp''}"
  have r: "shell_round os newpid line s = Inr (?p newpid, Some (run_buildins buildins os (?p 0)))"
    using line round_words [OF line(1), of os newpid s] by (simp add: Let_def)
  obtain js where "jobs_at s js (ajobs a)" using ss(1) by (rule stands_forE)
  then have "jobs_at (?p 0) js (ajobs a)" by (rule same_jobs_list [rotated]) simp
  with all_child_ends [of "?p 0" ws js "ajobs a" os] line obtain res where res: "run_buildins buildins os (?p 0) = Some res"
    "if ?full then res = Inl OutOfBounds
     else if child_gone os (ajobs a) ws then (\<exists>c'. res = Inr (True, c')) \<or> res = Inl NullDeref
     else \<exists>c'. res = Inr (False, c') \<and> same_jobs (?p 0) c' \<and> pid c' = 0 \<and> cwd c' = new_dir os (cwd s) ws"
    unfolding child_ends_def by (auto split: if_splits)
  have abstract: "asession_line os newpid line (a # as) =
      (if ?full then Inl OutOfBounds else if child_gone os (ajobs a) ws then Inr (aresume (a\<lparr>apid := newpid\<rparr> # as))
       else Inr (a\<lparr>apid := 0, adir := new_dir os (adir a) ws\<rparr> # a\<lparr>apid := newpid\<rparr> # as))"
    using line by (simp add: Let_def)
  consider "?full" | "\<not> ?full" "child_gone os (ajobs a) ws" | "\<not> ?full" "\<not> child_gone os (ajobs a) ws" by blast
  then show ?thesis
  proof cases
    case 1
    then show ?thesis using r res abstract by (simp add: session_line_def line_agrees_def)
  next
    case 2
    have "session_line os newpid line (s # ss) = Some (resume os (?p newpid # ss))"
      using res(2) unfolding if_not_P [OF 2(1)] if_P [OF 2(2)] by (auto simp: session_line_def r res(1))
    then show ?thesis
      by (rule line_reaped [OF ss(2,3) _ stands_for_round [OF ss(1)]]) (simp only: abstract if_not_P [OF 2(1)] if_P [OF 2(2)])
  next
    case 3
    obtain c' where c': "res = Inr (False, c')" "same_jobs (?p 0) c'" "pid c' = 0" "cwd c' = new_dir os (cwd s) ws"
      using res(2) unfolding if_not_P [OF 3(1)] if_not_P [OF 3(2)] by blast
    have "session_line os newpid line (s # ss) = Some (Inr (c' # ?p newpid # ss))"
      by (simp add: session_line_def r res(1) c'(1))
    moreover have "stands_for c' (a\<lparr>apid := 0, adir := new_dir os (adir a) ws\<rparr>)"
      using stands_for_same [OF stands_for_round [OF ss(1)] c'(2,4,3)] ss(1) by (simp add: stands_for_def)
    moreover have "few_jobs n (a\<lparr>apid := 0, adir := new_dir os (adir a) ws\<rparr> # a\<lparr>apid := newpid\<rparr> # as)"
      using ss(3) by (auto simp: few_jobs_def list_all_iff)
    ultimately show ?thesis
      unfolding line_agrees_def abstract if_not_P [OF 3(1)] if_not_P [OF 3(2)] using stands_for_round [OF ss(1)] ss(2) by simp
  qed
qed

lemma session_line_refines:
  assumes "list_all2 stands_for ss as" and "few_jobs (Suc n) as"
  shows "line_agrees n os newpid line ss as"
proof (cases as)
  case Nil
  then show ?thesis using assms by (simp add: session_line_def few_jobs_def line_agrees_def)
next
  case (Cons a rest)
  then obtain s rest' where ss: "ss = s # rest'" "stands_for s a" "list_all2 stands_for rest' rest"
    using assms(1) by (auto simp: list_all2_Cons2)
  let ?ws = "words_of line"
  have few: "few_jobs (Suc n) rest" "few_jobs (Suc n) (a # rest)" using assms(2) Cons by (auto simp: few_jobs_def)
  note stopped = line_stopped [OF ss(3) few(1), of os newpid line s _ a]
  consider "line = []" | "line \<noteq> []" "20 < length ?ws" | "line \<noteq> []" "length ?ws \<le> 20" "?ws = [] \<or> hd ?ws = bytes_of ''exit''"
    | "line \<noteq> []" "length ?ws \<le> 20" "?ws \<noteq> []" "hd ?ws \<noteq> bytes_of ''exit''" "newpid = -1"
    | (child) "line \<noteq> []" "length ?ws \<le> 20" "?ws \<noteq> []" "hd ?ws \<noteq> bytes_of ''exit''" "newpid \<noteq> -1"
    by (cases "line = []"; cases "20 < length ?ws"; cases "?ws = [] \<or> hd ?ws = bytes_of ''exit''"; cases "newpid = -1") auto
  then show ?thesis
  proof cases
    case 1
    then have "?ws = []" by (simp add: words_of_def amp_to_space_def words_def)
    then show ?thesis using stopped [of "Exited (-1)"] 1 Cons ss(1) by (simp add: shell_round_def getcmd_def)
  next
    case 2
    then show ?thesis using round_words [OF 2(1)] Cons ss(1) by (simp add: session_line_def line_agrees_def Let_def)
  next
    case 3
    have "shell_round os newpid line s = Inl NullDeref \<or> shell_round os newpid line s = Inl (Exited (-1))"
      using 3(2,3) round_words [OF 3(1), of os newpid s] by (auto simp: Let_def)
    then show ?thesis using stopped 3(2,3) Cons ss(1) by (auto simp: Let_def)
  next
    case 4
    then show ?thesis
      using line_reaped [OF ss(3) few(2) _ stands_for_round [OF ss(2), where q = "-1"]]
        round_words [OF 4(1), of os newpid s] Cons ss(1) by (simp add: session_line_def Let_def)
  next
    case child
    then show ?thesis using line_child [OF ss(2,3) few(2)] Cons ss(1) by blast
  qed
qed

lemma session_all_refines:
  "list_all2 stands_for ss as \<Longrightarrow> few_jobs (length lines) as \<Longrightarrow>
   case asession os lines as of Inl e \<Rightarrow> session os lines ss = Some (Inl e)
    | Inr as' \<Rightarrow> \<exists>ss'. session os lines ss = Some (Inr ss') \<and> list_all2 stands_for ss' as'"
proof (induction lines arbitrary: ss as)
  case (Cons pl lines)
  obtain newpid line where pl: "pl = (newpid, line)" by fastforce
  have "few_jobs (Suc (length lines)) as" using Cons.prems(2) by simp
  note one = session_line_refines [OF Cons.prems(1) this, of os newpid line, unfolded line_agrees_def]
  show ?case
  proof (cases "asession_line os newpid line as")
    case (Inl e)
    then show ?thesis using one pl by simp
  next
    case (Inr as1)
    then obtain ss1 where one: "session_line os newpid line ss = Some (Inr ss1)" "list_all2 stands_for ss1 as1" "few_jobs (length lines) as1"
      using one by auto
    then have "session os (pl # lines) ss = session os lines ss1" "asession os (pl # lines) as = asession os lines as1"
      using Inr by (simp_all add: pl)
    then show ?thesis using Cons.IH [OF one(2,3)] by (simp only:)
  qed
qed simp

subsection \<open>Property\<close>

text \<open>C24: A session of the shell is the session of the stack: for every sequence of lines and every result of \<open>fork\<close>
  (as long as no shell has 2 to the 31 jobs), each line returns, and afterwards the processes have the numbers, directories and job lists that the abstract session
  says. A line without words or with \<open>exit\<close> ends the shell that reads it; a line whose child executes a program, or
  crashes in \<open>fg\<close>, or cannot be started makes a job; any other line puts its child on the stack, in the
  directory of a \<open>cd\<close>. The program overflows exactly when a line has more than twenty words, or twenty with \<open>ls\<close>
  or \<open>cp\<close> in front.\<close>

theorem session_refines:
  assumes "list_all2 stands_for ss as" and "few_jobs (length lines) as"
  shows "case asession os lines as of Inl e \<Rightarrow> session os lines ss = Some (Inl e)
    | Inr as' \<Rightarrow> \<exists>ss'. session os lines ss = Some (Inr ss') \<and> list_all2 stands_for ss' as'"
  by (rule session_all_refines [OF assms])

text \<open>The first line makes a second shell, which makes a job, changes to another directory in a third shell,
  gets back to its own and makes two more jobs of that line and of an \<open>fg\<close> that crashes.\<close>

theorem session_refines_witness:
  "\<exists>ss. session demo_os [(7, bytes_of ''jobs'' @ [10]), (8, bytes_of ''ls -l'' @ [10]), (9, bytes_of ''cd tmp'' @ [10]),
      (0, bytes_of ''exit'' @ [10]), (10, bytes_of ''fg 5'' @ [10])] [demo_shell] = Some (Inr ss) \<and>
    list_all2 stands_for ss [\<lparr>apid = 10, adir = [47], ajobs = [8, 9, 10]\<rparr>, \<lparr>apid = 7, adir = [47], ajobs = []\<rparr>]"
proof -
  let ?lines = "[(7, bytes_of ''jobs'' @ [10]), (8, bytes_of ''ls -l'' @ [10]), (9, bytes_of ''cd tmp'' @ [10]),
    (0, bytes_of ''exit'' @ [10]), (10, bytes_of ''fg 5'' @ [10])] :: (int \<times> byte list) list"
  let ?a = "\<lparr>apid = -1, adir = [47], ajobs = []\<rparr>"
  have "stands_for demo_shell ?a" by (rule stands_forI [where js = "[]"]) (simp_all add: demo_shell_jobs, simp_all add: demo_shell_def)
  then have h: "list_all2 stands_for [demo_shell] [?a]" "few_jobs (length ?lines) [?a]" by (simp_all add: few_jobs_def)
  have "asession demo_os ?lines [?a] =
      Inr [\<lparr>apid = 10, adir = [47], ajobs = [8, 9, 10]\<rparr>, \<lparr>apid = 7, adir = [47], ajobs = []\<rparr>]" by code_simp
  then show ?thesis using session_refines [OF h, of demo_os] by simp
qed

end
