(* ===== verification/Shell_Main.thy ===== *)
theory Shell_Main
  imports Shell_Session
begin

text \<open>
  \<open>main\<close> of \<^verbatim>\<open>A_simple_shell/main.c\<close> from its first line: the prompt with the name of the user, the
  list of the builtin commands, the handlers of the signals, and then the sessions of \<open>Shell\<close>.
  The array for the prompt is one byte short; \<open>room\<close> is the number of bytes the compiler leaves
  unused behind it.
\<close>

subsection \<open>The program\<close>

text \<open>The loop that clears the argument array before every line.\<close>

definition initialize :: "arg_array \<Rightarrow> arg_array" where
  "initialize a = foldl (\<lambda>a i. a[i := None]) a [0..<20]"

definition num_buildins :: nat where
  "num_buildins = length buildins"

text \<open>What the program learns when it starts: \<open>getenv("USER")\<close> and the results of \<open>signal\<close>.\<close>

record surroundings =
  user_name :: "byte list option"
  sigint_bound :: bool
  sigtstp_ignored :: bool

definition user_string :: "surroundings \<Rightarrow> byte list" where
  "user_string e = cstr (case user_name e of None \<Rightarrow> bytes_of ''User'' | Some u \<Rightarrow> u)"

definition prompt_text :: "surroundings \<Rightarrow> byte list" where
  "prompt_text e = [10] @ user_string e @ bytes_of ''>> ''"

definition make_prompt :: "nat \<Rightarrow> surroundings \<Rightarrow> shell \<Rightarrow> (byte list \<times> shell) result" where
  "make_prompt room e s =
     (let (str, s1) = indet (length (user_string e) + 4 + room) s
      in rbind (store_mem str 0 (prompt_text e @ [0])) (\<lambda>str1. Inr (str1, s1)))"

definition shell_start :: "nat \<Rightarrow> surroundings \<Rightarrow> shell \<Rightarrow> (byte list \<times> shell) result" where
  "shell_start room e s =
     rbind (make_prompt room e s) (\<lambda>(str, s1).
     let s2 = show_msg (Commands (map (\<lambda>i. fst (buildins ! i)) [0..<num_buildins])) s1 in
     if \<not> sigint_bound e then Inl (Exited 1)
     else Inr (str, if sigtstp_ignored e then s2 else show_msg NotIgnored s2))"

text \<open>The globals at the start; \<open>args\<close> and the rest of the stack are not initialised.\<close>

definition shell_boot :: "byte stream \<Rightarrow> arg_array \<Rightarrow> byte list fd_list \<Rightarrow> byte list \<Rightarrow> shell" where
  "shell_boot u a t d = \<lparr>unk = u, heap = Map.empty, brk = 0, head_job = None, current_job = None, wpid = -1, pid = -1,
     args = a, fds = t, dup_fd = 0, cwd = d, shown = [], events = []\<rparr>"

text \<open>The lines typed come with the results of \<open>fork\<close>.\<close>

definition shell_main :: "nat \<Rightarrow> surroundings \<Rightarrow> os \<Rightarrow> (int \<times> byte list) list \<Rightarrow> shell \<Rightarrow> shell list result option" where
  "shell_main room e os lines s =
     pbind (Some (shell_start room e s)) (\<lambda>(str, s1). session os lines [s1])"

subsection \<open>The start\<close>

text \<open>An array of twenty pointers is cleared as the model of the loop of \<open>main\<close> has it.\<close>

lemma clear_prefix: "k \<le> length a \<Longrightarrow> foldl (\<lambda>a i. a[i := None]) a [0..<k] = replicate k None @ drop k a"
  by (induction k) (auto simp: list_update_append replicate_app_Cons_same Cons_nth_drop_Suc [symmetric] split: nat.splits)

lemma initialize_clears: "length a = 20 \<Longrightarrow> initialize a = replicate 20 None"
  using clear_prefix [of 20 a] by (simp add: initialize_def)

lemma commands_shown: "map (\<lambda>i. fst (buildins ! i)) [0..<num_buildins] = map fst buildins"
  by (rule nth_equalityI) (simp_all add: num_buildins_def)

lemma length_prompt: "length (prompt_text e @ [0]) = length (user_string e) + 5"
proof -
  have "length (bytes_of ''>> '') = 3" by code_simp
  then show ?thesis by (simp add: prompt_text_def)
qed

lemma prompt_string: "cstr (prompt_text e @ 0 # z) = prompt_text e"
proof -
  have "0 \<notin> set (bytes_of ''>> '')" by code_simp
  then have "0 \<notin> set (prompt_text e)" by (auto simp: prompt_text_def user_string_def cstr_def dest: set_takeWhileD)
  then show ?thesis by simp
qed

lemma make_prompt_ends:
  assumes "0 < room"
  shows "\<exists>z u. make_prompt room e s = Inr (prompt_text e @ 0 # z, s\<lparr>unk := u\<rparr>)"
proof -
  have "length (prompt_text e @ [0]) \<le> length (user_string e) + 4 + room" unfolding length_prompt using assms by linarith
  then show ?thesis by (simp add: make_prompt_def indet_def store_mem_def overwrite_def) blast
qed

lemma make_prompt_overflow: "make_prompt 0 e s = Inl OutOfBounds"
  using length_prompt [of e] by (simp add: make_prompt_def indet_def store_mem_def)

subsection \<open>Property\<close>

text \<open>C27: The array for the prompt is one byte short: without unused bytes behind it the program writes over
  the next object before it shows anything. Otherwise it has its prompt as a string, shows the eight commands
  and deals with every sequence of lines as the stack of abstract shells does: it overflows where that does, and
  otherwise its processes have the numbers, directories and job lists of the stack, at most one process more and at most one job
  of a process for each line.\<close>

theorem shell_starts:
  assumes "length lines < 2147483648" and "sigint_bound e"
  shows "shell_main 0 e os lines (shell_boot u a t d) = Some (Inl OutOfBounds) \<and>
    (\<exists>str s. shell_start (Suc room) e (shell_boot u a t d) = Inr (str, s) \<and> cstr str = prompt_text e \<and>
      shown s = Commands (map fst buildins) # (if sigtstp_ignored e then [] else [NotIgnored]) \<and>
      shell_main (Suc room) e os lines (shell_boot u a t d) = session os lines [s]) \<and>
    (case asession os lines [\<lparr>apid = -1, adir = d, ajobs = []\<rparr>] of
       Inl err \<Rightarrow> err = OutOfBounds \<and> shell_main (Suc room) e os lines (shell_boot u a t d) = Some (Inl OutOfBounds)
     | Inr as \<Rightarrow> (\<exists>ss. shell_main (Suc room) e os lines (shell_boot u a t d) = Some (Inr ss) \<and> list_all2 stands_for ss as \<and>
         session_inv (length lines) ss \<and> length ss \<le> Suc (length lines)))"
proof -
  let ?b = "shell_boot u a t d"
  obtain z v where p: "make_prompt (Suc room) e ?b = Inr (prompt_text e @ 0 # z, ?b\<lparr>unk := v\<rparr>)"
    using make_prompt_ends [of "Suc room" e ?b] by auto
  let ?s = "(?b\<lparr>unk := v\<rparr>)\<lparr>shown := Commands (map fst buildins) # (if sigtstp_ignored e then [] else [NotIgnored])\<rparr>"
  have st: "shell_start (Suc room) e ?b = Inr (prompt_text e @ 0 # z, ?s)"
    using p assms(2) by (simp add: shell_start_def commands_shown show_msg_def shell_boot_def)
  then have m: "shell_main (Suc room) e os lines ?b = session os lines [?s]" by (simp add: shell_main_def)
  have "jobs_at ?s [] []" by (simp add: shell_boot_def jobs_at_def numbered_def)
  then have "session_inv 0 [?s]" by (auto simp: has_jobs_def)
  from session_ends [OF this, of lines os] assms(1) m
  have ends: "shell_main (Suc room) e os lines ?b = Some (Inl OutOfBounds) \<or>
    (\<exists>ss. shell_main (Suc room) e os lines ?b = Some (Inr ss) \<and> session_inv (length lines) ss \<and> length ss \<le> Suc (length lines))"
    by simp
  let ?a = "\<lparr>apid = -1, adir = d, ajobs = []\<rparr>"
  have "stands_for ?s ?a" using \<open>jobs_at ?s [] []\<close> by (intro stands_forI) (simp_all add: shell_boot_def)
  then have "list_all2 stands_for [?s] [?a]" "few_jobs (length lines) [?a]" using assms(1) by (simp_all add: few_jobs_def)
  note all = session_all_refines [OF this, of os]
  have refines: "case asession os lines [?a] of
      Inl err \<Rightarrow> shell_main (Suc room) e os lines ?b = Some (Inl err)
    | Inr as \<Rightarrow> \<exists>ss. shell_main (Suc room) e os lines ?b = Some (Inr ss) \<and> list_all2 stands_for ss as"
    unfolding m by (rule all)
  have e: "case asession os lines [?a] of
       Inl err \<Rightarrow> err = OutOfBounds \<and> shell_main (Suc room) e os lines ?b = Some (Inl OutOfBounds)
     | Inr as \<Rightarrow> (\<exists>ss. shell_main (Suc room) e os lines ?b = Some (Inr ss) \<and> list_all2 stands_for ss as \<and>
         session_inv (length lines) ss \<and> length ss \<le> Suc (length lines))"
    using ends refines by (auto split: sum.splits)
  have "shell_main 0 e os lines ?b = Some (Inl OutOfBounds)"
    by (simp add: shell_main_def shell_start_def make_prompt_overflow)
  moreover have "\<exists>str s. shell_start (Suc room) e ?b = Inr (str, s) \<and> cstr str = prompt_text e \<and>
      shown s = Commands (map fst buildins) # (if sigtstp_ignored e then [] else [NotIgnored]) \<and>
      shell_main (Suc room) e os lines ?b = session os lines [s]"
    using st m prompt_string by (intro exI [of _ "prompt_text e @ 0 # z"] exI [of _ ?s]) simp
  ultimately show ?thesis using e by blast
qed

text \<open>One line is typed by somebody called \<open>bob\<close>.\<close>

theorem shell_starts_witness:
  "let e = \<lparr>user_name = Some (bytes_of ''bob''), sigint_bound = True, sigtstp_ignored = True\<rparr>;
       s0 = shell_boot (sconst 7) (replicate 20 None) [] [47] in
   shell_main 0 e demo_os [(7, bytes_of ''jobs'' @ [10])] s0 = Some (Inl OutOfBounds) \<and>
   (\<exists>str s. shell_start 3 e s0 = Inr (str, s) \<and> cstr str = [10] @ bytes_of ''bob>> '' \<and> shown s = [Commands (map fst buildins)])"
proof -
  let ?e = "\<lparr>user_name = Some (bytes_of ''bob''), sigint_bound = True, sigtstp_ignored = True\<rparr>"
  have t: "prompt_text ?e = [10] @ bytes_of ''bob>> ''" unfolding prompt_text_def user_string_def by code_simp
  have "length [(7 :: int, bytes_of ''jobs'' @ [10])] < 2147483648" "sigint_bound ?e" by simp_all
  from shell_starts [OF this, of demo_os "sconst 7" "replicate 20 None" "[]" "[47]" 2] t show ?thesis by (auto simp: numeral_3_eq_3)
qed

end
