(* ===== verification/Spec2Isabelle.thy ===== *)
theory Spec2Isabelle
  imports Fuse_Server Sfs_Calls Bitmap_Module Sfs_Persistence Sfs_Mytest Sfs_Test2
    Reservation_Together Reservation_Run Shell_Main
begin

text \<open>
  \<^bold>\<open>A verification library for three operating-system programs\<close>

  The repository holds three programs in C: a simple file system with a FUSE front end
  (\<^verbatim>\<open>file_system/\<close>), a table reservation program whose processes share memory
  (\<^verbatim>\<open>Reservation system/\<close>) and a shell (\<^verbatim>\<open>A_simple_shell/\<close>). They share no code; the three parts of
  this library share the vocabulary of \<open>Prelude\<close>, \<open>C_Library\<close>, \<open>Semaphore\<close> and \<open>Fd_Table\<close>.

  \<^bold>\<open>How C is modelled.\<close>
  A C object is the list of its bytes, \<open>byte\<close> is an 8-bit word, \<open>char\<close> is signed. C integers
  are \<open>int\<close> or \<open>nat\<close> with the conversions \<open>s32\<close>, \<open>u32\<close> and \<open>u64\<close> written where the code makes
  them. Every operation is a function from the state to a \<open>result\<close>: \<open>Inr\<close> the returned value and
  the new state, or \<open>Inl\<close> the way the run stops: \<open>OutOfBounds\<close> for a write outside an object or an
  index outside an array, \<open>NullDeref\<close>, \<open>Dangling\<close>, \<open>Blocked\<close> for a wait that no other process ends.
  The error returns of the C code (-1, 0) are ordinary values. Bytes that are read without having
  been written come from the stream \<open>unk\<close> of the state, about which nothing is assumed.
  What lies outside the repository is a parameter or a field of the state: the host file of the
  disk, the answers of \<open>execvp\<close>, \<open>open\<close>, \<open>chdir\<close>, \<open>waitpid\<close> and \<open>fork\<close> (record \<open>os\<close>), the
  function FUSE passes to \<open>readdir\<close>, \<open>errno\<close> and the undefined \<open>MAXFILENAME\<close>, and what a run of the
  reservation program finds (record \<open>world\<close>). Where the code writes one byte behind an array on the stack, a parameter
  \<open>room\<close> says how many bytes the compiler leaves unused there; with none the write is \<open>OutOfBounds\<close>.

  \<^bold>\<open>The file system.\<close>
  \<^item> \<open>Disk_Emu\<close> is \<^verbatim>\<open>disk_emu.c\<close>: \<open>init_fresh_disk\<close>, \<open>init_disk\<close>, \<open>read_blocks\<close>, \<open>write_blocks\<close>,
    \<open>close_disk\<close>. A ready disk (\<open>disk_ready\<close>) satisfies the laws of a device of 1024 blocks of 1024
    bytes (locale \<open>block_device\<close>, interpreted as \<open>emu\<close>).
  \<^item> \<open>Bitmap\<close> is the free-block bitmap of \<^verbatim>\<open>sfs_api.c\<close> and the other version of \<open>get_index\<close> in
    \<^verbatim>\<open>bitmap.c\<close>. The code is an allocator of the set \<open>free_set\<close> (locale \<open>allocator\<close>, interpreted as \<open>bm\<close>).
  \<^item> \<open>Sfs_Types\<close> holds the structures of \<^verbatim>\<open>sfs_api.h\<close>, the globals of \<^verbatim>\<open>sfs_api.c\<close> (record \<open>sfs\<close>, which
    extends the disk) and the memory images of the structures, with their round trips.
  \<^item> \<open>Sfs_Format\<close> is \<open>mksfs\<close>: both branches, and the image of the tables (\<open>image_on_disk\<close>).
  \<^item> \<open>Sfs_Dir\<close> is \<open>sfs_fopen\<close>, \<open>sfs_fclose\<close>, \<open>sfs_fseek\<close>, \<open>sfs_getfilesize\<close>, \<open>sfs_getnextfilename\<close>
    and the empty \<open>sfs_remove\<close>; \<open>dir_ok\<close> is the invariant of the directory.
  \<^item> \<open>Sfs_Data\<close> is \<open>sfs_fread\<close>, \<open>sfs_fwrite\<close> and their helpers; \<open>Sfs_File\<close> is their correctness: the block map
    of a file, the invariant \<open>fs_inv\<close> (no block belongs to two files, to a file and the free list, or
    to the tables), and the contents of every file after a read or a write.
  \<^item> \<open>Sfs_Spec\<close> is the abstract file system, a list of named byte sequences, and the refinement: whole
    sequences of operations on the program return what the abstract operations return.
  \<^item> \<open>Sfs_Space\<close> counts the blocks: none is lost, so that conditions on the calls of a client alone
    make all of them \<open>admissible\<close>, and the refinement holds for every client that fits on the disk.
  \<^item> \<open>Sfs_Persistence\<close> is what the disk keeps of it.
  \<^item> \<open>Sfs_Large\<close> is what happens outside the refinement: a write behind the direct blocks of a file that is lost.
  \<^item> \<open>Sfs_Typed\<close> is the C types of the globals (\<open>typed\<close>), which every function of \<^verbatim>\<open>sfs_api.h\<close> keeps for
    all arguments; \<open>api\<close> is that interface. \<open>Sfs_Calls\<close> follows the semaphore through every way through
    every function (\<open>still\<close>): no sequence of calls waits for ever.
  \<^item> \<open>Bitmap_Module\<close> is \<^verbatim>\<open>bitmap.c\<close> with its own array, compared with the copy in \<^verbatim>\<open>sfs_api.c\<close>.
  \<^item> \<open>Fuse\<close> is \<^verbatim>\<open>fuse_wrappers.c\<close>, every callback, over the abstract file system; \<open>Fuse_Server\<close> is its
    table of callbacks and its \<open>main\<close>, refining a server of named byte sequences for whole sequences of requests.
    The number that \<open>sfs_fseek\<close> forgets to return decides whether a read or a write takes its error path: \<open>leftover\<close>
    says which bytes of uninitialised memory that number is, and \<open>flags\<close> follows it through a run of the server.
  \<^item> \<open>Sfs_Mytest\<close> and \<open>Sfs_Test2\<close> are the test programs, clients of the interface, composed with
    \<open>Sfs_Space\<close>, \<open>Sfs_Large\<close> and \<open>Sfs_Typed\<close>. Both mains of \<open>Sfs_Test2\<close> are modelled to their ends, although
    no run gets behind their \<open>mksfs(0)\<close> (\<open>test2_never_ends\<close>).

  A write of the refinement is \<open>writable\<close>: it starts within the file, there is room, and the blocks
  in the middle of the file that it touches are ones the code knows. The last condition is needed because
  \<open>sfs_fwrite\<close> copies \<open>numIndPtrs\<close> bytes, not \<open>numIndPtrs\<close> numbers, out of the indirect block;
  \<open>writable_direct\<close> shows that files up to twelve blocks always satisfy it.
\<close>

text \<open>
  \<^bold>\<open>The reservation program.\<close>
  \<^item> \<open>Semaphore\<close> is the value of a named semaphore; the locale \<open>semaphore\<close> is what a critical
    section relies on, interpreted for the semaphores of the file system and of the reservation program.
  \<^item> \<open>Reservation\<close> is \<^verbatim>\<open>Reservation system/main.c\<close> as one process sees it: the tables, the
    commands, the loop of \<open>main\<close> on its input. The abstract state is the map from the table numbers to the guests.
  \<^item> \<open>Reservation_Locks\<close> is any number of processes on the same tables: \<open>advance\<close> is one action of a
    process, \<open>step\<close> the interleaving, \<open>reach\<close> the reachable states. Its lemmas are the invariant of
    the two locks (by rule induction), the order in which they are taken (\<open>section_id\<close> as a \<open>linorder\<close>, so
    that a process that waits is behind one that holds a greater section) and the work that is left.
  \<^item> \<open>Reservation_Actions\<close> is the vocabulary that connects the two: which function of \<open>Reservation\<close> a command of a
    process stands for (\<open>code_of\<close>), and when the shared memory is the state of the interleaved model (\<open>models\<close>).
  \<^item> \<open>Reservation_Serial\<close> adds what the actions print (\<open>prints\<close>) and compares the histories of the interleaved
    processes (\<open>runs\<close>) with those of the functions of \<open>Reservation\<close>, each executed at once
    (\<open>object_runs\<close>): a reservation takes place when it copies the name, or when it is clear that
    it will not; \<open>initTables\<close> and \<open>printTableInfo\<close> when they hold both locks. A complete history has a serial order.
  \<^item> \<open>Reservation_Together\<close> puts the map of the tables in place of the memory: any number of programs behave as
    one book of reservations that takes their commands in a merged order.
  \<^item> \<open>Namespaces\<close> is \<^verbatim>\<open>clearout.c\<close> and what a program that starts finds under the system-wide names.
  \<^item> \<open>Reservation_Run\<close> is the whole \<open>main\<close>, from its arguments to its exit code, and runs of it one after the
    other over files with commands, refining an interpreter of these commands.

  \<^bold>\<open>The shell.\<close>
  \<^item> \<open>Shell_Parse\<close> is \<open>getcmd\<close>: the line cut into words.
  \<^item> \<open>Shell_Jobs\<close> is the linked list of jobs, on a heap, refining a list of process numbers.
  \<^item> \<open>Fd_Table\<close> is the descriptor table, used by \<open>buildin_cat\<close>, by \<^verbatim>\<open>redirect_test.c\<close> and by the
    reservation program.
  \<^item> \<open>Shell\<close> is the builtin commands, a round of \<open>main\<close> and the processes that its \<open>fork\<close> makes.
  \<^item> \<open>Shell_Session\<close> is a shell without memory: a list of process numbers and a directory, driven by the words of the
    lines (\<open>asession\<close>). The program refines it, and overflows exactly where a line has too many words.
  \<^item> \<open>Shell_Main\<close> is \<open>main\<close> from its first line, with the prompt.

  \<^bold>\<open>Termination.\<close>
  Loops over arrays are structural recursion over the indices. \<open>readdir_loop\<close>, \<open>clean_loop\<close>, \<open>getcmd_loop\<close> and
  the loops of the library functions and the loops over chunks and over the directory in \<open>Sfs_Test2\<close> are shown to end with a measure. \<open>find_loop\<close>, \<open>print_loop\<close> (over
  pointers, which could form a circle) and \<open>command_loop\<close> (which is meant to run on) are partial
  functions: \<open>None\<close> means that the loop does not end, and the theorems say when it does and when it
  does not. There is no fuel.

  \<^bold>\<open>Sizes and bounds.\<close>
  The disk has 1024 blocks of 1024 bytes, of which the tables take the first 35; there are 100 inodes; a
  file has at most 268 blocks (\<open>MAX_FILE_SIZE\<close>). These are the constants of the code. The bitmap
  has 129 bytes in the model: the 128 of the array and the byte behind it, which the search reads.

  \<^bold>\<open>Not modelled.\<close>
  \<^item> What the programs print, except the tables that the reservation program lists and what the shell
    shows; the sleeping and the latency of the disk.
  \<^item> A failing \<open>malloc\<close>, except for a negative size, which always fails.
  \<^item> Concurrent use of the file system: its operations are sequential here, the semaphore is part of the state.
  \<^item> Signals arriving in the middle of a shell command; \<open>sigHandler\<close> itself is modelled.
  \<^item> The loop of the FUSE library, of which only the order of the callbacks is used.
  \<^item> Build files and documents.
\<close>

end
